(* ===== verification/Irc_Prelude.thy ===== *)
theory Irc_Prelude
  imports Main "HOL-Library.Char_ord" "HOL-Library.List_Lexorder" "HOL-Library.Sublist"
begin

text \<open>
  Shared base of the development: the outcome of a Go call (a value, a run-time panic, or
  the end of the process), the errors the code hands back as values, and the generic list
  lemmas that the component theories use.  The locale \<open>progress\<close> is the argument by which the state machines of the
  goroutines get to their end.

  A Go string is a sequence of bytes, and so is Isabelle's \<^typ>\<open>string\<close>: a \<^typ>\<open>char\<close> is
  an 8-bit value, and the order on strings is the bytewise lexicographic order of Go and etcd.
\<close>

section \<open>Outcomes and errors\<close>

text \<open>
  What a Go call can do: return, panic (index out of range, nil dereference, an explicit
  \<^verbatim>\<open>panic\<close>), terminate the process by \<^verbatim>\<open>os.Exit\<close>, or, in the models that take fuel, still
  be running when the fuel is gone.
\<close>

datatype 'a outcome = Ok 'a | Panic string | Exit int | OutOfFuel

datatype error =
    ErrEOF                       \<comment> \<open>gob: decoding an empty input\<close>
  | ErrGob                       \<comment> \<open>gob: the input does not match the receiver\<close>
  | ErrKeyNotFound               \<comment> \<open>etcd: ignore-lease put on a missing key\<close>
  | ErrLeaseNotFound             \<comment> \<open>etcd: put with an unknown lease\<close>
  | ErrLeaseExists               \<comment> \<open>etcd: granting a lease that exists\<close>
  | ErrFutureRev                 \<comment> \<open>etcd: read at a revision that does not exist yet\<close>
  | ErrEmptyKey                  \<comment> \<open>etcd: request with an empty key\<close>
  | ErrLeaseProvided             \<comment> \<open>etcd: ignore-lease put that also names a lease\<close>
  | ErrDuplicateKey              \<comment> \<open>etcd: one transaction modifies a key twice\<close>
  | ErrTooManyOps                \<comment> \<open>etcd: more than 128 operations in a transaction\<close>
  | ErrRpc string                \<comment> \<open>the connection to etcd failed\<close>
  | ErrCtx                       \<comment> \<open>the context was cancelled\<close>
  | ErrConn string               \<comment> \<open>the IRC connection failed\<close>
  | ErrHandshake                 \<comment> \<open>unexpected message during the handshake\<close>
  | ErrBadPkcs7 nat
  | ErrBadHmac

primrec bind_outcome :: "'a outcome \<Rightarrow> ('a \<Rightarrow> 'b outcome) \<Rightarrow> 'b outcome" where
  "bind_outcome (Ok a) f = f a"
| "bind_outcome (Panic s) f = Panic s"
| "bind_outcome (Exit n) f = Exit n"
| "bind_outcome OutOfFuel f = OutOfFuel"

lemma bind_outcome_Ok_iff:
  "bind_outcome m f = Ok b \<longleftrightarrow> (\<exists>a. m = Ok a \<and> f a = Ok b)"
  by (cases m) auto

section \<open>Collections of rewrite rules\<close>

named_theorems key_simps \<open>distinctness and injectivity of the etcd keys\<close>
named_theorems store_simps \<open>lookups after updates of the etcd store\<close>

section \<open>Lists\<close>

lemma map_of_filter_neq: "map_of (filter (\<lambda>p. fst p \<noteq> k) xs) = (map_of xs)(k := None)"
  by (induction xs) (auto simp: fun_eq_iff)

lemma count_list_remove1:
  "count_list (remove1 x xs) y = (if x = y then count_list xs y - 1 else count_list xs y)"
  by (induction xs) (auto simp: count_list_0_iff[THEN iffD2])

lemma map_le_None: "f \<subseteq>\<^sub>m g \<Longrightarrow> g k = None \<Longrightarrow> f k = None"
  by (metis domIff map_le_def)

lemma map_le_Some: "f \<subseteq>\<^sub>m g \<Longrightarrow> f k = Some v \<Longrightarrow> g k = Some v"
  by (metis domI map_le_def)

section \<open>Progress of state machines\<close>

text \<open>
  A machine that, while it has not reached its goal, can always take a step after which less is left to do.  Its interpretations
  are the goroutines that a \<^verbatim>\<open>Close\<close> waits for.
\<close>

locale progress =
  fixes step :: "'s \<Rightarrow> 's \<Rightarrow> bool" and inv :: "'s \<Rightarrow> bool" and final :: "'s \<Rightarrow> bool" and todo :: "'s \<Rightarrow> nat"
  assumes advance: "inv s \<Longrightarrow> \<not> final s \<Longrightarrow> \<exists>s'. step s s' \<and> inv s' \<and> todo s' < todo s"
begin

lemma ends_within: "inv s \<Longrightarrow> \<exists>n s'. n \<le> todo s \<and> (step ^^ n) s s' \<and> inv s' \<and> final s'"
proof (induction "todo s" arbitrary: s rule: less_induct)
  case less
  show ?case
  proof (cases "final s")
    case True
    with less.prems show ?thesis by (intro exI [of _ 0] exI [of _ s]) simp
  next
    case False
    from advance [OF less.prems False] obtain s1 where s1: "step s s1" "inv s1" "todo s1 < todo s" by blast
    from less.hyps [OF s1(3,2)] obtain n s' where "n \<le> todo s1" "(step ^^ n) s1 s'" "inv s' \<and> final s'" by blast
    moreover from this(2) s1(1) have "(step ^^ Suc n) s s'" by (rule relpowp_Suc_I2 [rotated])
    ultimately show ?thesis using s1(3) by (metis Suc_leI le_less_trans)
  qed
qed

lemma ends: "inv s \<Longrightarrow> \<exists>s'. step\<^sup>*\<^sup>* s s' \<and> inv s' \<and> final s'"
  using ends_within relpowp_imp_rtranclp by metis

end

section \<open>Goroutines in a list\<close>

text \<open>How many of a list of goroutines have not ended, and what an update of one of them does to counts and sums.\<close>

definition live :: "('a \<Rightarrow> bool) \<Rightarrow> 'a list \<Rightarrow> nat" where
  "live ended xs = length (filter (\<lambda>x. \<not> ended x) xs)"

lemma live_update:
  "i < length xs \<Longrightarrow> int (live e (xs[i := x])) = int (live e xs) - (if e (xs ! i) then 0 else 1) + (if e x then 0 else 1)"
proof (induction xs arbitrary: i)
  case (Cons a xs)
  show ?case
  proof (cases i)
    case (Suc j)
    with Cons.IH [of j] Cons.prems show ?thesis by (auto simp: live_def split: if_splits)
  qed (simp add: live_def)
qed simp

lemma live_append [simp]: "live e (xs @ ys) = live e xs + live e ys"
  by (simp add: live_def)

lemma live_0: "live e xs = 0 \<longleftrightarrow> (\<forall>x \<in> set xs. e x)"
  by (simp add: live_def filter_empty_conv)

lemma sum_update_less: "i < length xs \<Longrightarrow> f x < f (xs ! i) \<Longrightarrow> sum_list (map f (xs[i := x])) < (sum_list (map f xs) :: nat)"
  by (induction xs arbitrary: i) (auto simp: nth_Cons split: nat.splits)

end
