(* ===== verification/Go_Strings.thy ===== *)
theory Go_Strings
  imports Irc_Prelude
begin

text \<open>
  The functions of Go's \<^verbatim>\<open>strings\<close>, \<^verbatim>\<open>bytes\<close> and \<^verbatim>\<open>fmt\<close> packages that the program
  calls: \<^verbatim>\<open>Split\<close> and \<^verbatim>\<open>Join\<close> on a one-byte separator, \<^verbatim>\<open>IndexByte\<close>, \<^verbatim>\<open>HasPrefix\<close>,
  and the verbs \<^verbatim>\<open>%d\<close> and \<^verbatim>\<open>%x\<close> of \<^verbatim>\<open>Sprintf\<close> with \<^verbatim>\<open>%d\<close> of \<^verbatim>\<open>Sscanf\<close>.  Main results:
  splitting and joining are inverse to each other, and a printed number reads back.
\<close>

section \<open>Split and Join\<close>

text \<open>\<^verbatim>\<open>strings.Split(s, sep)\<close> for a separator of one byte: the pieces between separators,
  never an empty list.\<close>

fun Split :: "string \<Rightarrow> char \<Rightarrow> string list" where
  "Split [] sep = [[]]"
| "Split (c # cs) sep =
     (if c = sep then [] # Split cs sep
      else (case Split cs sep of [] \<Rightarrow> [[c]] | p # ps \<Rightarrow> (c # p) # ps))"

fun Join :: "string list \<Rightarrow> string \<Rightarrow> string" where
  "Join [] sep = []"
| "Join [p] sep = p"
| "Join (p # q # ps) sep = p @ sep @ Join (q # ps) sep"

lemma Split_nonempty [simp]: "Split s sep \<noteq> []"
  by (induction s) (auto split: list.splits)

lemma Join_Split [simp]: "Join (Split s sep) [sep] = s"
proof (induction s)
  case Nil
  then show ?case by simp
next
  case (Cons c cs)
  then show ?case
    by (cases "Split cs sep"; cases "tl (Split cs sep)") auto
qed

lemma Split_no_sep: "sep \<notin> set s \<Longrightarrow> Split s sep = [s]"
  by (induction s) auto

lemma Split_append_sep: "sep \<notin> set p \<Longrightarrow> Split (p @ sep # rest) sep = p # Split rest sep"
  by (induction p) auto

lemma Join_Cons_nonempty: "ps \<noteq> [] \<Longrightarrow> Join (p # ps) sep = p @ sep @ Join ps sep"
  by (cases ps) auto

lemma Split_Join:
  "ps \<noteq> [] \<Longrightarrow> \<forall>p \<in> set ps. sep \<notin> set p \<Longrightarrow> Split (Join ps [sep]) sep = ps"
proof (induction ps)
  case (Cons p ps)
  then show ?case
    by (cases "ps = []") (auto simp: Join_Cons_nonempty Split_append_sep Split_no_sep)
qed simp

lemma Split_pieces: "p \<in> set (Split s sep) \<Longrightarrow> sep \<notin> set p"
  by (induction s arbitrary: p) (auto split: if_splits list.splits)

lemma Join_append:
  "ps \<noteq> [] \<Longrightarrow> qs \<noteq> [] \<Longrightarrow> Join (ps @ qs) sep = Join ps sep @ sep @ Join qs sep"
proof (induction ps)
  case (Cons p ps)
  then show ?case
    by (cases "ps = []") (simp_all add: Join_Cons_nonempty)
qed simp

section \<open>IndexByte and HasPrefix\<close>

text \<open>\<^verbatim>\<open>bytes.IndexByte(b, c)\<close>: the first position of \<^verbatim>\<open>c\<close>; \<^verbatim>\<open>None\<close> is Go's -1.\<close>

fun IndexByte :: "char list \<Rightarrow> char \<Rightarrow> nat option" where
  "IndexByte [] c = None"
| "IndexByte (b # bs) c = (if b = c then Some 0 else map_option Suc (IndexByte bs c))"

lemma IndexByte_None: "IndexByte bs c = None \<longleftrightarrow> c \<notin> set bs"
  by (induction bs) auto

lemma IndexByte_Some:
  "IndexByte bs c = Some i \<Longrightarrow> i < length bs \<and> bs ! i = c \<and> c \<notin> set (take i bs)"
  by (induction bs arbitrary: i) (auto split: if_splits)

lemma IndexByte_delete:
  "IndexByte bs c = Some i \<Longrightarrow> take i bs @ drop (Suc i) bs = remove1 c bs"
  by (induction bs arbitrary: i) (auto split: if_splits)

definition HasPrefix :: "string \<Rightarrow> string \<Rightarrow> bool" where
  "HasPrefix s p = (take (length p) s = p)"

lemma HasPrefix_prefix: "HasPrefix s p \<longleftrightarrow> prefix p s"
  by (auto simp: HasPrefix_def take_is_prefix prefix_def) (metis append_take_drop_id)

section \<open>Printed numbers\<close>

text \<open>Digits of a natural number in a base up to 16, most significant first.\<close>

definition hexdigits :: string where
  "hexdigits = ''0123456789abcdef''"

definition digit :: "nat \<Rightarrow> char" where
  "digit d = hexdigits ! d"

definition digit_value :: "char \<Rightarrow> nat option" where
  "digit_value c = IndexByte hexdigits c"

function digits_base :: "nat \<Rightarrow> nat \<Rightarrow> string" where
  "digits_base b n =
     (if b < 2 \<or> n < b then [digit n] else digits_base b (n div b) @ [digit (n mod b)])"
  by pat_completeness auto
termination
  by (relation "measure (\<lambda>(b, n). n)") auto

declare digits_base.simps [simp del]

text \<open>\<^verbatim>\<open>%d\<close> and \<^verbatim>\<open>%x\<close> of a Go integer: a minus sign and the digits of the magnitude.\<close>

definition fmt_d :: "int \<Rightarrow> string" where
  "fmt_d n = (if n < 0 then CHR ''-'' # digits_base 10 (nat (- n)) else digits_base 10 (nat n))"

definition fmt_x :: "int \<Rightarrow> string" where
  "fmt_x n = (if n < 0 then CHR ''-'' # digits_base 16 (nat (- n)) else digits_base 16 (nat n))"

text \<open>Reading back the digits of base \<open>b\<close>, with the value read so far as accumulator.\<close>

fun read_digits :: "nat \<Rightarrow> nat \<Rightarrow> string \<Rightarrow> nat option" where
  "read_digits b acc [] = Some acc"
| "read_digits b acc (c # cs) =
     (case digit_value c of
        Some d \<Rightarrow> if d < b then read_digits b (acc * b + d) cs else None
      | None \<Rightarrow> None)"

lemma IndexByte_nth: "distinct bs \<Longrightarrow> i < length bs \<Longrightarrow> IndexByte bs (bs ! i) = Some i"
  by (induction bs arbitrary: i) (auto simp: nth_Cons' split: if_splits)

lemma length_hexdigits [simp]: "length hexdigits = 16"
  by (simp add: hexdigits_def)

lemma digit_value_digit: "d < 16 \<Longrightarrow> digit_value (digit d) = Some d"
proof -
  have "distinct hexdigits" by (simp add: hexdigits_def)
  then show "d < 16 \<Longrightarrow> ?thesis"
    by (simp add: digit_def digit_value_def IndexByte_nth)
qed

lemma digit_hex: "d < 16 \<Longrightarrow> digit d \<in> set hexdigits"
  by (simp add: digit_def)

lemma digit_dec: "d < 10 \<Longrightarrow> digit d \<in> set (take 10 hexdigits)"
  by (auto simp: digit_def in_set_conv_nth intro!: exI [of _ d])

lemma read_digits_append:
  "read_digits b acc (xs @ ys) =
     (case read_digits b acc xs of None \<Rightarrow> None | Some m \<Rightarrow> read_digits b m ys)"
  by (induction xs arbitrary: acc) (auto split: option.splits)

lemma read_digits_base:
  "2 \<le> b \<Longrightarrow> b \<le> 16 \<Longrightarrow> read_digits b 0 (digits_base b n) = Some n"
proof (induction b n rule: digits_base.induct)
  case (1 b n)
  show ?case
  proof (cases "n < b")
    case True
    with "1.prems" show ?thesis
      by (simp add: digits_base.simps [of b n] digit_value_digit)
  next
    case False
    with "1.IH" "1.prems" have "read_digits b 0 (digits_base b (n div b)) = Some (n div b)"
      by simp
    moreover have "n mod b < b" "n mod b < 16"
      using "1.prems" by (auto intro: less_le_trans [of _ b])
    ultimately show ?thesis
      using False "1.prems"
      by (simp add: digits_base.simps [of b n] read_digits_append digit_value_digit
          div_mult_mod_eq)
  qed
qed

lemma digits_base_chars:
  "2 \<le> b \<Longrightarrow> b \<le> 16 \<Longrightarrow> set (digits_base b n) \<subseteq> set hexdigits"
proof (induction b n rule: digits_base.induct)
  case (1 b n)
  then have "n mod b < 16" by (auto intro: less_le_trans [of _ b])
  with "1" show ?case
    by (cases "n < b") (auto simp: digits_base.simps [of b n] digit_hex)
qed

lemma digits_base_10_chars: "set (digits_base 10 n) \<subseteq> set (take 10 hexdigits)"
proof (induction "10::nat" n rule: digits_base.induct)
  case (1 n)
  then show ?case
    by (cases "n < 10") (auto simp: digits_base.simps [of 10 n] digit_dec)
qed

lemma digits_base_nonempty [simp]: "digits_base b n \<noteq> []"
  by (subst digits_base.simps) simp

lemma digits_base_inj: "2 \<le> b \<Longrightarrow> b \<le> 16 \<Longrightarrow> digits_base b m = digits_base b n \<Longrightarrow> m = n"
  by (metis read_digits_base option.inject)

lemma minus_not_digit: "2 \<le> b \<Longrightarrow> b \<le> 16 \<Longrightarrow> CHR ''-'' \<notin> set (digits_base b n)"
  using digits_base_chars [of b n] by (auto simp: hexdigits_def)

lemma slash_not_digit: "2 \<le> b \<Longrightarrow> b \<le> 16 \<Longrightarrow> CHR ''/'' \<notin> set (digits_base b n)"
  using digits_base_chars [of b n] by (auto simp: hexdigits_def)

lemma fmt_x_inj: "fmt_x m = fmt_x n \<Longrightarrow> m = n"
  using minus_not_digit [of 16 "nat m"] minus_not_digit [of 16 "nat n"]
  by (auto simp: fmt_x_def split: if_splits dest!: digits_base_inj [rotated 2])
     (metis list.set_intros(1))+

lemma fmt_x_no_slash: "CHR ''/'' \<notin> set (fmt_x n)"
  by (simp add: fmt_x_def slash_not_digit)

lemma fmt_d_no_slash: "CHR ''/'' \<notin> set (fmt_d n)"
  by (simp add: fmt_d_def slash_not_digit)

text \<open>\<^verbatim>\<open>Sscanf(s, "%d", &n)\<close> into a 64-bit \<^verbatim>\<open>int\<close>: leading spaces are skipped, then an
  optional sign and the longest run of decimal digits; \<^verbatim>\<open>None\<close> when there is no digit or the
  value does not fit.\<close>

definition is_dec :: "char \<Rightarrow> bool" where
  "is_dec c = (c \<in> set (take 10 hexdigits))"

definition scan_nat :: "string \<Rightarrow> nat option" where
  "scan_nat s = (let ds = takeWhile is_dec s in if ds = [] then None else read_digits 10 0 ds)"

definition int64_fits :: "int \<Rightarrow> bool" where
  "int64_fits n = (- (2 ^ 63) \<le> n \<and> n < 2 ^ 63)"

definition Sscanf_d :: "string \<Rightarrow> int option" where
  "Sscanf_d s =
     (let r = (case dropWhile (\<lambda>c. c = CHR '' '') s of
                 [] \<Rightarrow> None
               | c # cs \<Rightarrow>
                   if c = CHR ''-'' then map_option (\<lambda>n. - int n) (scan_nat cs)
                   else if c = CHR ''+'' then map_option int (scan_nat cs)
                   else map_option int (scan_nat (c # cs)))
      in case r of None \<Rightarrow> None | Some n \<Rightarrow> if int64_fits n then Some n else None)"

lemma takeWhile_is_dec_digits: "takeWhile is_dec (digits_base 10 n) = digits_base 10 n"
  using digits_base_10_chars [of n] by (auto simp: is_dec_def takeWhile_eq_all_conv)

lemma scan_nat_digits: "scan_nat (digits_base 10 n) = Some n"
  by (simp add: scan_nat_def takeWhile_is_dec_digits read_digits_base)

lemma Sscanf_fmt_d: "n < 2 ^ 63 \<Longrightarrow> Sscanf_d (fmt_d (int n)) = Some (int n)"
proof -
  assume n: "n < 2 ^ 63"
  obtain c cs where ds: "digits_base 10 n = c # cs"
    by (cases "digits_base 10 n") auto
  then have "c \<in> set (take 10 hexdigits)"
    using digits_base_10_chars [of n] by auto
  then have "c \<noteq> CHR '' ''" "c \<noteq> CHR ''-''" "c \<noteq> CHR ''+''"
    by (auto simp: hexdigits_def)
  moreover have "int64_fits (int n)"
    using n by (simp add: int64_fits_def)
  ultimately show ?thesis
    using scan_nat_digits [of n] ds by (simp add: Sscanf_d_def fmt_d_def)
qed

end
