(* ===== verification/Irc_Keys.thy ===== *)
theory Irc_Keys
  imports Go_Strings
begin

text \<open>
  \<^verbatim>\<open>key.go\<close>: the names of the etcd keys, and the key encoder that encrypts the sensitive
  segment of a key, over any inner \<^verbatim>\<open>keyencode.KeyEncoder\<close>.  Main results: the key names
  never collide, an encoded key decodes to itself, and a prefix query on encoded keys
  selects exactly the encodings of the keys with that prefix.
\<close>

section \<open>Key names\<close>

definition keyUserCtl :: "string \<Rightarrow> string" where
  "keyUserCtl n = ''/user/ctl/'' @ n"

definition keyUserMsg :: "string \<Rightarrow> string" where
  "keyUserMsg n = ''/user/msg/'' @ n"

definition keyChanCtl :: "string \<Rightarrow> string" where
  "keyChanCtl ch = ''/chan/ctl/'' @ ch"

definition keyChanMsg :: "string \<Rightarrow> string" where
  "keyChanMsg ch = ''/chan/msg/'' @ ch"

definition keyChanNicksPfx :: "string \<Rightarrow> string" where
  "keyChanNicksPfx ch = ''/chan/nicks/'' @ ch @ ''/''"

definition keyChanNicks :: "string \<Rightarrow> int \<Rightarrow> string" where
  "keyChanNicks ch i = ''/chan/nicks/'' @ ch @ ''/'' @ fmt_x i"

definition keyOperCtl :: "string \<Rightarrow> string" where
  "keyOperCtl n = ''/oper/ctl/'' @ n"

fun isChan :: "string \<Rightarrow> bool" where
  "isChan [] = False"
| "isChan (c # _) = (c = CHR ''#'')"

lemmas key_defs = keyUserCtl_def keyUserMsg_def keyChanCtl_def keyChanMsg_def keyChanNicks_def
  keyOperCtl_def

lemma split_last_slash:
  "xs @ CHR ''/'' # ys = xs' @ CHR ''/'' # ys' \<Longrightarrow> CHR ''/'' \<notin> set ys \<Longrightarrow> CHR ''/'' \<notin> set ys' \<Longrightarrow>
   xs = xs' \<and> ys = ys'"
proof -
  assume eq: "xs @ CHR ''/'' # ys = xs' @ CHR ''/'' # ys'"
    and ys: "CHR ''/'' \<notin> set ys" "CHR ''/'' \<notin> set ys'"
  have "rev ys @ CHR ''/'' # rev xs = rev ys' @ CHR ''/'' # rev xs'"
    using arg_cong [OF eq, of rev] by simp
  moreover have "takeWhile (\<lambda>c. c \<noteq> CHR ''/'') (rev zs @ CHR ''/'' # ws) = rev zs"
    if "CHR ''/'' \<notin> set zs" for zs ws
    using that by (subst takeWhile_append2) auto
  ultimately have "rev ys = rev ys'" using ys by metis
  with eq show ?thesis by simp
qed

lemma keyUserCtl_inj [key_simps]: "keyUserCtl n = keyUserCtl n' \<longleftrightarrow> n = n'"
  and keyUserMsg_inj [key_simps]: "keyUserMsg n = keyUserMsg n' \<longleftrightarrow> n = n'"
  and keyChanCtl_inj [key_simps]: "keyChanCtl n = keyChanCtl n' \<longleftrightarrow> n = n'"
  and keyChanMsg_inj [key_simps]: "keyChanMsg n = keyChanMsg n' \<longleftrightarrow> n = n'"
  and keyOperCtl_inj [key_simps]: "keyOperCtl n = keyOperCtl n' \<longleftrightarrow> n = n'"
  by (simp_all add: key_defs)

lemma keyChanNicks_inj [key_simps]:
  "keyChanNicks ch i = keyChanNicks ch' i' \<longleftrightarrow> ch = ch' \<and> i = i'"
  using split_last_slash [of ch "fmt_x i" ch' "fmt_x i'"]
  by (auto simp: keyChanNicks_def fmt_x_no_slash dest: fmt_x_inj)

lemma key_families [key_simps]:
  "keyUserCtl a \<noteq> keyUserMsg b" "keyUserCtl a \<noteq> keyChanCtl b" "keyUserCtl a \<noteq> keyChanMsg b"
  "keyUserCtl a \<noteq> keyChanNicks b i" "keyUserCtl a \<noteq> keyOperCtl b"
  "keyUserMsg a \<noteq> keyChanCtl b" "keyUserMsg a \<noteq> keyChanMsg b"
  "keyUserMsg a \<noteq> keyChanNicks b i" "keyUserMsg a \<noteq> keyOperCtl b"
  "keyChanCtl a \<noteq> keyChanMsg b" "keyChanCtl a \<noteq> keyChanNicks b i" "keyChanCtl a \<noteq> keyOperCtl b"
  "keyChanMsg a \<noteq> keyChanNicks b i" "keyChanMsg a \<noteq> keyOperCtl b"
  "keyChanNicks a i \<noteq> keyOperCtl b"
  by (simp_all add: key_defs)

lemmas key_families_sym [key_simps] = key_families [symmetric]

lemma key_nonempty [key_simps]:
  "keyUserCtl a \<noteq> []" "keyUserMsg a \<noteq> []" "keyChanCtl a \<noteq> []" "keyChanMsg a \<noteq> []"
  "keyChanNicks a i \<noteq> []" "keyOperCtl a \<noteq> []"
  by (simp_all add: key_defs)

section \<open>Key encoders\<close>

text \<open>The interface \<^verbatim>\<open>keyencode.KeyEncoder\<close>; both methods of an implementation can panic.\<close>

record KeyEncoder =
  ke_Encode :: "string \<Rightarrow> string outcome"
  ke_Decode :: "string \<Rightarrow> (error + string) outcome"

text \<open>\<^verbatim>\<open>s[a:b]\<close> of a Go string: out of range is a panic.\<close>

definition go_slice :: "string \<Rightarrow> int \<Rightarrow> int \<Rightarrow> string outcome" where
  "go_slice s a b =
     (if 0 \<le> a \<and> a \<le> b \<and> b \<le> int (length s) then Ok (take (nat (b - a)) (drop (nat a) s))
      else Panic ''slice bounds out of range'')"

definition splitKey :: "string \<Rightarrow> string list outcome" where
  "splitKey s =
     (let ss = Split s (CHR ''/'') in
      if length ss \<le> 3 then Panic s
      else if ss ! 1 = ''user'' then
        (if ss ! 2 = ''msg'' then Ok ss else if ss ! 2 = ''ctl'' then Ok ss else Panic s)
      else if ss ! 1 = ''chan'' then
        (if ss ! 2 = ''msg'' then Ok ss else if ss ! 2 = ''ctl'' then Ok ss
         else if ss ! 2 = ''nicks'' then Ok ss else Panic s)
      else if ss ! 1 = ''oper'' then Ok ss
      else Panic s)"

definition keyEncoder_Encode :: "KeyEncoder \<Rightarrow> string \<Rightarrow> string outcome" where
  "keyEncoder_Encode ke s =
     bind_outcome (splitKey s) (\<lambda>ss.
       if length (ss ! 3) = 0 then Ok s
       else bind_outcome (ke_Encode ke (Join (take 4 ss) ''/'')) (\<lambda>sse.
         Ok (Join (ss[3 := fmt_d (int (length sse)) @ ''/'' @ sse]) ''/'')))"

definition keyEncoder_Decode :: "KeyEncoder \<Rightarrow> string \<Rightarrow> (error + string) outcome" where
  "keyEncoder_Decode ke s =
     bind_outcome (splitKey s) (\<lambda>ss.
       case Sscanf_d (ss ! 3) of
         None \<Rightarrow> Panic ''expected integer''
       | Some enclen \<Rightarrow>
           let pfxlen = int (length (Join (take 4 ss) ''/'')) in
           bind_outcome (go_slice s (pfxlen + 1) (pfxlen + enclen + 1)) (\<lambda>seg.
           bind_outcome (ke_Decode ke seg) (\<lambda>r.
             case r of
               Inl err \<Rightarrow> Ok (Inl err)
             | Inr d \<Rightarrow>
                 let ds = Split d (CHR ''/'') in
                 if length ds \<le> 3 then Panic ''index out of range''
                 else bind_outcome (go_slice s (pfxlen + enclen + 1) (int (length s))) (\<lambda>rest.
                   Ok (Inr (''/'' @ ss ! 1 @ ''/'' @ ss ! 2 @ ''/'' @ ds ! 3 @ rest))))))"

definition keyEncoder :: "KeyEncoder \<Rightarrow> KeyEncoder" where
  "keyEncoder ke = \<lparr> ke_Encode = keyEncoder_Encode ke, ke_Decode = keyEncoder_Decode ke \<rparr>"

text \<open>The null encoder of \<^verbatim>\<open>keyencode/encode.go\<close>.\<close>

definition nopKeyEncoder :: KeyEncoder where
  "nopKeyEncoder = \<lparr> ke_Encode = (\<lambda>s. Ok s), ke_Decode = (\<lambda>s. Ok (Inr s)) \<rparr>"

section \<open>The encoder contract\<close>

text \<open>
  What a key encoder promises on the keys it is meant for: it encodes each of them, decoding
  gives the key back, and the length of an encoded key is a Go \<^verbatim>\<open>int\<close>.
\<close>

locale key_encoder =
  fixes ke :: KeyEncoder
    and valid :: "string \<Rightarrow> bool"
  assumes encodes: "valid s \<Longrightarrow> \<exists>e. ke_Encode ke s = Ok e \<and> ke_Decode ke e = Ok (Inr s)"
    and small: "valid s \<Longrightarrow> ke_Encode ke s = Ok e \<Longrightarrow> length e < 2 ^ 63"
begin

lemma decode_encode: "valid s \<Longrightarrow> ke_Encode ke s = Ok e \<Longrightarrow> ke_Decode ke e = Ok (Inr s)"
  using encodes [of s] by auto

lemma encode_inject:
  assumes "valid s" "valid s'" "ke_Encode ke s = Ok e" "ke_Encode ke s' = Ok e"
  shows "s = s'"
  using decode_encode [OF assms(1,3)] decode_encode [OF assms(2,4)] by simp

end

interpretation nop_encoder: key_encoder nopKeyEncoder "\<lambda>s. length s < 2 ^ 63"
  by unfold_locales (auto simp: nopKeyEncoder_def)

subsection \<open>The shape of an encoded key\<close>

text \<open>A key of the network: a type, a subtype, a data segment without slash, and a rest that
  is empty or starts with a slash.\<close>

definition key_head :: "string \<Rightarrow> string \<Rightarrow> bool" where
  "key_head t st \<longleftrightarrow>
     (t = ''user'' \<and> st \<in> {''msg'', ''ctl''}) \<or>
     (t = ''chan'' \<and> st \<in> {''msg'', ''ctl'', ''nicks''}) \<or>
     (t = ''oper'' \<and> CHR ''/'' \<notin> set st)"

definition mk_key :: "string \<Rightarrow> string \<Rightarrow> string \<Rightarrow> string \<Rightarrow> string" where
  "mk_key t st d rest = ''/'' @ t @ ''/'' @ st @ ''/'' @ d @ rest"

definition rest_ok :: "string \<Rightarrow> bool" where
  "rest_ok rest \<longleftrightarrow> rest = [] \<or> hd rest = CHR ''/''"

definition plain_key :: "string \<Rightarrow> bool" where
  "plain_key s \<longleftrightarrow> (\<exists>t st d rest. key_head t st \<and> CHR ''/'' \<notin> set d \<and> d \<noteq> [] \<and> rest_ok rest
     \<and> s = mk_key t st d rest)"

lemma key_head_no_slash: "key_head t st \<Longrightarrow> CHR ''/'' \<notin> set t \<and> CHR ''/'' \<notin> set st"
  by (auto simp: key_head_def)

lemma Split_mk_key:
  assumes "key_head t st" "CHR ''/'' \<notin> set d" "rest_ok rest"
  shows "Split (mk_key t st d rest) (CHR ''/'')
    = [[], t, st, d] @ (if rest = [] then [] else Split (tl rest) (CHR ''/''))"
proof -
  have d: "Split (d @ rest) (CHR ''/'') = d # (if rest = [] then [] else Split (tl rest) (CHR ''/''))"
    using assms(2,3) by (cases rest) (auto simp: rest_ok_def Split_no_sep Split_append_sep)
  show ?thesis
    using key_head_no_slash [OF assms(1)] d by (simp add: mk_key_def Split_append_sep)
qed

lemma splitKey_mk_key:
  assumes "key_head t st" "CHR ''/'' \<notin> set d" "rest_ok rest"
  shows "splitKey (mk_key t st d rest)
    = Ok ([[], t, st, d] @ (if rest = [] then [] else Split (tl rest) (CHR ''/'')))"
  using assms(1) by (auto simp: splitKey_def Split_mk_key [OF assms] Let_def key_head_def)

lemma Join_four: "Join [[], t, st, d] ''/'' = mk_key t st d []"
  by (simp add: mk_key_def)

lemma Join_four_rest:
  "rest_ok rest \<Longrightarrow>
   Join ([[], t, st, d] @ (if rest = [] then [] else Split (tl rest) (CHR ''/''))) ''/''
     = mk_key t st d rest"
  by (cases rest) (auto simp: rest_ok_def Join_Cons_nonempty mk_key_def)

lemma keyEncoder_Encode_mk_key:
  assumes "key_head t st" "CHR ''/'' \<notin> set d" "rest_ok rest" "d \<noteq> []"
    and "ke_Encode ke (mk_key t st d []) = Ok sse"
  shows "keyEncoder_Encode ke (mk_key t st d rest)
    = Ok (mk_key t st (fmt_d (int (length sse)) @ ''/'' @ sse) rest)"
  using assms(4,5) Join_four_rest [OF assms(3), of t st "fmt_d (int (length sse)) @ ''/'' @ sse"]
  by (simp add: keyEncoder_Encode_def splitKey_mk_key [OF assms(1-3)] Join_four numeral_3_eq_3
      numeral_eq_Suc del: Join.simps)

lemma keyEncoder_Encode_no_data:
  assumes "key_head t st" "rest_ok rest"
  shows "keyEncoder_Encode ke (mk_key t st [] rest) = Ok (mk_key t st [] rest)"
  using splitKey_mk_key [OF assms(1) _ assms(2), of "[]"]
  by (simp add: keyEncoder_Encode_def numeral_3_eq_3)

lemma go_slice_append: "go_slice (xs @ ys @ zs) (int (length xs)) (int (length xs + length ys)) = Ok ys"
  by (simp add: go_slice_def)

lemma keyEncoder_Decode_mk_key:
  assumes "key_head t st" "rest_ok rest" "length sse < 2 ^ 63"
    and "ke_Decode ke sse = Ok (Inr (mk_key t st d []))" "CHR ''/'' \<notin> set d"
  shows "keyEncoder_Decode ke (mk_key t st (fmt_d (int (length sse)) @ ''/'' @ sse) rest)
    = Ok (Inr (mk_key t st d rest))"
proof -
  let ?n = "fmt_d (int (length sse))"
  let ?s = "mk_key t st (?n @ ''/'' @ sse) rest"
  have s: "?s = mk_key t st ?n (''/'' @ sse @ rest)" by (simp add: mk_key_def)
  obtain ss where ss: "splitKey ?s = Ok ss" "ss ! 1 = t" "ss ! 2 = st" "ss ! 3 = ?n"
    "Join (take 4 ss) ''/'' = mk_key t st ?n []"
    unfolding s using splitKey_mk_key [OF assms(1) fmt_d_no_slash, of "''/'' @ sse @ rest"]
    by (simp add: rest_ok_def Join_four numeral_3_eq_3 numeral_2_eq_2 numeral_eq_Suc del: Join.simps)
  have seg: "go_slice ?s (int (length (mk_key t st ?n [])) + 1)
      (int (length (mk_key t st ?n [])) + int (length sse) + 1) = Ok sse"
    using go_slice_append [of "mk_key t st ?n ''/''" sse rest] by (simp add: mk_key_def algebra_simps)
  have rest: "go_slice ?s (int (length (mk_key t st ?n [])) + int (length sse) + 1)
      (int (length ?s)) = Ok rest"
    using go_slice_append [of "mk_key t st ?n (''/'' @ sse)" rest "[]"]
    by (simp add: mk_key_def algebra_simps)
  have data: "Split (mk_key t st d []) (CHR ''/'') = [[], t, st, d]"
    using Split_mk_key [OF assms(1,5), of "[]"] by (simp add: rest_ok_def)
  have "keyEncoder_Decode ke ?s = Ok (Inr (''/'' @ t @ ''/'' @ st @ ''/'' @ d @ rest))"
    unfolding keyEncoder_Decode_def
    by (simp only: ss seg rest data assms(3,4) bind_outcome.simps Sscanf_fmt_d Let_def
        option.case sum.case) simp
  then show ?thesis by (simp add: mk_key_def)
qed


subsection \<open>Keys of the network, encoded\<close>

text \<open>The keys \<^verbatim>\<open>keyEncoder\<close> is meant for, over an inner encoder: a data segment that is not
  empty, an inner key the inner encoder is meant for, and a result of representable length.\<close>

definition netkey :: "(string \<Rightarrow> bool) \<Rightarrow> KeyEncoder \<Rightarrow> string \<Rightarrow> bool" where
  "netkey valid ke s \<longleftrightarrow> (\<exists>t st d rest. key_head t st \<and> CHR ''/'' \<notin> set d \<and> d \<noteq> [] \<and> rest_ok rest
     \<and> s = mk_key t st d rest \<and> valid (mk_key t st d [])
     \<and> (\<forall>e. keyEncoder_Encode ke s = Ok e \<longrightarrow> length e < 2 ^ 63))"

lemma prefix_segment:
  assumes "CHR ''/'' \<notin> set a" "CHR ''/'' \<notin> set b"
  shows "prefix (a @ CHR ''/'' # x) (b @ CHR ''/'' # y) \<longleftrightarrow> a = b \<and> prefix x y"
  using assms
proof (induction a arbitrary: b)
  case Nil
  then show ?case by (cases b) auto
next
  case (Cons c a)
  then show ?case by (cases b) auto
qed

lemma prefix_mk_key:
  assumes "key_head t st" "key_head t' st'"
  shows "prefix (mk_key t st x y) (mk_key t' st' x' y') \<longleftrightarrow> t = t' \<and> st = st' \<and> prefix (x @ y) (x' @ y')"
  using prefix_segment [of t t' "st @ ''/'' @ x @ y" "st' @ ''/'' @ x' @ y'"]
    prefix_segment [of st st' "x @ y" "x' @ y'"]
    key_head_no_slash [OF assms(1)] key_head_no_slash [OF assms(2)]
  by (simp add: mk_key_def)

lemma mk_key_inject:
  assumes "key_head t st" "key_head t' st'" "mk_key t st d [] = mk_key t' st' d' []"
  shows "t = t' \<and> st = st' \<and> d = d'"
  using prefix_mk_key [OF assms(1,2), of d "[]" d' "[]"] assms(3)
  by (simp add: mk_key_def)

lemma fmt_d_nat_inj: "m < 2 ^ 63 \<Longrightarrow> n < 2 ^ 63 \<Longrightarrow> fmt_d (int m) = fmt_d (int n) \<Longrightarrow> m = n"
  by (metis Sscanf_fmt_d nat_int option.inject)

lemma prefix_encoded:
  assumes "key_head t st" "key_head t' st'" "length sse < 2 ^ 63" "length sse' < 2 ^ 63"
  shows "prefix (mk_key t st (fmt_d (int (length sse)) @ ''/'' @ sse) rest) (mk_key t' st' (fmt_d (int (length sse')) @ ''/'' @ sse') rest') \<longleftrightarrow>
    t = t' \<and> st = st' \<and> sse = sse' \<and> prefix rest rest'"
proof -
  let ?n = "fmt_d (int (length sse))" and ?n' = "fmt_d (int (length sse'))"
  have "prefix (mk_key t st (?n @ ''/'' @ sse) rest) (mk_key t' st' (?n' @ ''/'' @ sse') rest') \<longleftrightarrow>
      t = t' \<and> st = st' \<and> prefix (?n @ CHR ''/'' # sse @ rest) (?n' @ CHR ''/'' # sse' @ rest')"
    unfolding prefix_mk_key [OF assms(1,2)] by simp
  also have "\<dots> \<longleftrightarrow> t = t' \<and> st = st' \<and> length sse = length sse' \<and> prefix (sse @ rest) (sse' @ rest')"
    unfolding prefix_segment [OF fmt_d_no_slash fmt_d_no_slash] using fmt_d_nat_inj [OF assms(3,4)] by auto
  also have "\<dots> \<longleftrightarrow> t = t' \<and> st = st' \<and> sse = sse' \<and> prefix rest rest'" by (auto simp: prefix_def)
  finally show ?thesis .
qed

lemma prefix_plain:
  assumes "key_head t st" "key_head t' st'" "CHR ''/'' \<notin> set d" "CHR ''/'' \<notin> set d'" "d \<noteq> []" "rest_ok rest" "rest_ok rest'"
    and slash: "last (mk_key t st d rest) = CHR ''/''"
  shows "prefix (mk_key t st d rest) (mk_key t' st' d' rest') \<longleftrightarrow> t = t' \<and> st = st' \<and> d = d' \<and> prefix rest rest'"
proof -
  have "last d \<noteq> CHR ''/''" using assms(3,5) last_in_set by metis
  then have "rest \<noteq> []" using slash assms(5) by (auto simp: mk_key_def)
  then obtain r where r: "rest = CHR ''/'' # r" using assms(6) by (cases rest) (auto simp: rest_ok_def)
  have "prefix (d @ rest) (d' @ rest') \<longleftrightarrow> d = d' \<and> prefix rest rest'"
    using assms(7,3,4) r prefix_segment [OF assms(3,4), of r "tl rest'"] by (cases rest') (auto simp: rest_ok_def prefix_def)
  then show ?thesis by (simp add: prefix_mk_key [OF assms(1,2)])
qed

context key_encoder
begin

lemma netkey_encode:
  assumes "netkey valid ke s"
  obtains t st d rest sse where "key_head t st" "CHR ''/'' \<notin> set d" "d \<noteq> []" "rest_ok rest"
    "s = mk_key t st d rest" "valid (mk_key t st d [])"
    "ke_Encode ke (mk_key t st d []) = Ok sse" "length sse < 2 ^ 63"
    "keyEncoder_Encode ke s = Ok (mk_key t st (fmt_d (int (length sse)) @ ''/'' @ sse) rest)"
proof -
  from assms obtain t st d rest where s: "key_head t st" "CHR ''/'' \<notin> set d" "d \<noteq> []" "rest_ok rest"
    "s = mk_key t st d rest" "valid (mk_key t st d [])" by (auto simp: netkey_def)
  from encodes [OF s(6)] obtain sse where sse: "ke_Encode ke (mk_key t st d []) = Ok sse" by blast
  show thesis
    using that [OF s sse small [OF s(6) sse]] keyEncoder_Encode_mk_key [OF s(1,2,4,3) sse] s(5) by simp
qed

lemma keyEncoder_contract: "key_encoder (keyEncoder ke) (netkey valid ke)"
proof
  fix s assume "netkey valid ke s"
  then obtain t st d rest sse where k: "key_head t st" "CHR ''/'' \<notin> set d" "rest_ok rest"
    "s = mk_key t st d rest" "valid (mk_key t st d [])"
    "ke_Encode ke (mk_key t st d []) = Ok sse" "length sse < 2 ^ 63"
    "keyEncoder_Encode ke s = Ok (mk_key t st (fmt_d (int (length sse)) @ ''/'' @ sse) rest)"
    by (rule netkey_encode)
  have "keyEncoder_Decode ke (mk_key t st (fmt_d (int (length sse)) @ ''/'' @ sse) rest) = Ok (Inr s)"
    using keyEncoder_Decode_mk_key [OF k(1,3,7) decode_encode [OF k(5,6)] k(2)] k(4) by simp
  with k(8) show "\<exists>e. ke_Encode (keyEncoder ke) s = Ok e \<and> ke_Decode (keyEncoder ke) e = Ok (Inr s)"
    by (simp add: keyEncoder_def)
next
  fix s e assume "netkey valid ke s" "ke_Encode (keyEncoder ke) s = Ok e"
  then show "length e < 2 ^ 63" by (auto simp: netkey_def keyEncoder_def)
qed

lemma encoded_prefix:
  assumes p: "netkey valid ke p" and slash: "\<exists>q. p = q @ ''/''" and k: "netkey valid ke k"
    and ep: "keyEncoder_Encode ke p = Ok ep" and ek: "keyEncoder_Encode ke k = Ok ek"
  shows "prefix ep ek \<longleftrightarrow> prefix p k"
proof -
  from p obtain t st d rest sse where P: "key_head t st" "CHR ''/'' \<notin> set d" "d \<noteq> []" "rest_ok rest"
    "p = mk_key t st d rest" "valid (mk_key t st d [])"
    "ke_Encode ke (mk_key t st d []) = Ok sse" "length sse < 2 ^ 63"
    "keyEncoder_Encode ke p = Ok (mk_key t st (fmt_d (int (length sse)) @ ''/'' @ sse) rest)"
    by (rule netkey_encode)
  from k obtain t' st' d' rest' sse' where K: "key_head t' st'" "CHR ''/'' \<notin> set d'" "d' \<noteq> []"
    "rest_ok rest'" "k = mk_key t' st' d' rest'" "valid (mk_key t' st' d' [])"
    "ke_Encode ke (mk_key t' st' d' []) = Ok sse'" "length sse' < 2 ^ 63"
    "keyEncoder_Encode ke k = Ok (mk_key t' st' (fmt_d (int (length sse')) @ ''/'' @ sse') rest')"
    by (rule netkey_encode)
  have same: "sse = sse' \<longleftrightarrow> d = d'" if "t = t'" "st = st'"
    using that P(7) K(7) encode_inject [OF P(6) K(6) P(7)] mk_key_inject [OF P(1) K(1)] by auto
  have "prefix ep ek \<longleftrightarrow> t = t' \<and> st = st' \<and> sse = sse' \<and> prefix rest rest'"
    using ep ek P(9) K(9) prefix_encoded [OF P(1) K(1) P(8) K(8), of rest rest'] by auto
  moreover have "prefix p k \<longleftrightarrow> t = t' \<and> st = st' \<and> d = d' \<and> prefix rest rest'"
    using slash prefix_plain [OF P(1) K(1) P(2) K(2) P(3,4) K(4)] unfolding P(5) K(5) by force
  ultimately show ?thesis using same by auto
qed

end

interpretation plain_encoder: key_encoder "keyEncoder nopKeyEncoder"
    "netkey (\<lambda>s. length s < 2 ^ 63) nopKeyEncoder"
  by (rule nop_encoder.keyEncoder_contract)

end
