(* ===== verification/Irc_Modes.thy ===== *)
theory Irc_Modes
  imports Go_Strings
begin

text \<open>
  \<^verbatim>\<open>mode.go\<close>: user and channel modes.  A \<^verbatim>\<open>ModeValue\<close> is a Go byte slice, and \<^verbatim>\<open>update\<close> and
  \<^verbatim>\<open>updateSlice\<close> work on it in place, so the model has both levels: slices over a heap of
  backing arrays (\<open>sl_add\<close>, \<open>sl_del\<close>, \<open>sl_update\<close>, \<open>updateSlice\<close>) and the value a slice
  shows (\<open>mode_has\<close>, \<open>mode_add\<close>, \<open>mode_del\<close>, \<open>mode_update\<close>).  The refinement lemmas say that
  the slice code computes the value-level result; the report whether the mode changed is
  characterised separately, because it reads the old slice after its array was overwritten.
\<close>

section \<open>Modes as values\<close>

type_synonym modeSet = "char list"

record modePerms =
  all_modes :: modeSet
  add_modes :: modeSet
  del_modes :: modeSet

definition userModePerms :: modePerms where
  "userModePerms = \<lparr> all_modes = ''aioEO'', add_modes = ''iE'', del_modes = ''aioEO'' \<rparr>"

definition chanModes :: modeSet where
  "chanModes = ''mts''"

definition chanModePerms :: modePerms where
  "chanModePerms = \<lparr> all_modes = chanModes, add_modes = chanModes, del_modes = chanModes \<rparr>"

type_synonym ModeValue = "char list"

definition newModeValue :: "string \<Rightarrow> ModeValue" where
  "newModeValue modes = modes"

definition mode_has :: "ModeValue \<Rightarrow> char \<Rightarrow> bool" where
  "mode_has mv m = (IndexByte mv m \<noteq> None)"

definition mode_add :: "ModeValue \<Rightarrow> char \<Rightarrow> ModeValue" where
  "mode_add mv m = (if mode_has mv m then mv else mv @ [m])"

definition mode_del :: "ModeValue \<Rightarrow> char \<Rightarrow> ModeValue" where
  "mode_del mv m = (case IndexByte mv m of None \<Rightarrow> mv | Some idx \<Rightarrow> take idx mv @ drop (Suc idx) mv)"

fun mode_adds :: "ModeValue \<Rightarrow> char list \<Rightarrow> modeSet \<Rightarrow> ModeValue \<times> char list" where
  "mode_adds mv [] perms = (mv, [])"
| "mode_adds mv (m # ms) perms =
     (if m \<in> set perms then mode_adds (mode_add mv m) ms perms
      else apsnd ((#) m) (mode_adds mv ms perms))"

fun mode_dels :: "ModeValue \<Rightarrow> char list \<Rightarrow> modeSet \<Rightarrow> ModeValue \<times> char list" where
  "mode_dels mv [] perms = (mv, [])"
| "mode_dels mv (m # ms) perms =
     (if m \<in> set perms then mode_dels (mode_del mv m) ms perms
      else apsnd ((#) m) (mode_dels mv ms perms))"

fun mode_update :: "ModeValue \<Rightarrow> string \<Rightarrow> modePerms \<Rightarrow> ModeValue \<times> char list" where
  "mode_update mv [] mp = (mv, [])"
| "mode_update mv (c # ms) mp =
     (if c = CHR ''+'' then mode_adds mv ms (add_modes mp)
      else if c = CHR ''-'' then mode_dels mv ms (del_modes mp)
      else (mv, filter (\<lambda>m. m \<notin> set (all_modes mp)) (c # ms)))"

fun mode_updates :: "ModeValue \<Rightarrow> string list \<Rightarrow> modePerms \<Rightarrow> ModeValue \<times> char list" where
  "mode_updates mv [] mp = (mv, [])"
| "mode_updates mv (m # ms) mp =
     (let (mv', bad) = mode_update mv m mp in apsnd ((@) bad) (mode_updates mv' ms mp))"

subsection \<open>Membership after an update\<close>

lemma mode_has_iff [simp]: "mode_has mv m \<longleftrightarrow> m \<in> set mv"
  using IndexByte_None [of mv m] by (auto simp: mode_has_def)

lemma set_mode_add [simp]: "set (mode_add mv m) = insert m (set mv)"
  by (auto simp: mode_add_def)

lemma distinct_mode_add: "distinct mv \<Longrightarrow> distinct (mode_add mv m)"
  by (simp add: mode_add_def)

lemma mode_del_remove1: "mode_del mv m = remove1 m mv"
  by (auto simp: mode_del_def IndexByte_None IndexByte_delete remove1_idem split: option.splits)

lemma distinct_mode_del: "distinct mv \<Longrightarrow> distinct (mode_del mv m)"
  by (simp add: mode_del_remove1)

lemma set_mode_del: "distinct mv \<Longrightarrow> set (mode_del mv m) = set mv - {m}"
  by (simp add: mode_del_remove1)

lemma mode_adds_distinct: "distinct mv \<Longrightarrow> distinct (fst (mode_adds mv ms perms))"
  by (induction ms arbitrary: mv) (auto simp: distinct_mode_add)

lemma mode_adds_set: "set (fst (mode_adds mv ms perms)) = set mv \<union> (set ms \<inter> set perms)"
  by (induction ms arbitrary: mv) (auto)

lemma mode_adds_bad: "snd (mode_adds mv ms perms) = filter (\<lambda>m. m \<notin> set perms) ms"
  by (induction ms arbitrary: mv) (auto)

lemma mode_dels_distinct: "distinct mv \<Longrightarrow> distinct (fst (mode_dels mv ms perms))"
  by (induction ms arbitrary: mv) (auto simp: distinct_mode_del)

lemma mode_dels_set:
  "distinct mv \<Longrightarrow> set (fst (mode_dels mv ms perms)) = set mv - (set ms \<inter> set perms)"
  by (induction ms arbitrary: mv)
     (auto simp: distinct_mode_del set_mode_del)

lemma mode_dels_bad: "snd (mode_dels mv ms perms) = filter (\<lambda>m. m \<notin> set perms) ms"
  by (induction ms arbitrary: mv) (auto)

lemma mode_update_distinct: "distinct mv \<Longrightarrow> distinct (fst (mode_update mv s mp))"
  by (cases s) (auto simp: mode_adds_distinct mode_dels_distinct)

lemma mode_updates_distinct: "distinct mv \<Longrightarrow> distinct (fst (mode_updates mv ss mp))"
proof (induction ss arbitrary: mv)
  case (Cons s ss)
  then show ?case
    using mode_update_distinct [of mv s mp] by (auto simp: case_prod_beta)
qed simp

text \<open>An update only brings in characters that may be added.\<close>

lemma mode_dels_subset: "set (fst (mode_dels mv ms perms)) \<subseteq> set mv"
proof (induction ms arbitrary: mv)
  case (Cons m ms)
  have "set (fst (mode_dels (mode_del mv m) ms perms)) \<subseteq> set mv"
    using Cons [of "mode_del mv m"] set_remove1_subset [of m mv]
    by (auto simp: mode_del_remove1)
  with Cons show ?case by simp
qed simp

lemma mode_update_no_new:
  "m \<notin> set (add_modes mp) \<Longrightarrow> m \<in> set (fst (mode_update mv s mp)) \<Longrightarrow> m \<in> set mv"
  using mode_dels_subset [of mv "tl s" "del_modes mp"]
  by (cases s) (auto simp: mode_adds_set split: if_splits)

lemma mode_updates_no_new:
  "m \<notin> set (add_modes mp) \<Longrightarrow> m \<in> set (fst (mode_updates mv ss mp)) \<Longrightarrow> m \<in> set mv"
proof (induction ss arbitrary: mv)
  case (Cons s ss)
  then show ?case
    using mode_update_no_new [of m mp mv s] by (auto simp: case_prod_beta)
qed simp

section \<open>Modes as byte slices\<close>

text \<open>
  A slice is a backing array (an index into the heap) and a length; the capacity is the
  length of the array.  All slices of \<^verbatim>\<open>mode.go\<close> start at offset 0 of their array.
\<close>

type_synonym heap = "char list list"

record bslice =
  sl_arr :: nat
  sl_len :: nat

definition sl_view :: "heap \<Rightarrow> bslice \<Rightarrow> char list" where
  "sl_view h s = take (sl_len s) (h ! sl_arr s)"

definition sl_cap :: "heap \<Rightarrow> bslice \<Rightarrow> nat" where
  "sl_cap h s = length (h ! sl_arr s)"

text \<open>
  \<^verbatim>\<open>append(s, m)\<close>: in place while there is room, else into a new array whose spare room
  the Go runtime chooses (\<open>spare\<close>, a parameter).
\<close>

definition sl_append :: "(nat \<Rightarrow> nat) \<Rightarrow> heap \<Rightarrow> bslice \<Rightarrow> char \<Rightarrow> heap \<times> bslice" where
  "sl_append spare h s m =
     (let a = h ! sl_arr s; n = sl_len s in
      if n < length a then (h[sl_arr s := a[n := m]], s\<lparr>sl_len := Suc n\<rparr>)
      else (h @ [take n a @ m # replicate (spare n) (CHR 0x00)],
            \<lparr>sl_arr = length h, sl_len = Suc n\<rparr>))"

text \<open>\<^verbatim>\<open>append(s[:i], s[i+1:]...)\<close>: the tail moves down one place inside the same array.\<close>

definition sl_remove :: "heap \<Rightarrow> bslice \<Rightarrow> nat \<Rightarrow> heap \<times> bslice" where
  "sl_remove h s i =
     (let a = h ! sl_arr s; n = sl_len s in
      (h[sl_arr s := take i a @ drop (Suc i) (take n a) @ drop (n - 1) a],
       s\<lparr>sl_len := n - 1\<rparr>))"

definition sl_add :: "(nat \<Rightarrow> nat) \<Rightarrow> heap \<Rightarrow> bslice \<Rightarrow> char \<Rightarrow> heap \<times> bslice" where
  "sl_add spare h mv m =
     (if IndexByte (sl_view h mv) m \<noteq> None then (h, mv) else sl_append spare h mv m)"

definition sl_del :: "heap \<Rightarrow> bslice \<Rightarrow> char \<Rightarrow> heap \<times> bslice" where
  "sl_del h mv m =
     (case IndexByte (sl_view h mv) m of None \<Rightarrow> (h, mv) | Some idx \<Rightarrow> sl_remove h mv idx)"

fun sl_adds :: "(nat \<Rightarrow> nat) \<Rightarrow> heap \<Rightarrow> bslice \<Rightarrow> char list \<Rightarrow> modeSet \<Rightarrow>
    (heap \<times> bslice) \<times> char list" where
  "sl_adds spare h mv [] perms = ((h, mv), [])"
| "sl_adds spare h mv (m # ms) perms =
     (if m \<in> set perms
      then (let (h', mv') = sl_add spare h mv m in sl_adds spare h' mv' ms perms)
      else apsnd ((#) m) (sl_adds spare h mv ms perms))"

fun sl_dels :: "heap \<Rightarrow> bslice \<Rightarrow> char list \<Rightarrow> modeSet \<Rightarrow> (heap \<times> bslice) \<times> char list" where
  "sl_dels h mv [] perms = ((h, mv), [])"
| "sl_dels h mv (m # ms) perms =
     (if m \<in> set perms
      then (let (h', mv') = sl_del h mv m in sl_dels h' mv' ms perms)
      else apsnd ((#) m) (sl_dels h mv ms perms))"

fun sl_update :: "(nat \<Rightarrow> nat) \<Rightarrow> heap \<Rightarrow> bslice \<Rightarrow> string \<Rightarrow> modePerms \<Rightarrow>
    (heap \<times> bslice) \<times> char list" where
  "sl_update spare h mv [] mp = ((h, mv), [])"
| "sl_update spare h mv (c # ms) mp =
     (if c = CHR ''+'' then sl_adds spare h mv ms (add_modes mp)
      else if c = CHR ''-'' then sl_dels h mv ms (del_modes mp)
      else ((h, mv), filter (\<lambda>m. m \<notin> set (all_modes mp)) (c # ms)))"

fun sl_updates :: "(nat \<Rightarrow> nat) \<Rightarrow> heap \<Rightarrow> bslice \<Rightarrow> string list \<Rightarrow> modePerms \<Rightarrow>
    (heap \<times> bslice) \<times> char list" where
  "sl_updates spare h ret [] mp = ((h, ret), [])"
| "sl_updates spare h ret (m # ms) mp =
     (let ((h', ret'), newBad) = sl_update spare h ret m mp
      in apsnd ((@) newBad) (sl_updates spare h' ret' ms mp))"

text \<open>
  \<^verbatim>\<open>updateSlice\<close> on a mode just decoded from the store: the decoder allocates an array of
  exactly the length of the value, and \<^verbatim>\<open>oldMode\<close> and \<^verbatim>\<open>ret\<close> both start as that slice.  The
  third result compares what the old slice shows at the end with the new slice.
\<close>

definition updateSlice :: "(nat \<Rightarrow> nat) \<Rightarrow> ModeValue \<Rightarrow> string list \<Rightarrow> modePerms \<Rightarrow>
    ModeValue \<times> char list \<times> bool" where
  "updateSlice spare mv modes mp =
     (let oldMode = \<lparr>sl_arr = 0, sl_len = length mv\<rparr>;
          ((h, ret), bad) = sl_updates spare [mv] oldMode modes mp
      in (sl_view h ret, bad, sl_view h oldMode \<noteq> sl_view h ret))"


subsection \<open>The slice code computes the value-level result\<close>

definition sl_ok :: "heap \<Rightarrow> bslice \<Rightarrow> bool" where
  "sl_ok h s = (sl_arr s < length h \<and> sl_len s \<le> sl_cap h s)"

lemma sl_append_view:
  assumes "sl_ok h s" "sl_append spare h s m = (h', s')"
  shows "sl_ok h' s'" "sl_view h' s' = sl_view h s @ [m]"
  using assms
  by (auto simp: sl_append_def sl_ok_def sl_view_def sl_cap_def Let_def take_Suc_conv_app_nth
      nth_append split: if_splits)

lemma sl_remove_view:
  assumes "sl_ok h s" "i < sl_len s" "sl_remove h s i = (h', s')"
  shows "sl_ok h' s'" "sl_view h' s' = take i (sl_view h s) @ drop (Suc i) (sl_view h s)"
proof -
  have idx: "sl_len s - Suc 0 \<le> i \<Longrightarrow> sl_len s - Suc 0 = i"
    using assms(2) by simp
  show "sl_ok h' s'" "sl_view h' s' = take i (sl_view h s) @ drop (Suc i) (sl_view h s)"
    using assms idx
    by (auto simp: sl_remove_def sl_ok_def sl_view_def sl_cap_def Let_def min_def)
qed

lemma sl_add_refines:
  assumes "sl_ok h mv" "sl_add spare h mv m = (h', mv')"
  shows "sl_ok h' mv'" "sl_view h' mv' = mode_add (sl_view h mv) m"
  using assms sl_append_view [of h mv spare m h' mv']
  by (auto simp: sl_add_def mode_add_def IndexByte_None split: if_splits)

lemma sl_del_refines:
  assumes "sl_ok h mv" "sl_del h mv m = (h', mv')"
  shows "sl_ok h' mv'" "sl_view h' mv' = mode_del (sl_view h mv) m"
proof -
  have "sl_ok h' mv' \<and> sl_view h' mv' = mode_del (sl_view h mv) m"
  proof (cases "IndexByte (sl_view h mv) m")
    case None
    with assms show ?thesis by (simp add: sl_del_def mode_del_def)
  next
    case (Some idx)
    with assms(2) have rem: "sl_remove h mv idx = (h', mv')" by (simp add: sl_del_def)
    from IndexByte_Some [OF Some] have "idx < sl_len mv" by (simp add: sl_view_def)
    from sl_remove_view [OF assms(1) this rem] Some show ?thesis by (simp add: mode_del_def)
  qed
  then show "sl_ok h' mv'" "sl_view h' mv' = mode_del (sl_view h mv) m" by simp_all
qed

lemma sl_adds_refines:
  assumes "sl_ok h mv" "sl_adds spare h mv ms perms = ((h', mv'), bad)"
  shows "sl_ok h' mv' \<and> mode_adds (sl_view h mv) ms perms = (sl_view h' mv', bad)"
  using assms
proof (induction ms arbitrary: h mv bad)
  case (Cons m ms)
  show ?case
  proof (cases "m \<in> set perms")
    case True
    obtain h1 mv1 where step: "sl_add spare h mv m = (h1, mv1)" by fastforce
    with Cons.prems True have "sl_adds spare h1 mv1 ms perms = ((h', mv'), bad)" by simp
    with Cons.IH [of h1 mv1] sl_add_refines [OF Cons.prems(1) step] True show ?thesis by simp
  next
    case False
    with Cons.prems obtain bad' where "sl_adds spare h mv ms perms = ((h', mv'), bad')"
      "bad = m # bad'" by (cases "sl_adds spare h mv ms perms") auto
    with Cons.IH [OF Cons.prems(1)] False show ?thesis by simp
  qed
qed simp

lemma sl_dels_refines:
  assumes "sl_ok h mv" "sl_dels h mv ms perms = ((h', mv'), bad)"
  shows "sl_ok h' mv' \<and> mode_dels (sl_view h mv) ms perms = (sl_view h' mv', bad)"
  using assms
proof (induction ms arbitrary: h mv bad)
  case (Cons m ms)
  show ?case
  proof (cases "m \<in> set perms")
    case True
    obtain h1 mv1 where step: "sl_del h mv m = (h1, mv1)" by fastforce
    with Cons.prems True have "sl_dels h1 mv1 ms perms = ((h', mv'), bad)" by simp
    with Cons.IH [of h1 mv1] sl_del_refines [OF Cons.prems(1) step] True show ?thesis by simp
  next
    case False
    with Cons.prems obtain bad' where "sl_dels h mv ms perms = ((h', mv'), bad')"
      "bad = m # bad'" by (cases "sl_dels h mv ms perms") auto
    with Cons.IH [OF Cons.prems(1)] False show ?thesis by simp
  qed
qed simp

lemma sl_update_refines:
  assumes "sl_ok h mv" "sl_update spare h mv s mp = ((h', mv'), bad)"
  shows "sl_ok h' mv' \<and> mode_update (sl_view h mv) s mp = (sl_view h' mv', bad)"
proof (cases s)
  case Nil
  with assms show ?thesis by simp
next
  case (Cons c ms)
  with assms sl_adds_refines [of h mv spare ms "add_modes mp" h' mv' bad]
    sl_dels_refines [of h mv ms "del_modes mp" h' mv' bad]
  show ?thesis by (auto split: if_splits)
qed

lemma sl_updates_refines:
  assumes "sl_ok h mv" "sl_updates spare h mv ss mp = ((h', mv'), bad)"
  shows "sl_ok h' mv' \<and> mode_updates (sl_view h mv) ss mp = (sl_view h' mv', bad)"
  using assms
proof (induction ss arbitrary: h mv bad)
  case (Cons s ss)
  obtain h1 mv1 bad1 where step: "sl_update spare h mv s mp = ((h1, mv1), bad1)"
    by (metis surj_pair)
  obtain bad2 where rest: "sl_updates spare h1 mv1 ss mp = ((h', mv'), bad2)"
    and bad: "bad = bad1 @ bad2"
    using Cons.prems step by (cases "sl_updates spare h1 mv1 ss mp") auto
  from sl_update_refines [OF Cons.prems(1) step] Cons.IH [OF _ rest] bad
  show ?case by simp
qed simp

lemma sl_ok_fresh: "sl_ok [mv] \<lparr>sl_arr = 0, sl_len = length mv\<rparr>"
  by (simp add: sl_ok_def sl_cap_def)

lemma sl_view_fresh: "sl_view [mv] \<lparr>sl_arr = 0, sl_len = length mv\<rparr> = mv"
  by (simp add: sl_view_def)

lemma updateSlice_value:
  "fst (updateSlice spare mv modes mp) = fst (mode_updates mv modes mp)"
  "fst (snd (updateSlice spare mv modes mp)) = snd (mode_updates mv modes mp)"
proof -
  obtain h ret bad where run:
    "sl_updates spare [mv] \<lparr>sl_arr = 0, sl_len = length mv\<rparr> modes mp = ((h, ret), bad)"
    by (metis surj_pair)
  from sl_updates_refines [OF sl_ok_fresh run]
  have "mode_updates mv modes mp = (sl_view h ret, bad)" by (simp add: sl_view_fresh)
  with run show
    "fst (updateSlice spare mv modes mp) = fst (mode_updates mv modes mp)"
    "fst (snd (updateSlice spare mv modes mp)) = snd (mode_updates mv modes mp)"
    by (simp_all add: updateSlice_def)
qed


subsection \<open>The report of a change\<close>

text \<open>Additions never write into the array of the old mode: it is full, so the first one moves
  the new mode to another array.\<close>

definition old_kept :: "ModeValue \<Rightarrow> heap \<Rightarrow> bslice \<Rightarrow> bool" where
  "old_kept mv h ret \<longleftrightarrow>
     0 < length h \<and> h ! 0 = mv \<and> (sl_arr ret = 0 \<longrightarrow> sl_len ret = length mv)"

lemma sl_add_old_kept:
  "old_kept mv h ret \<Longrightarrow> sl_add spare h ret m = (h', ret') \<Longrightarrow> old_kept mv h' ret'"
  by (cases "sl_arr ret")
     (auto simp: old_kept_def sl_add_def sl_append_def Let_def nth_append split: if_splits)

lemma sl_adds_old_kept:
  "old_kept mv h ret \<Longrightarrow> sl_adds spare h ret ms perms = ((h', ret'), bad) \<Longrightarrow> old_kept mv h' ret'"
proof (induction ms arbitrary: h ret bad)
  case (Cons m ms)
  then show ?case
    using sl_add_old_kept [of mv h ret spare m]
    by (cases "sl_add spare h ret m"; cases "sl_adds spare h ret ms perms")
       (auto split: if_splits)
qed simp

lemma sl_updates_old_kept:
  "old_kept mv h ret \<Longrightarrow> \<forall>s \<in> set modes. \<not> prefix ''-'' s \<Longrightarrow>
   sl_updates spare h ret modes mp = ((h', ret'), bad) \<Longrightarrow> old_kept mv h' ret'"
proof (induction modes arbitrary: h ret bad)
  case (Cons s modes)
  obtain h1 ret1 bad1 where step: "sl_update spare h ret s mp = ((h1, ret1), bad1)"
    by (metis surj_pair)
  have "old_kept mv h1 ret1"
    using step Cons.prems(1,2) sl_adds_old_kept [of mv h ret spare "tl s" "add_modes mp" h1 ret1]
    by (cases s) (auto split: if_splits)
  with Cons step show ?case
    by (cases "sl_updates spare h1 ret1 modes mp") auto
qed simp

text \<open>Deletions stay in the array of the old mode and shorten the new one.\<close>

definition old_shrunk :: "ModeValue \<Rightarrow> heap \<Rightarrow> bslice \<Rightarrow> bool" where
  "old_shrunk mv h ret \<longleftrightarrow>
     0 < length h \<and> sl_arr ret = 0 \<and> length (h ! 0) = length mv \<and> sl_len ret \<le> length mv \<and>
     (sl_len ret = length mv \<longrightarrow> h ! 0 = mv)"

lemma sl_del_old_shrunk:
  assumes "old_shrunk mv h ret" "sl_del h ret m = (h', ret')"
  shows "old_shrunk mv h' ret'"
proof (cases "IndexByte (sl_view h ret) m")
  case None
  with assms show ?thesis by (simp add: sl_del_def)
next
  case (Some idx)
  from IndexByte_Some [OF Some] have "idx < sl_len ret" by (simp add: sl_view_def)
  with Some assms show ?thesis
    by (auto simp: sl_del_def sl_remove_def old_shrunk_def Let_def)
qed

lemma sl_dels_old_shrunk:
  "old_shrunk mv h ret \<Longrightarrow> sl_dels h ret ms perms = ((h', ret'), bad) \<Longrightarrow> old_shrunk mv h' ret'"
proof (induction ms arbitrary: h ret bad)
  case (Cons m ms)
  then show ?case
    using sl_del_old_shrunk [of mv h ret m]
    by (cases "sl_del h ret m"; cases "sl_dels h ret ms perms") (auto split: if_splits)
qed simp

lemma sl_updates_old_shrunk:
  "old_shrunk mv h ret \<Longrightarrow> \<forall>s \<in> set modes. \<not> prefix ''+'' s \<Longrightarrow>
   sl_updates spare h ret modes mp = ((h', ret'), bad) \<Longrightarrow> old_shrunk mv h' ret'"
proof (induction modes arbitrary: h ret bad)
  case (Cons s modes)
  obtain h1 ret1 bad1 where step: "sl_update spare h ret s mp = ((h1, ret1), bad1)"
    by (metis surj_pair)
  have "old_shrunk mv h1 ret1"
    using step Cons.prems(1,2) sl_dels_old_shrunk [of mv h ret "tl s" "del_modes mp" h1 ret1]
    by (cases s) (auto split: if_splits)
  with Cons step show ?case
    by (cases "sl_updates spare h1 ret1 modes mp") auto
qed simp

section \<open>Properties\<close>

text \<open>
  C40.  The in-place slice code of \<^verbatim>\<open>updateSlice\<close> computes, whatever room the runtime leaves
  behind a reallocated array, exactly the mode and the rejected characters of the
  value-level definition: additions append missing permitted characters in order, deletions
  remove permitted characters, and everything else is returned as rejected.
\<close>

theorem updateSlice_refines:
  "(fst (updateSlice spare mv modes mp), fst (snd (updateSlice spare mv modes mp)))
     = mode_updates mv modes mp"
  by (simp add: updateSlice_value)

text \<open>
  No \<^verbatim>\<open>MODE\<close> command grants a privilege: after any list of mode strings, the away, local
  operator and global operator flags are set only if they were set before.
\<close>

theorem updateSlice_no_escalation:
  assumes "m \<in> set ''aoO''" "m \<in> set (fst (updateSlice spare mv modes userModePerms))"
  shows "m \<in> set mv"
proof -
  from assms(1) have "m \<notin> set (add_modes userModePerms)"
    by (auto simp: userModePerms_def)
  moreover from assms(2) have "m \<in> set (fst (mode_updates mv modes userModePerms))"
    by (simp only: updateSlice_value)
  ultimately show ?thesis by (rule mode_updates_no_new)
qed

theorem updateSlice_no_escalation_witness:
  "CHR ''o'' \<in> set ''oE'' \<and> fst (updateSlice (\<lambda>_. 0) ''o'' [''+oE''] userModePerms) = ''oE''"
proof -
  have run: "fst (updateSlice (\<lambda>_. 0) ''o'' [''+oE''] userModePerms) = ''oE''"
    by (simp add: updateSlice_def userModePerms_def sl_add_def sl_append_def sl_view_def)
  have "CHR ''o'' \<in> set ''o''"
    by (rule updateSlice_no_escalation [of _ "\<lambda>_. 0" _ "[''+oE'']"]) (simp, simp only: run, simp)
  then show ?thesis using run by simp
qed

text \<open>
  The report that the mode changed is right whenever the mode strings do not mix
  directions: with no \<^verbatim>\<open>-\<close> string, or with no \<^verbatim>\<open>+\<close> string, it says exactly whether the new
  mode differs from the old one.
\<close>

lemma updateSlice_changed_one_direction:
  assumes "(\<forall>s \<in> set modes. \<not> prefix ''-'' s) \<or> (\<forall>s \<in> set modes. \<not> prefix ''+'' s)"
  shows "snd (snd (updateSlice spare mv modes mp)) \<longleftrightarrow> fst (mode_updates mv modes mp) \<noteq> mv"
proof -
  let ?old = "\<lparr>sl_arr = 0, sl_len = length mv\<rparr>"
  obtain h ret bad where run: "sl_updates spare [mv] ?old modes mp = ((h, ret), bad)"
    by (metis surj_pair)
  have new: "fst (mode_updates mv modes mp) = sl_view h ret" and ok: "sl_ok h ret"
    using sl_updates_refines [OF sl_ok_fresh run] by (simp_all add: sl_view_fresh)
  have "sl_view h ?old = mv \<or> (sl_len ret < length mv \<and> length (h ! 0) = length mv \<and> sl_arr ret = 0)"
  proof (cases "\<forall>s \<in> set modes. \<not> prefix ''-'' s")
    case True
    have "old_kept mv [mv] ?old" by (simp add: old_kept_def)
    from sl_updates_old_kept [OF this True run] show ?thesis
      by (simp add: old_kept_def sl_view_def)
  next
    case False
    with assms have dir: "\<forall>s \<in> set modes. \<not> prefix ''+'' s" by blast
    have "old_shrunk mv [mv] ?old" by (simp add: old_shrunk_def)
    from sl_updates_old_shrunk [OF this dir run] show ?thesis
      by (auto simp: old_shrunk_def sl_view_def)
  qed
  then have "(sl_view h ?old \<noteq> sl_view h ret) = (sl_view h ret \<noteq> mv)"
  proof
    assume shorter: "sl_len ret < length mv \<and> length (h ! 0) = length mv \<and> sl_arr ret = 0"
    then have "length (sl_view h ret) \<noteq> length mv" "length (sl_view h ?old) = length mv"
      by (simp_all add: sl_view_def)
    then show ?thesis by metis
  qed auto
  then show ?thesis
    using run new by (simp add: updateSlice_def)
qed

lemma sl_add_last_cell:
  "IndexByte r y = None \<Longrightarrow> sl_add spare [r @ [z]] \<lparr>sl_arr = 0, sl_len = length r\<rparr> y
     = ([r @ [y]], \<lparr>sl_arr = 0, sl_len = Suc (length r)\<rparr>)"
  by (simp add: sl_add_def sl_view_def sl_append_def)

text \<open>Deleting a set character and adding a missing one stays inside one array.\<close>

lemma swap_in_place:
  assumes "x \<in> set mv" "y \<notin> set mv"
  obtains h1 where "sl_del [mv] \<lparr>sl_arr = 0, sl_len = length mv\<rparr> x
      = ([h1], \<lparr>sl_arr = 0, sl_len = length mv - 1\<rparr>)"
    and "sl_add spare [h1] \<lparr>sl_arr = 0, sl_len = length mv - 1\<rparr> y
      = ([remove1 x mv @ [y]], \<lparr>sl_arr = 0, sl_len = length mv\<rparr>)"
proof -
  obtain idx where idx: "IndexByte mv x = Some idx"
    using assms(1) IndexByte_None [of mv x] by auto
  let ?h1 = "take idx mv @ drop (Suc idx) mv @ drop (length mv - 1) mv"
  have h1: "?h1 = remove1 x mv @ drop (length mv - 1) mv"
    using IndexByte_delete [OF idx] by (metis append_assoc)
  have len: "length mv = Suc (length (remove1 x mv))"
    using assms(1) length_pos_if_in_set [OF assms(1)] by (simp add: length_remove1)
  have "length (drop (length mv - 1) mv) = Suc 0"
    using len by simp
  then obtain z where z: "drop (length mv - 1) mv = [z]"
    unfolding length_Suc_conv by auto
  have h1': "?h1 = remove1 x mv @ [z]"
    using h1 unfolding z .
  have y: "IndexByte (remove1 x mv) y = None"
    using assms(2) set_remove1_subset [of x mv] by (auto simp: IndexByte_None)
  have del: "sl_del [mv] \<lparr>sl_arr = 0, sl_len = length mv\<rparr> x
      = ([?h1], \<lparr>sl_arr = 0, sl_len = length mv - 1\<rparr>)"
    using idx by (simp add: sl_del_def sl_view_def sl_remove_def Let_def)
  have "sl_add spare [?h1] \<lparr>sl_arr = 0, sl_len = length mv - 1\<rparr> y
      = ([remove1 x mv @ [y]], \<lparr>sl_arr = 0, sl_len = length mv\<rparr>)"
    using sl_add_last_cell [OF y, of spare z] len unfolding h1' by simp
  with del that show thesis by blast
qed

text \<open>
  The report is wrong for a swap: deleting one set character and adding one that is not
  set changes the mode, but the addition overwrites the last cell of the array the old
  slice still shows, so the comparison finds no difference and the callers do not store
  the new mode.
\<close>

theorem updateSlice_swap_unreported:
  assumes "x \<in> set mv" "y \<notin> set mv" "x \<in> set (del_modes mp)" "y \<in> set (add_modes mp)"
  shows "updateSlice spare mv [[CHR ''-'', x], [CHR ''+'', y]] mp = (remove1 x mv @ [y], [], False)
    \<and> set (remove1 x mv @ [y]) \<noteq> set mv"
proof -
  have len: "length mv = Suc (length (remove1 x mv))"
    using assms(1) length_pos_if_in_set [OF assms(1)] by (simp add: length_remove1)
  obtain h1 where "sl_del [mv] \<lparr>sl_arr = 0, sl_len = length mv\<rparr> x
      = ([h1], \<lparr>sl_arr = 0, sl_len = length mv - 1\<rparr>)"
    "sl_add spare [h1] \<lparr>sl_arr = 0, sl_len = length mv - 1\<rparr> y
      = ([remove1 x mv @ [y]], \<lparr>sl_arr = 0, sl_len = length mv\<rparr>)"
    using swap_in_place [OF assms(1,2)] by blast
  then have "updateSlice spare mv [[CHR ''-'', x], [CHR ''+'', y]] mp = (remove1 x mv @ [y], [], False)"
    using assms(3,4) len by (simp add: updateSlice_def sl_view_def)
  moreover have "y \<in> set (remove1 x mv @ [y])" by simp
  ultimately show ?thesis using assms(2) by blast
qed

theorem updateSlice_swap_unreported_witness:
  "updateSlice (\<lambda>_. 7) ''i'' [''-i'', ''+E''] userModePerms = (''E'', [], False)"
  using updateSlice_swap_unreported [of "CHR ''i''" "''i''" "CHR ''E''" userModePerms "\<lambda>_. 7"]
  by (simp add: userModePerms_def)

end
