(* ===== verification/Irc_Values.thy ===== *)
theory Irc_Values
  imports Irc_Modes
begin

text \<open>
  The data of the IRC network: messages (\<^verbatim>\<open>irc.Prefix\<close> and \<^verbatim>\<open>irc.Message\<close> of the vendored
  \<^verbatim>\<open>sorcix/irc.v2\<close>), users (\<^verbatim>\<open>user.go\<close>), channels (\<^verbatim>\<open>channel.go\<close>) and operators (\<^verbatim>\<open>oper.go\<close>),
  with their methods, and the values stored in etcd.

  Values are stored as gob streams.  The model keeps a stream as the value it carries
  (\<open>gob\<close>), since the code only ever encodes a value and decodes it again: an encoder yields
  the constructor of its type, and a decoder accepts its own constructor, fails with
  \<^verbatim>\<open>EOF\<close> on the empty string and with a type error on a stream that shares no field with the
  receiver.  \<^verbatim>\<open>UserValue\<close> and \<^verbatim>\<open>ChannelCtl\<close> share the fields \<^verbatim>\<open>Mode\<close> and \<^verbatim>\<open>Created\<close>, so each
  decodes as the other with only those fields set.  Main results: how the list methods \<^verbatim>\<open>find\<close>,
  \<^verbatim>\<open>del\<close> and \<^verbatim>\<open>part\<close> act, and what \<^verbatim>\<open>pruneInvisible\<close> shows and hides.
\<close>

section \<open>IRC messages\<close>

record Prefix =
  pName :: string
  pUser :: string
  pHost :: string

record Message =
  mPrefix :: "Prefix option"
  mCommand :: string
  mParams :: "string list"

section \<open>Users\<close>

record UserValue =
  uNick :: string
  uUser :: "string list"
  uServerName :: string
  uMode :: ModeValue
  uHost :: string
  uRealName :: string
  uCreated :: int
  uChannels :: "string list"
  uAwayMsg :: string
  uLease :: int

text \<open>The Go zero value.\<close>

definition zeroUser :: UserValue where
  "zeroUser = \<lparr> uNick = [], uUser = [], uServerName = [], uMode = [], uHost = [], uRealName = [],
     uCreated = 0, uChannels = [], uAwayMsg = [], uLease = 0 \<rparr>"

fun inChan_list :: "string list \<Rightarrow> string \<Rightarrow> bool" where
  "inChan_list [] ch = False"
| "inChan_list (c # cs) ch = (if c = ch then True else inChan_list cs ch)"

definition inChan :: "UserValue \<Rightarrow> string \<Rightarrow> bool" where
  "inChan uv ch = inChan_list (uChannels uv) ch"

fun part_list :: "string list \<Rightarrow> string \<Rightarrow> string list option" where
  "part_list [] ch = None"
| "part_list (c # cs) ch = (if c = ch then Some cs else map_option ((#) c) (part_list cs ch))"

definition part :: "UserValue \<Rightarrow> string \<Rightarrow> UserValue \<times> bool" where
  "part uv ch =
     (case part_list (uChannels uv) ch of
        Some cs \<Rightarrow> (uv\<lparr>uChannels := cs\<rparr>, True)
      | None \<Rightarrow> (uv, False))"

text \<open>A \<^verbatim>\<open>map[string]struct{}\<close> used as a set.\<close>

definition stringSliceToMap :: "string list \<Rightarrow> string \<Rightarrow> bool" where
  "stringSliceToMap ss = (\<lambda>s. s \<in> set ss)"

fun pruneInvisible_loop :: "UserValue list \<Rightarrow> UserValue \<Rightarrow> bool \<Rightarrow> (string \<Rightarrow> bool) \<Rightarrow> UserValue list" where
  "pruneInvisible_loop [] me isLocalOp uchan = []"
| "pruneInvisible_loop (user # users) me isLocalOp uchan =
     (if \<not> mode_has (uMode user) (CHR ''i'') \<or> (isLocalOp \<and> uServerName user = uServerName me)
      then user # pruneInvisible_loop users me isLocalOp uchan
      else (let sharedChannels = filter uchan (uChannels user) in
            if length sharedChannels > 0
            then user\<lparr>uChannels := sharedChannels\<rparr> # pruneInvisible_loop users me isLocalOp uchan
            else pruneInvisible_loop users me isLocalOp uchan))"

definition pruneInvisible :: "UserValue list \<Rightarrow> UserValue \<Rightarrow> UserValue list" where
  "pruneInvisible users me =
     (if mode_has (uMode me) (CHR ''O'') then users
      else pruneInvisible_loop users me (mode_has (uMode me) (CHR ''o''))
             (stringSliceToMap (uChannels me)))"

section \<open>Channels\<close>

record ChannelCtl =
  cName :: string
  cTopic :: string
  cMode :: ModeValue
  cCreated :: int

definition zeroChannel :: ChannelCtl where
  "zeroChannel = \<lparr> cName = [], cTopic = [], cMode = [], cCreated = 0 \<rparr>"

record ChannelNick =
  nNick :: string
  nMode :: ModeValue

type_synonym ChannelNicks = "ChannelNick list"

definition nicks :: "ChannelNicks \<Rightarrow> string list" where
  "nicks cns = map nNick cns"

text \<open>\<^verbatim>\<open>find\<close> hands out a pointer into the list; its callers only read through it.\<close>

fun find_nick :: "ChannelNicks \<Rightarrow> string \<Rightarrow> ChannelNick option" where
  "find_nick [] nick = None"
| "find_nick (cn # cns) nick = (if nNick cn = nick then Some cn else find_nick cns nick)"

fun del_nick :: "ChannelNicks \<Rightarrow> string \<Rightarrow> ChannelNicks \<times> bool" where
  "del_nick [] nick = ([], False)"
| "del_nick (u # us) nick = (if nNick u = nick then (us, True) else apfst ((#) u) (del_nick us nick))"

section \<open>Operators\<close>

record OperValue =
  oPass :: string
  oGlobal :: bool

section \<open>Stored values\<close>

datatype gob =
    Raw string
  | GUser UserValue
  | GChannel ChannelCtl
  | GNicks ChannelNicks
  | GOper OperValue
  | GMessage Message

text \<open>\<^verbatim>\<open>len(v) == 0\<close> of a stored string: a gob stream is never empty.\<close>

definition gob_empty :: "gob \<Rightarrow> bool" where
  "gob_empty v = (v = Raw [])"

definition encodeUserValue :: "UserValue \<Rightarrow> gob" where
  "encodeUserValue uv = GUser uv"

definition encodeChannelCtl :: "ChannelCtl \<Rightarrow> gob" where
  "encodeChannelCtl cc = GChannel cc"

definition encodeChannelNicks :: "ChannelNicks \<Rightarrow> gob" where
  "encodeChannelNicks cn = GNicks cn"

definition encodeOperValue :: "OperValue \<Rightarrow> gob" where
  "encodeOperValue ov = GOper ov"

definition encodeMessage :: "Message \<Rightarrow> gob" where
  "encodeMessage m = GMessage m"

text \<open>The failure of a decoder on a stream of another type, or on no stream.\<close>

definition gob_mismatch :: "gob \<Rightarrow> error" where
  "gob_mismatch v = (if gob_empty v then ErrEOF else ErrGob)"

definition decodeUserValue :: "gob \<Rightarrow> error + UserValue" where
  "decodeUserValue v =
     (case v of
        GUser uv \<Rightarrow> Inr uv
      | GChannel cc \<Rightarrow> Inr (zeroUser\<lparr>uMode := cMode cc, uCreated := cCreated cc\<rparr>)
      | _ \<Rightarrow> Inl (gob_mismatch v))"

definition decodeChannelCtl :: "gob \<Rightarrow> error + ChannelCtl" where
  "decodeChannelCtl v =
     (case v of
        GChannel cc \<Rightarrow> Inr cc
      | GUser uv \<Rightarrow> Inr (zeroChannel\<lparr>cMode := uMode uv, cCreated := uCreated uv\<rparr>)
      | _ \<Rightarrow> Inl (gob_mismatch v))"

definition decodeChannelNicks :: "gob \<Rightarrow> error + ChannelNicks" where
  "decodeChannelNicks v = (case v of GNicks cns \<Rightarrow> Inr cns | _ \<Rightarrow> Inl (gob_mismatch v))"

definition decodeOperValue :: "gob \<Rightarrow> error + OperValue" where
  "decodeOperValue v = (case v of GOper ov \<Rightarrow> Inr ov | _ \<Rightarrow> Inl (gob_mismatch v))"

definition decodeMessage :: "gob \<Rightarrow> error + Message" where
  "decodeMessage v = (case v of GMessage m \<Rightarrow> Inr m | _ \<Rightarrow> Inl (gob_mismatch v))"

lemmas encode_defs = encodeUserValue_def encodeChannelCtl_def encodeChannelNicks_def
  encodeOperValue_def encodeMessage_def

lemmas decode_defs = decodeUserValue_def decodeChannelCtl_def decodeChannelNicks_def
  decodeOperValue_def decodeMessage_def gob_mismatch_def gob_empty_def

subsection \<open>The codec interface\<close>

text \<open>
  What the handlers rely on: an encoded value decodes to itself, is never the empty
  string, and the empty string does not decode.
\<close>

locale gob_codec =
  fixes encode :: "'a \<Rightarrow> gob"
    and decode :: "gob \<Rightarrow> error + 'a"
  assumes decode_encode: "decode (encode x) = Inr x"
    and decode_empty: "decode (Raw []) = Inl ErrEOF"
    and encode_nonempty: "\<not> gob_empty (encode x)"
begin

lemma encode_inj: "encode x = encode y \<longleftrightarrow> x = y"
  by (metis decode_encode sum.inject(2))

lemma encode_not_raw: "encode x \<noteq> Raw []"
  using encode_nonempty [of x] by (auto simp: gob_empty_def)

end

interpretation user_codec: gob_codec encodeUserValue decodeUserValue
  by unfold_locales (simp_all add: encode_defs decode_defs)

interpretation channel_codec: gob_codec encodeChannelCtl decodeChannelCtl
  by unfold_locales (simp_all add: encode_defs decode_defs)

interpretation nicks_codec: gob_codec encodeChannelNicks decodeChannelNicks
  by unfold_locales (simp_all add: encode_defs decode_defs)

interpretation oper_codec: gob_codec encodeOperValue decodeOperValue
  by unfold_locales (simp_all add: encode_defs decode_defs)

interpretation message_codec: gob_codec encodeMessage decodeMessage
  by unfold_locales (simp_all add: encode_defs decode_defs)

lemmas codec_simps [simp] =
  user_codec.decode_encode user_codec.decode_empty user_codec.encode_nonempty
  channel_codec.decode_encode channel_codec.decode_empty channel_codec.encode_nonempty
  nicks_codec.decode_encode nicks_codec.decode_empty nicks_codec.encode_nonempty
  oper_codec.decode_encode oper_codec.decode_empty oper_codec.encode_nonempty
  message_codec.decode_encode message_codec.decode_empty message_codec.encode_nonempty

lemma decodeUserValue_Inr_cases:
  "decodeUserValue v = Inr uv \<Longrightarrow>
     v = GUser uv \<or> (\<exists>cc. v = GChannel cc \<and> uv = zeroUser\<lparr>uMode := cMode cc, uCreated := cCreated cc\<rparr>)"
  by (cases v) (auto simp: decodeUserValue_def)

lemma decodeChannelNicks_Inr: "decodeChannelNicks v = Inr cns \<longleftrightarrow> v = GNicks cns"
  by (cases v) (auto simp: decodeChannelNicks_def)

lemma decodeOperValue_Inr: "decodeOperValue v = Inr ov \<longleftrightarrow> v = GOper ov"
  by (cases v) (auto simp: decodeOperValue_def)

section \<open>The list methods\<close>

lemma inChan_iff [simp]: "inChan uv ch \<longleftrightarrow> ch \<in> set (uChannels uv)"
proof -
  have "inChan_list cs ch \<longleftrightarrow> ch \<in> set cs" for cs
    by (induction cs) auto
  then show ?thesis by (simp add: inChan_def)
qed

lemma part_list_eq: "part_list cs ch = (if ch \<in> set cs then Some (remove1 ch cs) else None)"
  by (induction cs) auto

lemma part_eq:
  "part uv ch = (uv\<lparr>uChannels := remove1 ch (uChannels uv)\<rparr>, ch \<in> set (uChannels uv))"
  by (simp add: part_def part_list_eq remove1_idem)

lemma find_nick_None: "find_nick cns n = None \<longleftrightarrow> n \<notin> set (nicks cns)"
  by (induction cns) (auto simp: nicks_def)

lemma find_nick_Some: "find_nick cns n = Some cn \<Longrightarrow> cn \<in> set cns \<and> nNick cn = n"
  by (induction cns) (auto split: if_splits)

lemma del_nick_nicks: "nicks (fst (del_nick cns n)) = remove1 n (nicks cns)"
  by (induction cns) (auto simp: nicks_def)

lemma del_nick_found: "snd (del_nick cns n) \<longleftrightarrow> n \<in> set (nicks cns)"
  by (induction cns) (auto simp: nicks_def)

lemma nicks_append [simp]: "nicks (xs @ ys) = nicks xs @ nicks ys"
  by (simp add: nicks_def)

lemma nicks_Cons [simp]: "nicks (x # xs) = nNick x # nicks xs"
  by (simp add: nicks_def)

lemma nicks_Nil [simp]: "nicks [] = []"
  by (simp add: nicks_def)

section \<open>Invisible users\<close>

text \<open>What one user of the list turns into: nothing, itself, or itself with the shared channels.\<close>

definition shown :: "UserValue \<Rightarrow> UserValue \<Rightarrow> UserValue option" where
  "shown me u =
     (if CHR ''O'' \<in> set (uMode me) \<or> CHR ''i'' \<notin> set (uMode u)
         \<or> (CHR ''o'' \<in> set (uMode me) \<and> uServerName u = uServerName me)
      then Some u
      else if set (uChannels u) \<inter> set (uChannels me) = {} then None
      else Some (u\<lparr>uChannels := filter (\<lambda>c. c \<in> set (uChannels me)) (uChannels u)\<rparr>))"

lemma shown_nick: "shown me u = Some u' \<Longrightarrow> uNick u' = uNick u"
  by (auto simp: shown_def split: if_splits)

lemma pruneInvisible_loop_eq:
  "CHR ''O'' \<notin> set (uMode me) \<Longrightarrow>
   pruneInvisible_loop users me (CHR ''o'' \<in> set (uMode me)) (\<lambda>s. s \<in> set (uChannels me))
     = List.map_filter (shown me) users"
proof (induction users)
  case (Cons u users)
  have "length (filter (\<lambda>s. s \<in> set (uChannels me)) (uChannels u)) > 0
      \<longleftrightarrow> set (uChannels u) \<inter> set (uChannels me) \<noteq> {}"
    by (auto simp: filter_empty_conv)
  with Cons show ?case
    by (simp add: shown_def map_filter_simps)
qed (simp add: map_filter_simps)

lemma pruneInvisible_map_filter: "pruneInvisible users me = List.map_filter (shown me) users"
proof (cases "CHR ''O'' \<in> set (uMode me)")
  case True
  then have "shown me = Some" by (simp add: shown_def fun_eq_iff)
  with True show ?thesis
    by (simp add: pruneInvisible_def) (induction users; simp add: map_filter_simps)
next
  case False
  then show ?thesis
    by (simp add: pruneInvisible_def stringSliceToMap_def pruneInvisible_loop_eq)
qed

end
