(* ===== verification/Etcd_Store.thy ===== *)
theory Etcd_Store
  imports Irc_Prelude
begin

text \<open>
  The etcd cluster as the program sees it: a revisioned key-value store with leases.  The
  definitions follow the vendored server: the checks of \<^verbatim>\<open>v3rpc/key.go\<close>, the application of
  requests in \<^verbatim>\<open>etcdserver/apply.go\<close>, the write transaction of \<^verbatim>\<open>mvcc/kvstore_txn.go\<close> and
  \<^verbatim>\<open>Revoke\<close> of \<^verbatim>\<open>lease/lessor.go\<close>.  The store keeps the snapshot of every revision, since the
  program reads at old revisions; compaction never happens in the model.  Values are of any
  type.  Main results: the store invariant, and the law that optimistic transactions rest on,
  that a key whose modification revision has not moved has not changed.
\<close>

section \<open>Snapshots\<close>

record 'v KeyValue =
  kv_Value :: 'v
  kv_CreateRevision :: nat
  kv_ModRevision :: nat
  kv_Version :: nat
  kv_Lease :: int

type_synonym 'v snapshot = "(string \<times> 'v KeyValue) list"

fun snap_put :: "string \<Rightarrow> 'a \<Rightarrow> (string \<times> 'a) list \<Rightarrow> (string \<times> 'a) list" where
  "snap_put k v [] = [(k, v)]"
| "snap_put k v ((k', v') # xs) =
     (if k < k' then (k, v) # (k', v') # xs
      else if k = k' then (k, v) # xs
      else (k', v') # snap_put k v xs)"

definition snap_del :: "string \<Rightarrow> (string \<times> 'a) list \<Rightarrow> (string \<times> 'a) list" where
  "snap_del k xs = filter (\<lambda>p. fst p \<noteq> k) xs"

definition snap_sorted :: "(string \<times> 'a) list \<Rightarrow> bool" where
  "snap_sorted xs = sorted_wrt (<) (map fst xs)"

lemma map_of_snap_put [store_simps]: "map_of (snap_put k v xs) = (map_of xs)(k \<mapsto> v)"
  by (induction xs) (auto simp: fun_eq_iff)

lemma map_of_snap_del [store_simps]: "map_of (snap_del k xs) = (map_of xs)(k := None)"
  by (simp add: snap_del_def map_of_filter_neq)

lemma fst_set_snap_put: "fst ` set (snap_put k v xs) = insert k (fst ` set xs)"
  by (induction xs rule: snap_put.induct) (auto split: if_splits)

lemma snap_sorted_put: "snap_sorted xs \<Longrightarrow> snap_sorted (snap_put k v xs)"
proof (induction xs)
  case (Cons p xs)
  obtain k' v' where p: "p = (k', v')" by fastforce
  from Cons.prems p have lt: "\<forall>y \<in> fst ` set xs. k' < y" and rec: "snap_sorted xs"
    by (auto simp: snap_sorted_def)
  show ?case
  proof (cases "k < k'")
    case True
    with Cons.prems p lt show ?thesis
      by (auto simp: snap_sorted_def intro: less_trans)
  next
    case False
    show ?thesis
    proof (cases "k = k'")
      case True
      with Cons.prems p show ?thesis by (simp add: snap_sorted_def)
    next
      case neq: False
      with \<open>\<not> k < k'\<close> have "k' < k" by (simp add: not_less_iff_gr_or_eq)
      with Cons.IH [OF rec] lt p neq \<open>\<not> k < k'\<close> show ?thesis
        using fst_set_snap_put [of k v xs] by (auto simp: snap_sorted_def)
    qed
  qed
qed (simp add: snap_sorted_def)

lemma snap_sorted_del: "snap_sorted xs \<Longrightarrow> snap_sorted (snap_del k xs)"
  by (induction xs) (auto simp: snap_sorted_def snap_del_def)

lemma snap_sorted_distinct: "snap_sorted xs \<Longrightarrow> distinct (map fst xs)"
  unfolding snap_sorted_def by (induction xs) auto

section \<open>Requests and responses\<close>

datatype rel = CEq | CNe | CGt | CLt

datatype cmp = CmpVersion string rel nat | CmpModRevision string rel nat | CmpCreateRevision string rel nat

text \<open>\<^verbatim>\<open>clientv3.Op\<close>: a range end is absent (one key), or present.\<close>

datatype 'v op =
    OpGet (op_key: string) (op_end: "string option") nat
  | OpPut (op_key: string) 'v int bool bool
  | OpDelete (op_key: string) (op_end: "string option") bool

datatype 'v response =
    RangeResp nat "(string \<times> 'v KeyValue) list"
  | PutResp nat "(string \<times> 'v KeyValue) option"
  | DeleteResp nat "(string \<times> 'v KeyValue) list"

record 'v TxnResponse =
  tr_Revision :: nat
  tr_Succeeded :: bool
  tr_Responses :: "'v response list"

datatype 'v event =
    PutEvent (ev_key: string) "'v KeyValue" "'v KeyValue option"
  | DeleteEvent (ev_key: string) nat "'v KeyValue option"

record 'v etcd =
  hist :: "'v snapshot list"      \<comment> \<open>newest first; one per revision\<close>
  elog :: "'v event list"         \<comment> \<open>all events, oldest first\<close>
  leases :: "int list"

text \<open>A fresh store is at revision 1 with no key.\<close>

definition init_etcd :: "'v etcd" where
  "init_etcd = \<lparr> hist = [[]], elog = [], leases = [] \<rparr>"

definition revision :: "'v etcd \<Rightarrow> nat" where
  "revision d = length (hist d)"

definition current :: "'v etcd \<Rightarrow> 'v snapshot" where
  "current d = (case hist d of [] \<Rightarrow> [] | s # _ \<Rightarrow> s)"

definition snapshot_at :: "'v etcd \<Rightarrow> nat \<Rightarrow> 'v snapshot" where
  "snapshot_at d r = (if r = 0 \<or> revision d < r then current d else hist d ! (revision d - r))"

definition lookup :: "'v etcd \<Rightarrow> string \<Rightarrow> 'v KeyValue option" where
  "lookup d k = map_of (current d) k"

definition in_range :: "string \<Rightarrow> string option \<Rightarrow> string \<Rightarrow> bool" where
  "in_range key end k =
     (case end of
        None \<Rightarrow> k = key
      | Some e \<Rightarrow> key \<le> k \<and> (e = [] \<or> e = [CHR 0x00] \<or> k < e))"

text \<open>\<^verbatim>\<open>WithPrefix\<close> turns a key into the range of the keys that start with it.\<close>

fun getPrefix_rev :: "string \<Rightarrow> string option" where
  "getPrefix_rev [] = None"
| "getPrefix_rev (c # cs) =
     (if c < CHR 0xff then Some (char_of (of_char c + 1 :: nat) # cs) else getPrefix_rev cs)"

definition getPrefix :: "string \<Rightarrow> string" where
  "getPrefix key = (case getPrefix_rev (rev key) of Some e \<Rightarrow> rev e | None \<Rightarrow> [CHR 0x00])"

definition WithPrefix :: "string \<Rightarrow> string \<times> string option" where
  "WithPrefix key =
     (if key = [] then ([CHR 0x00], Some [CHR 0x00]) else (key, Some (getPrefix key)))"

section \<open>Admission checks\<close>

definition MaxOpsPerTxn :: nat where
  "MaxOpsPerTxn = 128"

fun checkRequestOp :: "'v op \<Rightarrow> error option" where
  "checkRequestOp (OpGet key end r) = (if key = [] then Some ErrEmptyKey else None)"
| "checkRequestOp (OpPut key v l ign prev) =
     (if key = [] then Some ErrEmptyKey
      else if ign \<and> l \<noteq> 0 then Some ErrLeaseProvided else None)"
| "checkRequestOp (OpDelete key end prev) = (if key = [] then Some ErrEmptyKey else None)"

fun checkRequestOps :: "'v op list \<Rightarrow> error option" where
  "checkRequestOps [] = None"
| "checkRequestOps (u # us) = (case checkRequestOp u of Some e \<Rightarrow> Some e | None \<Rightarrow> checkRequestOps us)"

fun cmp_key :: "cmp \<Rightarrow> string" where
  "cmp_key (CmpVersion k _ _) = k"
| "cmp_key (CmpModRevision k _ _) = k"
| "cmp_key (CmpCreateRevision k _ _) = k"

fun put_keys :: "'v op list \<Rightarrow> string list" where
  "put_keys [] = []"
| "put_keys (OpPut key _ _ _ _ # us) = key # put_keys us"
| "put_keys (_ # us) = put_keys us"

fun delete_overlaps :: "string list \<Rightarrow> 'v op \<Rightarrow> bool" where
  "delete_overlaps keys (OpDelete key None prev) = (key \<in> set keys)"
| "delete_overlaps keys (OpDelete key (Some e) prev) =
     (length (filter (\<lambda>k. k < key) keys) \<noteq> length (filter (\<lambda>k. k < e) keys))"
| "delete_overlaps keys _ = False"

definition checkRequestDupKeys :: "'v op list \<Rightarrow> error option" where
  "checkRequestDupKeys reqs =
     (let keys = put_keys reqs in
      if \<not> distinct keys then Some ErrDuplicateKey
      else if keys = [] then None
      else if list_ex (delete_overlaps keys) reqs then Some ErrDuplicateKey
      else None)"

definition checkTxnRequest :: "cmp list \<Rightarrow> 'v op list \<Rightarrow> 'v op list \<Rightarrow> error option" where
  "checkTxnRequest cmps succ fail =
     (if MaxOpsPerTxn < length cmps \<or> MaxOpsPerTxn < length succ \<or> MaxOpsPerTxn < length fail
      then Some ErrTooManyOps
      else if list_ex (\<lambda>c. cmp_key c = []) cmps then Some ErrEmptyKey
      else case checkRequestOps succ of Some e \<Rightarrow> Some e | None \<Rightarrow>
           case checkRequestDupKeys succ of Some e \<Rightarrow> Some e | None \<Rightarrow>
           case checkRequestOps fail of Some e \<Rightarrow> Some e | None \<Rightarrow>
           checkRequestDupKeys fail)"

section \<open>Applying requests\<close>

fun holds_rel :: "rel \<Rightarrow> nat \<Rightarrow> nat \<Rightarrow> bool" where
  "holds_rel CEq a b = (a = b)"
| "holds_rel CNe a b = (a \<noteq> b)"
| "holds_rel CGt a b = (a > b)"
| "holds_rel CLt a b = (a < b)"

text \<open>A missing key compares as revision and version 0.\<close>

fun applyCompare :: "'v etcd \<Rightarrow> cmp \<Rightarrow> bool" where
  "applyCompare d (CmpVersion k r n) =
     holds_rel r (case lookup d k of None \<Rightarrow> 0 | Some kv \<Rightarrow> kv_Version kv) n"
| "applyCompare d (CmpModRevision k r n) =
     holds_rel r (case lookup d k of None \<Rightarrow> 0 | Some kv \<Rightarrow> kv_ModRevision kv) n"
| "applyCompare d (CmpCreateRevision k r n) =
     holds_rel r (case lookup d k of None \<Rightarrow> 0 | Some kv \<Rightarrow> kv_CreateRevision kv) n"

definition compareToOps :: "'v etcd \<Rightarrow> cmp list \<Rightarrow> 'v op list \<Rightarrow> 'v op list \<Rightarrow> 'v op list \<times> bool" where
  "compareToOps d cmps succ fail =
     (if list_all (applyCompare d) cmps then (succ, True) else (fail, False))"

fun checkRequestPut :: "'v etcd \<Rightarrow> 'v op list \<Rightarrow> error option" where
  "checkRequestPut d [] = None"
| "checkRequestPut d (OpPut key v l ign prev # reqs) =
     (if ign \<and> lookup d key = None then Some ErrKeyNotFound
      else if l = 0 then checkRequestPut d reqs
      else if l \<notin> set (leases d) then Some ErrLeaseNotFound
      else checkRequestPut d reqs)"
| "checkRequestPut d (_ # reqs) = checkRequestPut d reqs"

fun checkRequestRange :: "'v etcd \<Rightarrow> 'v op list \<Rightarrow> error option" where
  "checkRequestRange d [] = None"
| "checkRequestRange d (OpGet key end r # reqs) =
     (if r = 0 then checkRequestRange d reqs
      else if r > revision d then Some ErrFutureRev
      else checkRequestRange d reqs)"
| "checkRequestRange d (_ # reqs) = checkRequestRange d reqs"

text \<open>The state of a write transaction: the snapshot so far and its events.\<close>

type_synonym 'v txn_state = "'v snapshot \<times> 'v event list"

definition tx_put :: "nat \<Rightarrow> string \<Rightarrow> 'v \<Rightarrow> int \<Rightarrow> 'v txn_state \<Rightarrow> 'v txn_state" where
  "tx_put rv key v l = (\<lambda>(s, evs).
     let old = map_of s key;
         kv = \<lparr> kv_Value = v,
                kv_CreateRevision = (case old of None \<Rightarrow> rv | Some o' \<Rightarrow> kv_CreateRevision o'),
                kv_ModRevision = rv,
                kv_Version = (case old of None \<Rightarrow> 1 | Some o' \<Rightarrow> kv_Version o' + 1),
                kv_Lease = l \<rparr>
     in (snap_put key kv s, evs @ [PutEvent key kv old]))"

definition tx_delete :: "nat \<Rightarrow> string \<Rightarrow> 'v txn_state \<Rightarrow> 'v txn_state" where
  "tx_delete rv key = (\<lambda>(s, evs). (snap_del key s, evs @ [DeleteEvent key rv (map_of s key)]))"

definition tx_range :: "'v etcd \<Rightarrow> string \<Rightarrow> string option \<Rightarrow> nat \<Rightarrow> 'v snapshot \<Rightarrow> 'v snapshot" where
  "tx_range d key end r s =
     filter (\<lambda>p. in_range key end (fst p)) (if r = 0 then s else snapshot_at d r)"

definition tx_revision :: "'v etcd \<Rightarrow> 'v txn_state \<Rightarrow> nat" where
  "tx_revision d tx = (if snd tx = [] then revision d else revision d + 1)"

fun applyUnion :: "'v etcd \<Rightarrow> 'v txn_state \<Rightarrow> 'v op \<Rightarrow> 'v txn_state \<times> 'v response" where
  "applyUnion d tx (OpGet key end r) =
     (tx, RangeResp (tx_revision d tx) (tx_range d key end r (fst tx)))"
| "applyUnion d tx (OpPut key v l ign prev) =
     (let old = map_of (fst tx) key;
          l' = (if ign then (case old of None \<Rightarrow> l | Some kv \<Rightarrow> kv_Lease kv) else l)
      in (tx_put (revision d + 1) key v l' tx,
          PutResp (revision d + 1) (if prev then map_option (Pair key) old else None)))"
| "applyUnion d tx (OpDelete key end prev) =
     (let victims = filter (\<lambda>p. in_range key end (fst p)) (fst tx);
          tx' = fold (\<lambda>p. tx_delete (revision d + 1) (fst p)) victims tx
      in (tx', DeleteResp (tx_revision d tx') (if prev then victims else [])))"

fun applyUnions :: "'v etcd \<Rightarrow> 'v txn_state \<Rightarrow> 'v op list \<Rightarrow> 'v txn_state \<times> 'v response list" where
  "applyUnions d tx [] = (tx, [])"
| "applyUnions d tx (req # reqs) =
     (let (tx', r) = applyUnion d tx req in apsnd ((#) r) (applyUnions d tx' reqs))"

text \<open>The end of a write transaction: a new revision if it changed anything.\<close>

definition tx_end :: "'v etcd \<Rightarrow> 'v txn_state \<Rightarrow> 'v etcd" where
  "tx_end d tx =
     (if snd tx = [] then d else d\<lparr>hist := fst tx # hist d, elog := elog d @ snd tx\<rparr>)"

definition Txn :: "'v etcd \<Rightarrow> cmp list \<Rightarrow> 'v op list \<Rightarrow> 'v op list \<Rightarrow> error + 'v TxnResponse \<times> 'v etcd" where
  "Txn d cmps succ fail =
     (case checkTxnRequest cmps succ fail of Some e \<Rightarrow> Inl e | None \<Rightarrow>
      let (reqs, ok) = compareToOps d cmps succ fail in
      case checkRequestPut d reqs of Some e \<Rightarrow> Inl e | None \<Rightarrow>
      case checkRequestRange d reqs of Some e \<Rightarrow> Inl e | None \<Rightarrow>
      let (tx, resps) = applyUnions d (current d, []) reqs in
      Inr (\<lparr> tr_Revision = tx_revision d tx, tr_Succeeded = ok, tr_Responses = resps \<rparr>, tx_end d tx))"

text \<open>A single operation outside a transaction.\<close>

definition DoOp :: "'v etcd \<Rightarrow> 'v op \<Rightarrow> error + 'v response \<times> 'v etcd" where
  "DoOp d req =
     (case checkRequestOp req of Some e \<Rightarrow> Inl e | None \<Rightarrow>
      case checkRequestPut d [req] of Some e \<Rightarrow> Inl e | None \<Rightarrow>
      case checkRequestRange d [req] of Some e \<Rightarrow> Inl e | None \<Rightarrow>
      let (tx, resp) = applyUnion d (current d, []) req in Inr (resp, tx_end d tx))"

definition LeaseGrant :: "'v etcd \<Rightarrow> int \<Rightarrow> error + 'v etcd" where
  "LeaseGrant d i =
     (if i = 0 then Inl ErrLeaseNotFound
      else if i \<in> set (leases d) then Inl ErrLeaseExists
      else Inr (d\<lparr>leases := i # leases d\<rparr>))"

text \<open>Revoking a lease, or its expiry, deletes its keys in one revision.\<close>

definition LeaseRevoke :: "'v etcd \<Rightarrow> int \<Rightarrow> error + 'v etcd" where
  "LeaseRevoke d i =
     (if i \<notin> set (leases d) then Inl ErrLeaseNotFound
      else let victims = filter (\<lambda>p. kv_Lease (snd p) = i) (current d);
               tx = fold (\<lambda>p. tx_delete (revision d + 1) (fst p)) victims (current d, [])
           in Inr ((tx_end d tx)\<lparr>leases := removeAll i (leases d)\<rparr>))"

text \<open>What any party, this server or another, can ask of the cluster; a refused request changes nothing.\<close>

datatype 'v request =
    ReqTxn "cmp list" "'v op list" "'v op list"
  | ReqOp "'v op"
  | ReqGrant int
  | ReqRevoke int

fun serve :: "'v request \<Rightarrow> 'v etcd \<Rightarrow> 'v etcd" where
  "serve (ReqTxn cmps succ fail) d = (case Txn d cmps succ fail of Inl e \<Rightarrow> d | Inr (r, d') \<Rightarrow> d')"
| "serve (ReqOp req) d = (case DoOp d req of Inl e \<Rightarrow> d | Inr (r, d') \<Rightarrow> d')"
| "serve (ReqGrant i) d = (case LeaseGrant d i of Inl e \<Rightarrow> d | Inr d' \<Rightarrow> d')"
| "serve (ReqRevoke i) d = (case LeaseRevoke d i of Inl e \<Rightarrow> d | Inr d' \<Rightarrow> d')"

section \<open>The store invariant\<close>

text \<open>
  From one revision to the next a key keeps its pair, or goes, or carries the new revision as
  its modification revision and a version above 0.
\<close>

definition succ_ok :: "nat \<Rightarrow> 'v snapshot \<Rightarrow> 'v snapshot \<Rightarrow> bool" where
  "succ_ok rv s s' =
     (\<forall>p \<in> set s'. map_of s (fst p) = Some (snd p) \<or>
        (kv_ModRevision (snd p) = rv \<and> 0 < kv_Version (snd p)))"

fun wf_hist :: "'v snapshot list \<Rightarrow> bool" where
  "wf_hist [] = False"
| "wf_hist [s] = (s = [])"
| "wf_hist (s' # s # ss) =
     (wf_hist (s # ss) \<and> snap_sorted s' \<and> succ_ok (Suc (length (s # ss))) s s')"

definition wf_etcd :: "'v etcd \<Rightarrow> bool" where
  "wf_etcd d = wf_hist (hist d)"

definition extends :: "'v etcd \<Rightarrow> 'v etcd \<Rightarrow> bool" where
  "extends d d' = (wf_etcd d' \<and> (\<exists>ss. hist d' = ss @ hist d))"

lemma wf_init: "wf_etcd init_etcd"
  by (simp add: wf_etcd_def init_etcd_def)

lemma wf_hist_Cons:
  "wf_hist (s' # ss) \<longleftrightarrow>
     (if ss = [] then s' = []
      else wf_hist ss \<and> snap_sorted s' \<and> succ_ok (Suc (length ss)) (hd ss) s')"
  by (cases ss) auto

lemma wf_hist_sorted: "wf_hist ss \<Longrightarrow> s \<in> set ss \<Longrightarrow> snap_sorted s"
  by (induction ss rule: wf_hist.induct) (auto simp: snap_sorted_def)

lemma current_hd: "wf_etcd d \<Longrightarrow> hist d \<noteq> [] \<and> current d = hd (hist d)"
  by (cases "hist d") (auto simp: wf_etcd_def current_def)

lemma wf_current_sorted: "wf_etcd d \<Longrightarrow> snap_sorted (current d)"
  using current_hd [of d] wf_hist_sorted [of "hist d" "hd (hist d)"] by (auto simp: wf_etcd_def)

lemma revision_pos: "wf_etcd d \<Longrightarrow> 0 < revision d"
  using current_hd [of d] by (simp add: revision_def)

lemma hist_mod_bound:
  "wf_hist ss \<Longrightarrow> (k, kv) \<in> set (hd ss) \<Longrightarrow> 1 < kv_ModRevision kv \<and> kv_ModRevision kv \<le> length ss"
proof (induction ss)
  case (Cons s' ss)
  show ?case
  proof (cases "ss = []")
    case False
    with Cons.prems have wf: "wf_hist ss"
      and ok: "map_of (hd ss) k = Some kv \<or> kv_ModRevision kv = Suc (length ss)"
      by (auto simp: wf_hist_Cons succ_ok_def)
    from wf have "0 < length ss" by (cases ss) auto
    with ok Cons.IH [OF wf] show ?thesis
      by (auto dest: map_of_SomeD)
  qed (use Cons.prems in simp)
qed simp

lemma hist_version_pos: "wf_hist ss \<Longrightarrow> (k, kv) \<in> set (hd ss) \<Longrightarrow> 0 < kv_Version kv"
proof (induction ss)
  case (Cons s' ss)
  show ?case
  proof (cases "ss = []")
    case False
    with Cons.prems have "wf_hist ss" "map_of (hd ss) k = Some kv \<or> 0 < kv_Version kv"
      by (auto simp: wf_hist_Cons succ_ok_def)
    with Cons.IH show ?thesis by (auto dest: map_of_SomeD)
  qed (use Cons.prems in simp)
qed simp

lemma version_pos: "wf_etcd d \<Longrightarrow> lookup d k = Some kv \<Longrightarrow> 0 < kv_Version kv"
  using current_hd [of d] hist_version_pos [of "hist d" k kv]
  by (auto simp: wf_etcd_def lookup_def dest: map_of_SomeD)

text \<open>An old pair that is still newest at its own modification revision was there all along.\<close>

lemma hist_unchanged:
  assumes "wf_hist (xs @ ss)" "ss \<noteq> []"
    and "map_of (hd (xs @ ss)) k = Some kv" "kv_ModRevision kv \<le> length ss"
  shows "map_of (hd ss) k = Some kv"
  using assms
proof (induction xs)
  case (Cons s' xs)
  let ?ss = "xs @ ss"
  from Cons.prems have ne: "?ss \<noteq> []" by simp
  with Cons.prems(1) have wf: "wf_hist ?ss" and ok: "succ_ok (Suc (length ?ss)) (hd ?ss) s'"
    by (auto simp: wf_hist_Cons)
  from Cons.prems(3) have "(k, kv) \<in> set s'" by (simp add: map_of_SomeD)
  with ok Cons.prems(4) have "map_of (hd ?ss) k = Some kv"
    by (force simp: succ_ok_def)
  with Cons.IH wf Cons.prems(2,4) show ?case by simp
qed simp

section \<open>Requests keep the invariant\<close>

definition tx_ok :: "'v etcd \<Rightarrow> 'v txn_state \<Rightarrow> bool" where
  "tx_ok d tx = (snap_sorted (fst tx) \<and> succ_ok (revision d + 1) (current d) (fst tx))"

lemma tx_ok_start: "wf_etcd d \<Longrightarrow> tx_ok d (current d, [])"
  using wf_current_sorted [of d] snap_sorted_distinct [of "current d"]
  by (auto simp: tx_ok_def succ_ok_def)

lemma set_snap_put: "p \<in> set (snap_put k v xs) \<Longrightarrow> p = (k, v) \<or> p \<in> set xs"
  by (induction xs rule: snap_put.induct) (auto split: if_splits)

lemma tx_ok_put: "tx_ok d tx \<Longrightarrow> tx_ok d (tx_put (revision d + 1) key v l tx)"
  by (auto simp: tx_ok_def tx_put_def succ_ok_def Let_def snap_sorted_put split: prod.splits option.split
      dest!: set_snap_put)

lemma tx_ok_delete: "tx_ok d tx \<Longrightarrow> tx_ok d (tx_delete rv key tx)"
  using snap_sorted_del [of "fst tx" key]
  by (auto simp: tx_ok_def tx_delete_def succ_ok_def snap_del_def split: prod.splits)

lemma tx_ok_deletes: "tx_ok d tx \<Longrightarrow> tx_ok d (fold (\<lambda>p. tx_delete rv (fst p)) ps tx)"
  by (induction ps arbitrary: tx) (simp_all add: tx_ok_delete)

lemma tx_ok_applyUnion: "tx_ok d tx \<Longrightarrow> tx_ok d (fst (applyUnion d tx req))"
  using tx_ok_put [of d tx] by (cases req) (simp_all add: Let_def tx_ok_deletes)

lemma fst_applyUnions_Cons:
  "fst (applyUnions d tx (req # reqs)) = fst (applyUnions d (fst (applyUnion d tx req)) reqs)"
  by (simp split: prod.split)

lemma tx_ok_applyUnions: "tx_ok d tx \<Longrightarrow> tx_ok d (fst (applyUnions d tx reqs))"
  by (induction reqs arbitrary: tx)
     (simp_all only: fst_applyUnions_Cons applyUnions.simps(1) fst_conv tx_ok_applyUnion)

lemma tx_end_extends: "wf_etcd d \<Longrightarrow> tx_ok d tx \<Longrightarrow> extends d (tx_end d tx)"
  using current_hd [of d]
  by (auto simp: extends_def tx_end_def tx_ok_def wf_etcd_def wf_hist_Cons revision_def)

lemma extends_refl: "wf_etcd d \<Longrightarrow> extends d d"
  by (simp add: extends_def)

lemma extends_trans: "extends d d' \<Longrightarrow> extends d' d'' \<Longrightarrow> extends d d''"
  by (auto simp: extends_def)

lemma extends_leases [simp]: "extends d (d'\<lparr>leases := ls\<rparr>) \<longleftrightarrow> extends d d'"
  by (simp add: extends_def wf_etcd_def)

lemma Txn_extends:
  assumes "wf_etcd d" "Txn d cmps succ fail = Inr (r, d')"
  shows "extends d d'"
proof -
  from assms(2)
  have "d' = tx_end d (fst (applyUnions d (current d, []) (fst (compareToOps d cmps succ fail))))"
    by (auto simp: Txn_def Let_def split: option.splits prod.splits)
  with assms(1) show ?thesis
    using tx_end_extends tx_ok_applyUnions tx_ok_start by blast
qed

lemma DoOp_extends:
  assumes "wf_etcd d" "DoOp d req = Inr (r, d')"
  shows "extends d d'"
proof -
  from assms(2) have "d' = tx_end d (fst (applyUnion d (current d, []) req))"
    by (auto simp: DoOp_def Let_def split: option.splits prod.splits)
  with assms(1) show ?thesis
    using tx_end_extends tx_ok_applyUnion tx_ok_start by blast
qed

lemma LeaseRevoke_extends:
  "wf_etcd d \<Longrightarrow> LeaseRevoke d i = Inr d' \<Longrightarrow> extends d d'"
  by (auto simp: LeaseRevoke_def Let_def tx_end_extends tx_ok_deletes tx_ok_start split: if_splits)

lemma serve_extends: "wf_etcd d \<Longrightarrow> extends d (serve q d)"
  by (cases q) (auto simp: extends_refl LeaseGrant_def
      dest: Txn_extends DoOp_extends LeaseRevoke_extends split: sum.splits if_splits)

lemma serves_extends: "wf_etcd d \<Longrightarrow> extends d (fold serve qs d)"
proof (induction qs arbitrary: d)
  case (Cons q qs)
  from serve_extends [OF Cons.prems, of q] have *: "extends d (serve q d)" .
  then have "wf_etcd (serve q d)" by (simp add: extends_def)
  from Cons.IH [OF this] * show ?case by (auto intro: extends_trans)
qed (simp add: extends_refl)

section \<open>Prefix ranges\<close>

lemma char_le_ff: "(c::char) \<le> CHR 0xff"
proof -
  have "of_char c \<le> (255::nat)" using nat_of_char_less_256 [of c] by linarith
  then show ?thesis by (simp add: less_eq_char_def)
qed

lemma char_succ:
  assumes "c < CHR 0xff"
  shows "x < char_of (of_char c + 1 :: nat) \<longleftrightarrow> x \<le> c"
proof -
  from assms have "of_char c < (255::nat)" by (simp add: less_char_def)
  then have "of_char (char_of (of_char c + 1 :: nat)) = (of_char c + 1 :: nat)"
    by (simp add: of_char_of take_bit_eq_mod)
  then show ?thesis by (auto simp: less_char_def less_eq_char_def)
qed

lemma ffs_le: "replicate n (CHR 0xff) \<le> k \<longleftrightarrow> prefix (replicate n (CHR 0xff)) k"
proof (induction n arbitrary: k)
  case (Suc n)
  show ?case
  proof (cases k)
    case (Cons c cs)
    with Suc [of cs] char_le_ff [of c] show ?thesis
      by (auto simp: less_le)
  qed simp
qed simp

lemma range_split:
  assumes "c < CHR 0xff"
  shows "(c # f \<le> k \<and> k < [char_of (of_char c + 1 :: nat)]) \<longleftrightarrow> (\<exists>k'. k = c # k' \<and> f \<le> k')"
  using assms by (cases k) (auto simp: char_succ [simplified])

lemma range_app: "(xs @ a \<le> k \<and> k < xs @ b) \<longleftrightarrow> (\<exists>k'. k = xs @ k' \<and> a \<le> k' \<and> k' < b)" for a b :: string
proof (induction xs arbitrary: k)
  case (Cons x xs)
  then show ?case by (cases k) (auto)
qed simp

lemma getPrefix_rev_cases:
  "(\<exists>c xs n. getPrefix_rev cs = Some (char_of (of_char c + 1 :: nat) # rev xs) \<and> c < CHR 0xff
      \<and> rev cs = xs @ c # replicate n (CHR 0xff))
   \<or> (getPrefix_rev cs = None \<and> rev cs = replicate (length cs) (CHR 0xff))"
proof (induction cs)
  case (Cons c cs)
  show ?case
  proof (cases "c < CHR 0xff")
    case True
    then show ?thesis
      by (intro disjI1 exI [of _ c] exI [of _ "rev cs"] exI [of _ 0]) simp
  next
    case False
    with char_le_ff [of c] have c: "c = CHR 0xff" by simp
    from Cons.IH show ?thesis
    proof (elim disjE exE conjE)
      fix d xs n
      assume "getPrefix_rev cs = Some (char_of (of_char d + 1 :: nat) # rev xs)" "d < CHR 0xff"
        "rev cs = xs @ d # replicate n (CHR 0xff)"
      then show ?thesis
        using False c
        by (intro disjI1 exI [of _ d] exI [of _ xs] exI [of _ "Suc n"])
           (simp add: replicate_append_same)
    qed (use False c in \<open>simp add: replicate_append_same\<close>)
  qed
qed simp

lemma in_range_prefix:
  assumes "p \<noteq> []"
  shows "in_range p (Some (getPrefix p)) k \<longleftrightarrow> prefix p k"
  using getPrefix_rev_cases [of "rev p"]
proof (elim disjE exE conjE)
  fix c xs n
  assume e: "getPrefix_rev (rev p) = Some (char_of (of_char c + 1 :: nat) # rev xs)"
    and c: "c < CHR 0xff" and p: "rev (rev p) = xs @ c # replicate n (CHR 0xff)"
  let ?c' = "char_of (of_char c + 1 :: nat)"
  from char_succ [OF c, of c] have "c < ?c'" by simp
  moreover have "\<not> c < CHR 0x00" by (simp add: less_char_def)
  ultimately have nz: "?c' \<noteq> CHR 0x00" by metis
  have "in_range p (Some (getPrefix p)) k \<longleftrightarrow> p \<le> k \<and> k < xs @ [?c']"
    using e nz by (auto simp: in_range_def getPrefix_def append_eq_Cons_conv)
  also have "\<dots> \<longleftrightarrow> (\<exists>k'. k = xs @ k' \<and> (\<exists>k''. k' = c # k'' \<and> replicate n (CHR 0xff) \<le> k''))"
    using p by (simp only: rev_rev_ident range_app range_split [OF c])
  also have "\<dots> \<longleftrightarrow> prefix p k"
    using p by (auto simp: ffs_le prefix_def)
  finally show ?thesis .
next
  assume "getPrefix_rev (rev p) = None" "rev (rev p) = replicate (length (rev p)) (CHR 0xff)"
  then show ?thesis
    using ffs_le [of "length p" k] by (simp add: in_range_def getPrefix_def)
qed

section \<open>Sorted snapshots\<close>

lemma map_of_sorted: "snap_sorted s \<Longrightarrow> (k, v) \<in> set s \<longleftrightarrow> map_of s k = Some v"
  by (simp add: snap_sorted_distinct map_of_eq_Some_iff)

lemma sorted_key: "snap_sorted s \<Longrightarrow> filter (\<lambda>p. fst p = k) s = (case map_of s k of None \<Rightarrow> [] | Some v \<Rightarrow> [(k, v)])"
proof (induction s)
  case (Cons p s)
  have "k \<notin> fst ` set s" if "fst p = k" using Cons.prems that by (auto simp: snap_sorted_def)
  then have "filter (\<lambda>q. fst q = k) s = []" if "fst p = k"
    using that by (auto simp: filter_empty_conv rev_image_eqI)
  with Cons show ?case by (cases p) (auto simp: snap_sorted_def split: option.split)
qed simp

lemma one_key: "snap_sorted s \<Longrightarrow> filter (\<lambda>p. in_range k None (fst p)) s = (case map_of s k of None \<Rightarrow> [] | Some v \<Rightarrow> [(k, v)])"
  by (simp add: in_range_def sorted_key)

lemma map_of_filter_sorted:
  assumes "snap_sorted s"
  shows "map_of (filter P s) k = (case map_of s k of None \<Rightarrow> None | Some v \<Rightarrow> if P (k, v) then Some v else None)"
proof -
  have "map_of (filter P s) k = map_of (filter (\<lambda>p. fst p = k) (filter P s)) k"
    by (induction s) auto
  also have "filter (\<lambda>p. fst p = k) (filter P s) = filter P (filter (\<lambda>p. fst p = k) s)"
    by (simp add: conj_commute)
  finally show ?thesis by (simp add: sorted_key [OF assms] split: option.split)
qed

lemma snap_sorted_filter: "snap_sorted s \<Longrightarrow> snap_sorted (filter P s)"
  by (induction s) (auto simp: snap_sorted_def)

text \<open>Deleting several keys of a snapshot.\<close>

lemma deletes_closed:
  "distinct (map fst ps) \<Longrightarrow> fold (\<lambda>p. tx_delete rv (fst p)) ps (s, evs) =
    (filter (\<lambda>p. fst p \<notin> fst ` set ps) s, evs @ map (\<lambda>p. DeleteEvent (fst p) rv (map_of s (fst p))) ps)"
proof (induction ps arbitrary: s evs)
  case (Cons p ps)
  then have "fst q \<noteq> fst p" if "q \<in> set ps" for q using that by (auto simp: rev_image_eqI)
  then have "map (\<lambda>q. DeleteEvent (fst q) rv (map_of (snap_del (fst p) s) (fst q))) ps =
      map (\<lambda>q. DeleteEvent (fst q) rv (map_of s (fst q))) ps"
    by (simp add: store_simps)
  with Cons show ?case by (simp add: tx_delete_def) (auto simp: snap_del_def intro: filter_cong)
qed simp

lemma deletes_filter:
  assumes "snap_sorted s"
  shows "fold (\<lambda>p. tx_delete rv (fst p)) (filter P s) (s, []) =
    (filter (\<lambda>p. \<not> P p) s, map (\<lambda>p. DeleteEvent (fst p) rv (Some (snd p))) (filter P s))"
proof -
  have m: "map_of s (fst p) = Some (snd p)" if "p \<in> set s" for p
    using that assms map_of_sorted [of s "fst p" "snd p"] by simp
  have "(fst p \<in> fst ` set (filter P s)) = P p" if "p \<in> set s" for p
  proof
    assume "fst p \<in> fst ` set (filter P s)"
    then obtain q where "q \<in> set s" "P q" "fst q = fst p" by auto
    with m [OF this(1)] m [OF that] show "P p" by (metis option.inject prod.collapse)
  qed (use that in auto)
  then have "filter (\<lambda>p. fst p \<notin> fst ` set (filter P s)) s = filter (\<lambda>p. \<not> P p) s"
    by (intro filter_cong refl) (simp only:)
  moreover have "map (\<lambda>p. DeleteEvent (fst p) rv (map_of s (fst p))) (filter P s) =
      map (\<lambda>p. DeleteEvent (fst p) rv (Some (snd p))) (filter P s)"
    using m by simp
  ultimately show ?thesis
    using deletes_closed [OF snap_sorted_distinct [OF snap_sorted_filter [OF assms, of P]], of rv s "[]"] by simp
qed

section \<open>The interface optimistic transactions rely on\<close>

text \<open>The modification revision a comparison sees: 0 for a missing key.\<close>

definition modrev :: "'v KeyValue option \<Rightarrow> nat" where
  "modrev o' = (case o' of None \<Rightarrow> 0 | Some kv \<Rightarrow> kv_ModRevision kv)"

definition get_at :: "'v etcd \<Rightarrow> nat \<Rightarrow> string \<Rightarrow> 'v KeyValue option" where
  "get_at d r k = map_of (snapshot_at d r) k"

locale versioned_store =
  fixes get :: "'d \<Rightarrow> string \<Rightarrow> 'v KeyValue option"
    and at :: "'d \<Rightarrow> nat \<Rightarrow> string \<Rightarrow> 'v KeyValue option"
    and now :: "'d \<Rightarrow> nat"
    and ok :: "'d \<Rightarrow> bool"
    and ext :: "'d \<Rightarrow> 'd \<Rightarrow> bool"
  assumes now_pos: "ok d \<Longrightarrow> 0 < now d"
    and at_now: "ok d \<Longrightarrow> at d (now d) k = get d k"
    and ext_ok: "ext d d' \<Longrightarrow> ok d'"
    and ext_now: "ext d d' \<Longrightarrow> now d \<le> now d'"
    and at_stable: "ext d d' \<Longrightarrow> 0 < r \<Longrightarrow> r \<le> now d \<Longrightarrow> at d' r k = at d r k"
    and mod_bound: "ok d \<Longrightarrow> 0 < r \<Longrightarrow> r \<le> now d \<Longrightarrow> at d r k = Some kv \<Longrightarrow>
      0 < kv_ModRevision kv \<and> kv_ModRevision kv \<le> r"
    and unmoved: "ok d \<Longrightarrow> 0 < r \<Longrightarrow> r \<le> now d \<Longrightarrow> get d k = Some kv \<Longrightarrow>
      kv_ModRevision kv \<le> r \<Longrightarrow> at d r k = Some kv"
begin

text \<open>A read at any past revision is still right when the modification revision still matches.\<close>

lemma validated:
  assumes "ok d" "0 < r" "r \<le> now d" "modrev (at d r k) = modrev (get d k)"
  shows "get d k = at d r k"
proof (cases "get d k")
  case None
  with assms mod_bound [of d r k] show ?thesis
    by (cases "at d r k") (auto simp: modrev_def)
next
  case (Some kv)
  with assms mod_bound [of d "now d" k] at_now [of d k] now_pos [of d]
  have "0 < kv_ModRevision kv" by auto
  with Some assms mod_bound [of d r k] have "kv_ModRevision kv \<le> r"
    by (cases "at d r k") (auto simp: modrev_def)
  with Some assms unmoved show ?thesis by metis
qed

lemma validated_later:
  assumes "ext d d'" "0 < r" "r \<le> now d" "modrev (at d r k) = modrev (get d' k)"
  shows "get d' k = at d r k"
  using assms validated [of d' r k] at_stable [of d d' r k] ext_ok [of d d'] ext_now [of d d']
  by simp

end

lemma snapshot_at_drop:
  assumes "wf_etcd d" "0 < r" "r \<le> revision d"
  obtains xs ss where "hist d = xs @ ss" "length ss = r" "snapshot_at d r = hd ss" "ss \<noteq> []"
proof
  show "hist d = take (revision d - r) (hist d) @ drop (revision d - r) (hist d)" by simp
qed (use assms in \<open>auto simp: snapshot_at_def revision_def hd_drop_conv_nth\<close>)

lemma wf_hist_suffix: "wf_hist (xs @ ss) \<Longrightarrow> ss \<noteq> [] \<Longrightarrow> wf_hist ss"
  by (induction xs) (auto simp: wf_hist_Cons split: if_splits)

interpretation etcd_versions: versioned_store lookup get_at revision wf_etcd extends
proof unfold_locales
  fix d :: "'a etcd" and k
  assume wf: "wf_etcd d"
  then show "0 < revision d" by (rule revision_pos)
  show "get_at d (revision d) k = lookup d k"
    using current_hd [OF wf] by (simp add: get_at_def lookup_def snapshot_at_def hd_conv_nth)
next
  fix d d' :: "'a etcd" and r k
  assume ext: "extends d d'"
  then show "wf_etcd d'" by (simp add: extends_def)
  from ext show "revision d \<le> revision d'" by (auto simp: extends_def revision_def)
  assume "0 < r" "r \<le> revision d"
  with ext show "get_at d' r k = get_at d r k"
    by (auto simp: extends_def revision_def get_at_def snapshot_at_def nth_append)
next
  fix d :: "'a etcd" and r k kv
  assume wf: "wf_etcd d" and r: "0 < r" "r \<le> revision d"
  then obtain xs ss where h: "hist d = xs @ ss" "length ss = r" "snapshot_at d r = hd ss" "ss \<noteq> []"
    by (rule snapshot_at_drop)
  with wf have wfs: "wf_hist (xs @ ss)" "wf_hist ss" by (auto simp: wf_etcd_def intro: wf_hist_suffix)
  show "0 < kv_ModRevision kv \<and> kv_ModRevision kv \<le> r" if "get_at d r k = Some kv"
    using hist_mod_bound [OF wfs(2), of k kv] that h by (auto simp: get_at_def dest: map_of_SomeD)
  show "get_at d r k = Some kv" if "lookup d k = Some kv" "kv_ModRevision kv \<le> r"
    using hist_unchanged [OF wfs(1) h(4), of k kv] that h current_hd [OF wf]
    by (simp add: get_at_def lookup_def)
qed

end
