(* ===== verification/Client_World.thy ===== *)
theory Client_World
  imports Irc_Values Etcd_Store
begin

text \<open>
  What one client of the server acts on.  A call of the client code is a function of the
  world: the etcd store, which other parties change between any two requests of this client,
  the answers the environment gives (faults of requests, the state of the session and of the
  client's context, the clock), and what the client has done (messages sent to its connection,
  watchers started, watches cancelled).

  The environment is a list of turns, one per request: the requests of other parties served
  just before it, and whether it fails before or after the store applied it.  After the last
  turn nobody interferes and nothing fails.
\<close>

section \<open>The world\<close>

datatype fault = NoFault | FailBefore error | FailAfter error

text \<open>
  The session and the clock: \<open>ge_ses\<close> is what \<^verbatim>\<open>Session()\<close> returns now, \<open>ge_next\<close> what it returns
  after each further call, and \<open>ge_last\<close> the lease of the session object the server holds,
  ready or lost.
\<close>

record genv =
  ge_ses :: "error + int"
  ge_next :: "(error + int) list"
  ge_last :: int
  ge_clock :: int

text \<open>The goroutines of a client: \<^verbatim>\<open>monitorMsg\<close> and \<^verbatim>\<open>monitorPart\<close> on a key from a revision.\<close>

datatype watch = WatchUser string nat | WatchChan string nat

record world =
  db :: "gob etcd"
  sched :: "(gob request list \<times> fault) list"
  env :: genv
  ctxs :: "error option list"
  out :: "Message list"
  chCancel :: "(string \<times> nat) list"   \<comment> \<open>channel to the number of its watch\<close>
  watches :: "watch list"
  cancelled :: "nat list"

definition Session :: "genv \<Rightarrow> (error + int) \<times> genv" where
  "Session g =
     (case ge_next g of
        [] \<Rightarrow> (ge_ses g, g)
      | s # ss \<Rightarrow> (ge_ses g, g\<lparr>ge_ses := s, ge_next := ss,
          ge_last := (case s of Inl e \<Rightarrow> ge_last g | Inr l \<Rightarrow> l)\<rparr>))"

definition Now :: "genv \<Rightarrow> int \<times> genv" where
  "Now g = (ge_clock g, g\<lparr>ge_clock := ge_clock g + 1\<rparr>)"

section \<open>Actions\<close>

type_synonym 'a io = "world \<Rightarrow> 'a outcome \<times> world"

definition ret :: "'a \<Rightarrow> 'a io" where
  "ret a = (\<lambda>w. (Ok a, w))"

definition panic :: "string \<Rightarrow> 'a io" where
  "panic s = (\<lambda>w. (Panic s, w))"

definition exit :: "int \<Rightarrow> 'a io" where
  "exit n = (\<lambda>w. (Exit n, w))"

definition bnd :: "'a io \<Rightarrow> ('a \<Rightarrow> 'b io) \<Rightarrow> 'b io" where
  "bnd m f = (\<lambda>w. case m w of
      (Ok a, w') \<Rightarrow> f a w'
    | (Panic s, w') \<Rightarrow> (Panic s, w')
    | (Exit n, w') \<Rightarrow> (Exit n, w')
    | (OutOfFuel, w') \<Rightarrow> (OutOfFuel, w'))"

text \<open>\<^verbatim>\<open>x, err := m(); if err != nil \{ return err \}; f(x)\<close>\<close>

definition bndE :: "(error + 'a) io \<Rightarrow> ('a \<Rightarrow> (error + 'b) io) \<Rightarrow> (error + 'b) io" where
  "bndE m f = bnd m (\<lambda>r. case r of Inl e \<Rightarrow> ret (Inl e) | Inr a \<Rightarrow> f a)"

definition lift :: "error + 'a \<Rightarrow> (error + 'a) io" where
  "lift r = ret r"

fun next_turn :: "(gob request list \<times> fault) list \<Rightarrow> gob request list \<times> fault" where
  "next_turn [] = ([], NoFault)"
| "next_turn (t # ts) = t"

text \<open>One request to etcd.\<close>

definition rpc :: "(gob etcd \<Rightarrow> error + 'a \<times> gob etcd) \<Rightarrow> world \<Rightarrow> (error + 'a) \<times> world" where
  "rpc f w =
     (let (reqs, flt) = next_turn (sched w);
          d = fold serve reqs (db w);
          w' = w\<lparr>db := d, sched := tl (sched w)\<rparr>
      in case flt of
           FailBefore e \<Rightarrow> (Inl e, w')
         | NoFault \<Rightarrow> (case f d of Inl e \<Rightarrow> (Inl e, w') | Inr (a, d') \<Rightarrow> (Inr a, w'\<lparr>db := d'\<rparr>))
         | FailAfter e \<Rightarrow> (case f d of Inl _ \<Rightarrow> (Inl e, w') | Inr (a, d') \<Rightarrow> (Inl e, w'\<lparr>db := d'\<rparr>)))"

definition etcd_txn :: "cmp list \<Rightarrow> gob op list \<Rightarrow> gob op list \<Rightarrow> (error + gob TxnResponse) io" where
  "etcd_txn cmps succ fail w = apfst Ok (rpc (\<lambda>d. Txn d cmps succ fail) w)"

definition etcd_do :: "gob op \<Rightarrow> (error + gob response) io" where
  "etcd_do req w = apfst Ok (rpc (\<lambda>d. DoOp d req) w)"

definition get_session :: "(error + int) io" where
  "get_session w = (let (s, g) = Session (env w) in (Ok s, w\<lparr>env := g\<rparr>))"

definition last_lease :: "int io" where
  "last_lease w = (Ok (ge_last (env w)), w)"

definition get_now :: "int io" where
  "get_now w = (let (t, g) = Now (env w) in (Ok t, w\<lparr>env := g\<rparr>))"

text \<open>
  Sending blocks until the writer takes the message or the context is done; the context is
  asked at every send and by \<^verbatim>\<open>ctx.Err()\<close>, and is live after the last answer.
\<close>

definition ctx_Err :: "(error + unit) io" where
  "ctx_Err w =
     (case ctxs w of
        [] \<Rightarrow> (Ok (Inr ()), w)
      | None # cs \<Rightarrow> (Ok (Inr ()), w\<lparr>ctxs := cs\<rparr>)
      | Some e # cs \<Rightarrow> (Ok (Inl e), w\<lparr>ctxs := cs\<rparr>))"

definition SendMsg :: "Message \<Rightarrow> (error + unit) io" where
  "SendMsg m = bndE ctx_Err (\<lambda>_ w. (Ok (Inr ()), w\<lparr>out := out w @ [m]\<rparr>))"

definition Send :: "string \<Rightarrow> string list \<Rightarrow> (error + unit) io" where
  "Send cmd params = SendMsg \<lparr> mPrefix = None, mCommand = cmd, mParams = params \<rparr>"

text \<open>A world in which nobody interferes, nothing fails and the context stays live.\<close>

definition quiet :: "world \<Rightarrow> bool" where
  "quiet w = (sched w = [] \<and> ctxs w = [] \<and> ge_next (env w) = [])"

section \<open>Rules\<close>

lemma bnd_simps [simp]:
  "bnd (ret a) f = f a"
  "bnd (panic s) f = panic s"
  "bnd (exit n) f = exit n"
  by (simp_all add: bnd_def ret_def panic_def exit_def fun_eq_iff)

lemma bndE_simps [simp]:
  "bndE (ret (Inr a)) f = f a"
  "bndE (ret (Inl e)) f = ret (Inl e)"
  "bndE (lift (Inr a)) f = f a"
  "bndE (lift (Inl e)) f = ret (Inl e)"
  by (simp_all add: bndE_def lift_def)

lemma bnd_Ok: "m w = (Ok a, w') \<Longrightarrow> bnd m f w = f a w'"
  by (simp add: bnd_def)

lemma bndE_Ok: "m w = (Ok (Inr a), w') \<Longrightarrow> bndE m f w = f a w'"
  by (simp add: bndE_def bnd_def)

lemma bndE_Err: "m w = (Ok (Inl e), w') \<Longrightarrow> bndE m f w = (Ok (Inl e), w')"
  by (simp add: bndE_def bnd_def ret_def)

lemma quiet_rpc:
  "sched w = [] \<Longrightarrow> rpc f w =
     (case f (db w) of Inl e \<Rightarrow> (Inl e, w) | Inr (a, d') \<Rightarrow> (Inr a, w\<lparr>db := d'\<rparr>))"
  by (simp add: rpc_def split: sum.split)

text \<open>What an action keeps of the store, when the others and each of its own requests keep it.\<close>

definition keeps :: "(gob etcd \<Rightarrow> bool) \<Rightarrow> world \<Rightarrow> bool" where
  "keeps I w = (I (db w) \<and> (\<forall>t \<in> set (sched w). \<forall>d. I d \<longrightarrow> I (fold serve (fst t) d)))"

text \<open>The store that the next request of the client meets.\<close>

definition arrival :: "world \<Rightarrow> gob etcd" where
  "arrival w = fold serve (fst (next_turn (sched w))) (db w)"

lemma keeps_arrival: "keeps I w \<Longrightarrow> I (arrival w)"
  by (cases "sched w") (auto simp: keeps_def arrival_def)

lemma keeps_rpc:
  assumes "keeps I w" "\<And>a d'. f (arrival w) = Inr (a, d') \<Longrightarrow> I (arrival w) \<Longrightarrow> I d'"
  shows "keeps I (snd (rpc f w))"
proof -
  have "set (tl (sched w)) \<subseteq> set (sched w)" by (cases "sched w") auto
  then show ?thesis
    using assms keeps_arrival [OF assms(1)]
    by (auto simp: rpc_def keeps_def arrival_def Let_def split: fault.split sum.split prod.split)
qed

lemma keeps_read:
  "keeps I w \<Longrightarrow> (\<And>d a d'. f d = Inr (a, d') \<Longrightarrow> d' = d) \<Longrightarrow> keeps I (snd (rpc f w))"
  by (erule keeps_rpc) auto

lemma keeps_upd [simp]:
  "keeps I (w\<lparr>env := g\<rparr>) = keeps I w"
  "keeps I (w\<lparr>ctxs := cs\<rparr>) = keeps I w"
  "keeps I (w\<lparr>out := ms\<rparr>) = keeps I w"
  "keeps I (w\<lparr>chCancel := cc\<rparr>) = keeps I w"
  "keeps I (w\<lparr>watches := ws\<rparr>) = keeps I w"
  "keeps I (w\<lparr>cancelled := xs\<rparr>) = keeps I w"
  by (simp_all add: keeps_def)

end
