(* ===== verification/Etcd_Stm.thy ===== *)
theory Etcd_Stm
  imports Client_World
begin

text \<open>
  The software transactional memory of the vendored \<^verbatim>\<open>clientv3/concurrency/stm.go\<close> at the
  isolation level the program uses (\<^verbatim>\<open>Serializable\<close>, with prefetched keys), and \<^verbatim>\<open>doSTM\<close>.

  A transaction body is a Go closure that calls \<^verbatim>\<open>Get\<close>, \<^verbatim>\<open>Rev\<close>, \<^verbatim>\<open>Put\<close> and \<^verbatim>\<open>Del\<close> and
  assigns variables of the enclosing function.  It is a tree of such calls (\<open>prog\<close>); the
  captured variables are a parameter of the body and part of what it returns, and they keep
  the values of a failed attempt when the body is run again.

  This theory holds the model and what a read leaves in the read set; the sequential meaning
  of a body, \<open>run_pure\<close>, is the specification that \<open>Stm_Serial\<close> proves the loop to implement.
\<close>

section \<open>Transaction bodies\<close>

datatype 'x prog =
    Return 'x "error option"
  | PGet string "gob \<Rightarrow> 'x prog"
  | PRev string "nat \<Rightarrow> 'x prog"
  | PPut string gob int bool "'x prog"
  | PDel string "'x prog"
  | PSession "error + int \<Rightarrow> 'x prog"
  | PNow "int \<Rightarrow> 'x prog"

section \<open>The transaction state\<close>

record GetResponse =
  gr_Revision :: nat
  gr_Kvs :: "(string \<times> gob KeyValue) list"

fun GetResponseRange :: "gob response \<Rightarrow> GetResponse" where
  "GetResponseRange (RangeResp r kvs) = \<lparr>gr_Revision = r, gr_Kvs = kvs\<rparr>"
| "GetResponseRange _ = \<lparr>gr_Revision = 0, gr_Kvs = []\<rparr>"

text \<open>The Go maps are kept in key order; the code iterates over them in no particular order.\<close>

record stm =
  rset :: "(string \<times> GetResponse) list"
  wset :: "(string \<times> gob \<times> gob op) list"
  prefetch :: "(string \<times> GetResponse) list"
  getOpts :: nat

definition new_stm :: stm where
  "new_stm = \<lparr>rset = [], wset = [], prefetch = [], getOpts = 0\<rparr>"

fun rset_add :: "string list \<Rightarrow> gob response list \<Rightarrow> (string \<times> GetResponse) list \<Rightarrow>
    (string \<times> GetResponse) list" where
  "rset_add (k # ks) (r # rs) m = rset_add ks rs (snap_put k (GetResponseRange r) m)"
| "rset_add _ _ m = m"

fun wset_get :: "string list \<Rightarrow> (string \<times> gob \<times> gob op) list \<Rightarrow> gob option" where
  "wset_get [] ws = None"
| "wset_get (k # ks) ws = (case map_of ws k of Some (v, _) \<Rightarrow> Some v | None \<Rightarrow> wset_get ks ws)"

definition isKeyCurrent :: "string \<times> GetResponse \<Rightarrow> cmp" where
  "isKeyCurrent = (\<lambda>(k, r). case gr_Kvs r of
      kv # _ \<Rightarrow> CmpModRevision k CEq (kv_ModRevision (snd kv))
    | [] \<Rightarrow> CmpModRevision k CEq 0)"

definition respToValue :: "GetResponse \<Rightarrow> gob" where
  "respToValue r = (case gr_Kvs r of [] \<Rightarrow> Raw [] | kv # _ \<Rightarrow> kv_Value (snd kv))"

fun cached :: "string list \<Rightarrow> (string \<times> GetResponse) list \<Rightarrow> GetResponse option" where
  "cached [] m = None"
| "cached (k # ks) m = (case map_of m k of Some r \<Rightarrow> Some r | None \<Rightarrow> cached ks m)"

definition fetch :: "string list \<Rightarrow> stm \<Rightarrow> world \<Rightarrow> (error + GetResponse) \<times> stm \<times> world" where
  "fetch keys s w =
     (case cached keys (rset s) of
        Some r \<Rightarrow> (Inr r, s, w)
      | None \<Rightarrow>
          (case rpc (\<lambda>d. Txn d [] (map (\<lambda>k. OpGet k None (getOpts s)) keys) []) w of
             (Inl e, w') \<Rightarrow> (Inl e, s, w')
           | (Inr resp, w') \<Rightarrow>
               (Inr (GetResponseRange (hd (tr_Responses resp))),
                s\<lparr>rset := rset_add keys (tr_Responses resp) (rset s)\<rparr>, w')))"

fun load_prefetch :: "string list \<Rightarrow> stm \<Rightarrow> stm" where
  "load_prefetch [] s = s"
| "load_prefetch (k # ks) s =
     load_prefetch ks
       (case map_of (prefetch s) k of
          Some r \<Rightarrow> s\<lparr>prefetch := snap_del k (prefetch s), rset := snap_put k r (rset s)\<rparr>
        | None \<Rightarrow> s)"

definition stm_Get :: "string list \<Rightarrow> stm \<Rightarrow> world \<Rightarrow> (error + gob) \<times> stm \<times> world" where
  "stm_Get keys s w =
     (case wset_get keys (wset s) of
        Some v \<Rightarrow> (Inr v, s, w)
      | None \<Rightarrow>
          let firstRead = (rset s = []) in
          (case fetch keys (load_prefetch keys s) w of
             (Inl e, s', w') \<Rightarrow> (Inl e, s', w')
           | (Inr resp, s', w') \<Rightarrow>
               (Inr (respToValue resp),
                if firstRead then s'\<lparr>getOpts := gr_Revision resp\<rparr> else s', w')))"

definition stm_Rev :: "string \<Rightarrow> stm \<Rightarrow> world \<Rightarrow> (error + nat) \<times> stm \<times> world" where
  "stm_Rev key s w =
     (case stm_Get [key] s w of
        (Inl e, s', w') \<Rightarrow> (Inl e, s', w')
      | (Inr _, s', w') \<Rightarrow>
          (case fetch [key] s' w' of
             (Inl e, s'', w'') \<Rightarrow> (Inl e, s'', w'')
           | (Inr resp, s'', w'') \<Rightarrow>
               (Inr (case gr_Kvs resp of kv # _ \<Rightarrow> kv_ModRevision (snd kv) | [] \<Rightarrow> 0), s'', w'')))"

definition stm_Put :: "string \<Rightarrow> gob \<Rightarrow> int \<Rightarrow> bool \<Rightarrow> stm \<Rightarrow> stm" where
  "stm_Put key v l ign s = s\<lparr>wset := snap_put key (v, OpPut key v l ign False) (wset s)\<rparr>"

definition stm_Del :: "string \<Rightarrow> stm \<Rightarrow> stm" where
  "stm_Del key s = s\<lparr>wset := snap_put key (Raw [], OpDelete key None False) (wset s)\<rparr>"

definition stm_reset :: "stm \<Rightarrow> stm" where
  "stm_reset s = s\<lparr>rset := [], wset := []\<rparr>"

definition puts :: "(string \<times> gob \<times> gob op) list \<Rightarrow> gob op list" where
  "puts ws = map (\<lambda>p. snd (snd p)) ws"

definition commit :: "stm \<Rightarrow> world \<Rightarrow> (error + gob TxnResponse option) \<times> stm \<times> world" where
  "commit s w =
     (let keys = map fst (rset s); getops = map (\<lambda>k. OpGet k None 0) keys in
      case rpc (\<lambda>d. Txn d (map isKeyCurrent (rset s)) (puts (wset s)) getops) w of
        (Inl e, w') \<Rightarrow> (Inl e, s, w')
      | (Inr resp, w') \<Rightarrow>
          if tr_Succeeded resp then (Inr (Some resp), s, w')
          else (let rs = rset_add keys (tr_Responses resp) (rset s) in
                (Inr None, s\<lparr>rset := rs, prefetch := rs, getOpts := 0\<rparr>, w')))"

section \<open>Running a transaction\<close>

text \<open>The left result is the abort that \<^verbatim>\<open>stmError\<close> carries out of the body.\<close>

primrec exec :: "'x prog \<Rightarrow> stm \<Rightarrow> world \<Rightarrow> (error + 'x \<times> error option) \<times> stm \<times> world" where
  "exec (Return x e) s w = (Inr (x, e), s, w)"
| "exec (PGet k f) s w =
     (case stm_Get [k] s w of
        (Inl e, s', w') \<Rightarrow> (Inl e, s', w')
      | (Inr v, s', w') \<Rightarrow> exec (f v) s' w')"
| "exec (PRev k f) s w =
     (case stm_Rev k s w of
        (Inl e, s', w') \<Rightarrow> (Inl e, s', w')
      | (Inr r, s', w') \<Rightarrow> exec (f r) s' w')"
| "exec (PPut k v l ign p) s w = exec p (stm_Put k v l ign s) w"
| "exec (PDel k p) s w = exec p (stm_Del k s) w"
| "exec (PSession f) s w = (let (r, g) = Session (env w) in exec (f r) s (w\<lparr>env := g\<rparr>))"
| "exec (PNow f) s w = (let (t, g) = Now (env w) in exec (f t) s (w\<lparr>env := g\<rparr>))"

text \<open>One round of the loop of \<^verbatim>\<open>runSTM\<close>: stop with a result, or try again.\<close>

datatype 'x round = Stop "error + gob TxnResponse" 'x | Again 'x

definition attempt :: "string list \<Rightarrow> ('x \<Rightarrow> 'x prog) \<Rightarrow> 'x \<Rightarrow> stm \<Rightarrow> world \<Rightarrow> 'x round \<times> stm \<times> world" where
  "attempt pre body x s w =
     (case (if pre = [] then (Inr (Raw []), stm_reset s, w) else stm_Get pre (stm_reset s) w) of
        (Inl e, s1, w1) \<Rightarrow> (Stop (Inl e) x, s1, w1)
      | (Inr _, s1, w1) \<Rightarrow>
          (case exec (body x) s1 w1 of
             (Inl e, s2, w2) \<Rightarrow> (Stop (Inl e) x, s2, w2)
           | (Inr (x', Some e), s2, w2) \<Rightarrow> (Stop (Inl e) x', s2, w2)
           | (Inr (x', None), s2, w2) \<Rightarrow>
               (case commit s2 w2 of
                  (Inl e, s3, w3) \<Rightarrow> (Stop (Inl e) x', s3, w3)
                | (Inr (Some resp), s3, w3) \<Rightarrow> (Stop (Inr resp) x', s3, w3)
                | (Inr None, s3, w3) \<Rightarrow> (Again x', s3, w3))))"

fun runSTM :: "nat \<Rightarrow> string list \<Rightarrow> ('x \<Rightarrow> 'x prog) \<Rightarrow> 'x \<Rightarrow> stm \<Rightarrow> world \<Rightarrow>
    ((error + gob TxnResponse) \<times> 'x) outcome \<times> world" where
  "runSTM 0 pre body x s w = (OutOfFuel, w)"
| "runSTM (Suc n) pre body x s w =
     (case attempt pre body x s w of
        (Stop r x', s', w') \<Rightarrow> (Ok (r, x'), w')
      | (Again x', s', w') \<Rightarrow> runSTM n pre body x' s' w')"

text \<open>\<^verbatim>\<open>doSTM\<close>: the revision of the commit and the captured variables.\<close>

definition doSTM :: "('x \<Rightarrow> 'x prog) \<Rightarrow> string list \<Rightarrow> 'x \<Rightarrow> (error + nat \<times> 'x) io" where
  "doSTM body pre x w =
     (case runSTM (Suc (length (sched w))) pre body x new_stm w of
        (Ok (Inl e, x'), w') \<Rightarrow> (Ok (Inl e), w')
      | (Ok (Inr resp, x'), w') \<Rightarrow> (Ok (Inr (tr_Revision resp, x')), w')
      | (Panic m, w') \<Rightarrow> (Panic m, w')
      | (Exit n, w') \<Rightarrow> (Exit n, w')
      | (OutOfFuel, w') \<Rightarrow> (OutOfFuel, w'))"

section \<open>The sequential meaning of a body\<close>

text \<open>
  The body run by itself on one store: reads see the store under the writes so far, and
  the result is the captured variables, the returned error, and the writes.
\<close>

definition stored :: "gob etcd \<Rightarrow> string \<Rightarrow> gob" where
  "stored d k = (case lookup d k of None \<Rightarrow> Raw [] | Some kv \<Rightarrow> kv_Value kv)"

primrec run_pure :: "'x prog \<Rightarrow> gob etcd \<Rightarrow> (string \<times> gob \<times> gob op) list \<Rightarrow> genv \<Rightarrow>
    ('x \<times> error option) \<times> (string \<times> gob \<times> gob op) list \<times> genv" where
  "run_pure (Return x e) d ws g = ((x, e), ws, g)"
| "run_pure (PGet k f) d ws g =
     run_pure (f (case map_of ws k of Some (v, _) \<Rightarrow> v | None \<Rightarrow> stored d k)) d ws g"
| "run_pure (PRev k f) d ws g = run_pure (f (modrev (lookup d k))) d ws g"
| "run_pure (PPut k v l ign p) d ws g = run_pure p d (snap_put k (v, OpPut k v l ign False) ws) g"
| "run_pure (PDel k p) d ws g = run_pure p d (snap_put k (Raw [], OpDelete k None False) ws) g"
| "run_pure (PSession f) d ws g = (let (r, g') = Session g in run_pure (f r) d ws g')"
| "run_pure (PNow f) d ws g = (let (t, g') = Now g in run_pure (f t) d ws g')"

section \<open>Reads\<close>

lemma applyUnions_gets:
  "applyUnions d tx (map (\<lambda>k. OpGet k None r) ks)
     = (tx, map (\<lambda>k. RangeResp (tx_revision d tx) (tx_range d k None r (fst tx))) ks)"
  by (induction ks) simp_all

lemma checkRequestPut_gets: "checkRequestPut d (map (\<lambda>k. OpGet k e r) ks) = None"
  by (induction ks) simp_all

lemma checkRequestRange_gets:
  "checkRequestRange d (map (\<lambda>k. OpGet k e r) ks)
     = (if ks = [] \<or> r \<le> revision d then None else Some ErrFutureRev)"
  by (induction ks) auto

text \<open>A transaction of reads leaves the store and answers from one snapshot.\<close>

lemma Txn_gets:
  assumes "Txn d [] (map (\<lambda>k. OpGet k None r) ks) [] = Inr (resp, d')"
  shows "d' = d \<and> (ks = [] \<or> r \<le> revision d) \<and> tr_Responses resp
    = map (\<lambda>k. RangeResp (revision d) (tx_range d k None r (current d))) ks"
  using assms
  by (auto simp: Txn_def compareToOps_def applyUnions_gets checkRequestPut_gets
      checkRequestRange_gets tx_end_def tx_revision_def Let_def split: option.splits if_splits)

definition kvs_of :: "string \<Rightarrow> 'v KeyValue option \<Rightarrow> (string \<times> 'v KeyValue) list" where
  "kvs_of k o' = (case o' of None \<Rightarrow> [] | Some kv \<Rightarrow> [(k, kv)])"

lemma range_one:
  "distinct (map fst s) \<Longrightarrow> filter (\<lambda>p. in_range k None (fst p)) s = kvs_of k (map_of s k)"
proof (induction s)
  case (Cons p s)
  have "filter (\<lambda>p. fst p = k) s = []" if "fst p = k"
    using Cons.prems that by (auto simp: filter_empty_conv image_iff)
  with Cons show ?case by (cases p) (auto simp: in_range_def kvs_of_def)
qed (simp add: kvs_of_def)

lemma snapshot_at_sorted: "wf_etcd d \<Longrightarrow> snap_sorted (snapshot_at d r)"
  using wf_current_sorted [of d] wf_hist_sorted [of "hist d"]
  by (auto simp: snapshot_at_def wf_etcd_def revision_def)

lemma tx_range_one:
  assumes "wf_etcd d" "r \<le> revision d"
  shows "tx_range d k None r (current d) = kvs_of k (get_at d (if r = 0 then revision d else r) k)"
  using assms snapshot_at_sorted [OF assms(1)] wf_current_sorted [OF assms(1)]
    etcd_versions.at_now [OF assms(1), of k] revision_pos [OF assms(1)]
  by (simp add: tx_range_def range_one snap_sorted_distinct get_at_def lookup_def)

text \<open>A response that shows a key as it was at some revision the store has had.\<close>

definition rd_ok :: "gob etcd \<Rightarrow> string \<Rightarrow> GetResponse \<Rightarrow> bool" where
  "rd_ok d k resp = (\<exists>r. 0 < r \<and> r \<le> revision d \<and> gr_Kvs resp = kvs_of k (get_at d r k))"

text \<open>A response that shows a key as it is now.\<close>

definition fresh :: "gob etcd \<Rightarrow> string \<Rightarrow> GetResponse \<Rightarrow> bool" where
  "fresh d k resp = (gr_Revision resp = revision d \<and> gr_Kvs resp = kvs_of k (lookup d k))"

lemma rd_ok_extends: "rd_ok d k resp \<Longrightarrow> extends d d' \<Longrightarrow> rd_ok d' k resp"
  using etcd_versions.at_stable [of d d'] etcd_versions.ext_now [of d d']
  unfolding rd_ok_def by (metis le_trans)

lemma fresh_rd_ok: "wf_etcd d \<Longrightarrow> fresh d k resp \<Longrightarrow> rd_ok d k resp"
  unfolding rd_ok_def fresh_def
  by (metis etcd_versions.at_now order_refl revision_pos)

definition resp_mod :: "GetResponse \<Rightarrow> nat" where
  "resp_mod resp = (case gr_Kvs resp of kv # _ \<Rightarrow> kv_ModRevision (snd kv) | [] \<Rightarrow> 0)"

lemma isKeyCurrent_eq: "isKeyCurrent (k, resp) = CmpModRevision k CEq (resp_mod resp)"
  by (simp add: isKeyCurrent_def resp_mod_def split: list.split)

lemma applyCompare_current:
  "applyCompare d (isKeyCurrent (k, resp)) \<longleftrightarrow> modrev (lookup d k) = resp_mod resp"
  by (simp add: isKeyCurrent_eq modrev_def)

lemma resp_mod_kvs_of: "gr_Kvs resp = kvs_of k o' \<Longrightarrow> resp_mod resp = modrev o'"
  by (cases o') (simp_all add: resp_mod_def kvs_of_def modrev_def)

text \<open>A validated read is what the store holds.\<close>

lemma rd_ok_validated:
  assumes "wf_etcd d" "rd_ok d k resp" "applyCompare d (isKeyCurrent (k, resp))"
  shows "gr_Kvs resp = kvs_of k (lookup d k)"
proof -
  from assms(2) obtain r where r: "0 < r" "r \<le> revision d"
    and kvs: "gr_Kvs resp = kvs_of k (get_at d r k)"
    by (auto simp: rd_ok_def)
  with assms(3) have "modrev (get_at d r k) = modrev (lookup d k)"
    by (simp add: applyCompare_current resp_mod_kvs_of)
  from etcd_versions.validated [OF assms(1) r this] kvs show ?thesis by simp
qed

section \<open>The transaction invariant\<close>

definition stm_inv :: "gob etcd \<Rightarrow> stm \<Rightarrow> bool" where
  "stm_inv d s \<longleftrightarrow>
     (\<forall>k resp. map_of (rset s) k = Some resp \<or> map_of (prefetch s) k = Some resp \<longrightarrow> rd_ok d k resp) \<and>
     (\<forall>k. map_of (rset s) k \<noteq> None \<and> map_of (prefetch s) k \<noteq> None \<longrightarrow> map_of (wset s) k \<noteq> None)"

text \<open>What reading keeps: the writes, the entries of the read set, and the rest of the world.\<close>

definition same_io :: "world \<Rightarrow> world \<Rightarrow> bool" where
  "same_io w w' \<longleftrightarrow> out w' = out w \<and> ctxs w' = ctxs w \<and> chCancel w' = chCancel w \<and> watches w' = watches w \<and>
     cancelled w' = cancelled w"

definition reads :: "stm \<Rightarrow> world \<Rightarrow> stm \<Rightarrow> world \<Rightarrow> bool" where
  "reads s w s' w' \<longleftrightarrow>
     stm_inv (db w') s' \<and> extends (db w) (db w') \<and> wset s' = wset s \<and>
     map_of (rset s) \<subseteq>\<^sub>m map_of (rset s') \<and> env w' = env w \<and> same_io w w'"

lemma same_io_refl [simp]: "same_io w w"
  by (simp add: same_io_def)

lemma same_io_trans: "same_io w w' \<Longrightarrow> same_io w' w'' \<Longrightarrow> same_io w w''"
  by (simp add: same_io_def)

lemma reads_trans: "reads s w s' w' \<Longrightarrow> reads s' w' s'' w'' \<Longrightarrow> reads s w s'' w''"
  by (auto simp: reads_def intro: extends_trans same_io_trans map_le_trans)

lemma rpc_frame:
  "env (snd (rpc f w)) = env w \<and> same_io w (snd (rpc f w)) \<and> sched (snd (rpc f w)) = tl (sched w)"
  by (simp add: rpc_def same_io_def Let_def split: prod.split fault.split sum.split)

lemma rpc_extends:
  assumes "wf_etcd (db w)" "\<And>d a d'. wf_etcd d \<Longrightarrow> f d = Inr (a, d') \<Longrightarrow> extends d d'"
  shows "extends (db w) (db (snd (rpc f w)))"
proof -
  have *: "wf_etcd d" if "extends (db w) d" for d
    using that by (simp add: extends_def)
  have "keeps (extends (db w)) w"
    using assms(1) * by (auto simp: keeps_def extends_refl intro: extends_trans serves_extends)
  then have "keeps (extends (db w)) (snd (rpc f w))"
    by (rule keeps_rpc) (use assms(2) * extends_trans in blast)
  then show ?thesis by (simp add: keeps_def)
qed

lemma rpc_Inr:
  assumes "rpc f w = (Inr a, w')"
  obtains d where "d = fold serve (fst (next_turn (sched w))) (db w)" "f d = Inr (a, db w')"
  using assms by (auto simp: rpc_def Let_def split: prod.splits fault.splits sum.splits)

lemma map_of_rset_add [store_simps]:
  "map_of (rset_add ks (map F ks) m) k =
     (if k \<in> set ks then Some (GetResponseRange (F k)) else map_of m k)"
  by (induction ks arbitrary: m) (auto simp: store_simps)

lemma cached_None: "cached ks m = None \<longleftrightarrow> (\<forall>k \<in> set ks. map_of m k = None)"
  by (induction ks) (auto split: option.splits)

lemma wset_get_None: "wset_get ks ws = None \<longleftrightarrow> (\<forall>k \<in> set ks. map_of ws k = None)"
  by (induction ks) (auto split: option.splits)


lemma stm_inv_extends: "stm_inv d s \<Longrightarrow> extends d d' \<Longrightarrow> stm_inv d' s"
  by (auto simp: stm_inv_def intro: rd_ok_extends)

lemma load_prefetch_keeps:
  assumes "stm_inv d s" "\<forall>k \<in> set ks. map_of (wset s) k = None"
  shows "stm_inv d (load_prefetch ks s) \<and> wset (load_prefetch ks s) = wset s
    \<and> getOpts (load_prefetch ks s) = getOpts s
    \<and> map_of (rset s) \<subseteq>\<^sub>m map_of (rset (load_prefetch ks s))
    \<and> map_of (prefetch (load_prefetch ks s)) \<subseteq>\<^sub>m map_of (prefetch s)
    \<and> (\<forall>k \<in> set ks. map_of (prefetch (load_prefetch ks s)) k = None)"
  using assms
proof (induction ks arbitrary: s)
  case (Cons k ks)
  define s1 where "s1 = (case map_of (prefetch s) k of
      Some r \<Rightarrow> s\<lparr>prefetch := snap_del k (prefetch s), rset := snap_put k r (rset s)\<rparr> | None \<Rightarrow> s)"
  have inv: "stm_inv d s1"
    using Cons.prems by (auto simp: s1_def stm_inv_def store_simps split: option.split)
  have w: "wset s1 = wset s" "getOpts s1 = getOpts s" by (auto simp: s1_def split: option.split)
  have le: "map_of (rset s) \<subseteq>\<^sub>m map_of (rset s1)"
    using Cons.prems by (auto simp: s1_def stm_inv_def store_simps map_le_def split: option.split)
  have ple: "map_of (prefetch s1) \<subseteq>\<^sub>m map_of (prefetch s)" and pk: "map_of (prefetch s1) k = None"
    by (auto simp: s1_def store_simps map_le_def split: option.split)
  from Cons.IH [OF inv] Cons.prems(2) w
  have IH: "stm_inv d (load_prefetch ks s1)" "wset (load_prefetch ks s1) = wset s"
    "getOpts (load_prefetch ks s1) = getOpts s"
    "map_of (rset s1) \<subseteq>\<^sub>m map_of (rset (load_prefetch ks s1))"
    "map_of (prefetch (load_prefetch ks s1)) \<subseteq>\<^sub>m map_of (prefetch s1)"
    "\<forall>k \<in> set ks. map_of (prefetch (load_prefetch ks s1)) k = None"
    by simp_all
  have "load_prefetch (k # ks) s = load_prefetch ks s1" by (simp add: s1_def)
  then show ?case
    using IH map_le_trans [OF le IH(4)] map_le_trans [OF IH(5) ple] map_le_None [OF IH(5) pk]
    by simp
qed simp

lemma fetch_reads:
  assumes wf: "wf_etcd (db w)" and inv: "stm_inv (db w) s"
    and pre: "\<forall>k \<in> set keys. map_of (prefetch s) k = None \<or> map_of (wset s) k \<noteq> None"
    and run: "fetch keys s w = (r, s', w')"
  shows "reads s w s' w' \<and> (\<forall>k resp. keys = [k] \<longrightarrow> r = Inr resp \<longrightarrow> map_of (rset s') k = Some resp)"
proof (cases "cached keys (rset s)")
  case (Some resp)
  with run inv wf show ?thesis
    by (auto simp: fetch_def reads_def extends_refl split: option.splits)
next
  case None
  let ?f = "\<lambda>d. Txn d [] (map (\<lambda>k. OpGet k None (getOpts s)) keys) []"
  obtain q w1 where rpc: "rpc ?f w = (q, w1)" by fastforce
  have ext: "extends (db w) (db w1)"
    using rpc_extends [OF wf, of ?f] Txn_extends rpc by fastforce
  have frame: "env w1 = env w" "same_io w w1"
    using rpc_frame [of ?f w] rpc by simp_all
  show ?thesis
  proof (cases q)
    case (Inl e)
    with None run rpc have "s' = s" "w' = w1" "r = Inl e" by (auto simp: fetch_def)
    with ext frame inv show ?thesis by (auto simp: reads_def stm_inv_extends)
  next
    case (Inr resp)
    with rpc obtain d where d: "?f d = Inr (resp, db w1)" by (auto elim: rpc_Inr)
    let ?F = "\<lambda>k. RangeResp (revision d) (tx_range d k None (getOpts s) (current d))"
    from Txn_gets [OF d] have "db w1 = d" and le: "keys = [] \<or> getOpts s \<le> revision d"
      and resps: "tr_Responses resp = map ?F keys" by auto
    with ext have wfd: "wf_etcd d" by (simp add: extends_def)
    from None run rpc Inr have s': "s' = s\<lparr>rset := rset_add keys (tr_Responses resp) (rset s)\<rparr>"
      and w': "w' = w1" and r: "r = Inr (GetResponseRange (hd (tr_Responses resp)))"
      by (auto simp: fetch_def)
    have new: "rd_ok d k (GetResponseRange (?F k))" if "k \<in> set keys" for k
      using le that wfd tx_range_one [OF wfd, of "getOpts s" k] revision_pos [OF wfd]
      by (auto simp: rd_ok_def intro!: exI [of _ "if getOpts s = 0 then revision d else getOpts s"])
    have "stm_inv d s" using inv ext \<open>db w1 = d\<close> stm_inv_extends by blast
    then have "stm_inv d s'"
      using new pre by (auto simp: stm_inv_def s' resps store_simps split: if_splits)
    moreover have "map_of (rset s) \<subseteq>\<^sub>m map_of (rset s')"
      using None by (auto simp: s' resps store_simps map_le_def cached_None)
    ultimately show ?thesis
      using ext frame \<open>db w1 = d\<close> r
      by (auto simp: reads_def w' s' resps store_simps)
  qed
qed

lemma reads_getOpts: "reads s w (s'\<lparr>getOpts := r\<rparr>) w' = reads s w s' w'"
  by (simp add: reads_def stm_inv_def)

lemma stm_Get_reads:
  assumes wf: "wf_etcd (db w)" and inv: "stm_inv (db w) s"
    and run: "stm_Get keys s w = (r, s', w')"
  shows "reads s w s' w' \<and>
    (\<forall>k v. keys = [k] \<longrightarrow> r = Inr v \<longrightarrow>
       (case map_of (wset s) k of
          Some p \<Rightarrow> v = fst p
        | None \<Rightarrow> \<exists>resp. map_of (rset s') k = Some resp \<and> v = respToValue resp))"
proof (cases "wset_get keys (wset s)")
  case (Some v)
  with run inv wf show ?thesis
    by (auto simp: stm_Get_def reads_def extends_refl split: option.splits)
next
  case None
  then have nw: "\<forall>k \<in> set keys. map_of (wset s) k = None" by (simp add: wset_get_None)
  let ?s = "load_prefetch keys s"
  note load = load_prefetch_keeps [OF inv nw]
  obtain q s1 w1 where f: "fetch keys ?s w = (q, s1, w1)" by (metis surj_pair)
  from fetch_reads [OF wf _ _ f] load
  have rd: "reads ?s w s1 w1" and
    one: "\<And>k resp. keys = [k] \<Longrightarrow> q = Inr resp \<Longrightarrow> map_of (rset s1) k = Some resp"
    by auto
  from rd load have "reads s w s1 w1" by (auto simp: reads_def intro: map_le_trans)
  moreover from None run f obtain o' where "w' = w1" "s' = s1 \<or> s' = s1\<lparr>getOpts := o'\<rparr>"
    by (auto simp: stm_Get_def Let_def split: sum.splits if_splits)
  moreover have "q = Inr resp \<longleftrightarrow> (\<exists>v. r = Inr v \<and> v = respToValue resp \<and> q = Inr resp)" for resp
    using None run f by (auto simp: stm_Get_def Let_def split: sum.splits if_splits)
  moreover have "\<exists>resp. q = Inr resp \<and> v = respToValue resp" if "r = Inr v" for v
    using None run f that by (auto simp: stm_Get_def Let_def split: sum.splits if_splits)
  ultimately show ?thesis
    using one nw by (auto simp: reads_getOpts split: option.split)
qed

lemma stm_Rev_reads:
  assumes wf: "wf_etcd (db w)" and inv: "stm_inv (db w) s"
    and run: "stm_Rev k s w = (r, s', w')"
  shows "reads s w s' w' \<and>
    (\<forall>n. r = Inr n \<longrightarrow> (\<exists>resp. map_of (rset s') k = Some resp \<and> n = resp_mod resp))"
proof -
  obtain q s1 w1 where g: "stm_Get [k] s w = (q, s1, w1)" by (metis surj_pair)
  note rd = stm_Get_reads [OF wf inv g]
  show ?thesis
  proof (cases q)
    case (Inl e)
    with run g rd show ?thesis by (auto simp: stm_Rev_def)
  next
    case (Inr v)
    obtain q2 s2 w2 where f: "fetch [k] s1 w1 = (q2, s2, w2)" by (metis surj_pair)
    from rd have wf1: "wf_etcd (db w1)" and inv1: "stm_inv (db w1) s1"
      by (auto simp: reads_def extends_def)
    have "map_of (prefetch s1) k = None \<or> map_of (wset s1) k \<noteq> None"
      using rd inv1 Inr by (cases "map_of (wset s) k") (auto simp: reads_def stm_inv_def)
    with fetch_reads [OF wf1 inv1 _ f] have "reads s1 w1 s2 w2"
      and "\<And>resp. q2 = Inr resp \<Longrightarrow> map_of (rset s2) k = Some resp" by auto
    with run g f Inr rd show ?thesis
      by (auto simp: stm_Rev_def resp_mod_def intro: reads_trans split: sum.splits)
  qed
qed

end
