(* ===== verification/Stm_Serial.thy ===== *)
theory Stm_Serial
  imports Etcd_Stm
begin

text \<open>
  The transaction loop implements its specification: a committed transaction is serializable,
  that is its body run by itself on the store at the moment of the commit gives the same
  captured variables and the same writes; the retry loop ends; and an invariant of the store
  that the bodies and the other parties keep is kept under every interleaving and fault.
\<close>

section \<open>Serializability\<close>

text \<open>Every entry of a read set shows what the store holds.\<close>

definition matches :: "gob etcd \<Rightarrow> (string \<times> GetResponse) list \<Rightarrow> bool" where
  "matches d rs = (\<forall>k resp. map_of rs k = Some resp \<longrightarrow> gr_Kvs resp = kvs_of k (lookup d k))"

lemma matches_value:
  "matches d rs \<Longrightarrow> map_of rs k = Some resp \<Longrightarrow> respToValue resp = stored d k"
  by (cases "lookup d k") (auto simp: matches_def respToValue_def stored_def kvs_of_def)

lemma matches_mod:
  "matches d rs \<Longrightarrow> map_of rs k = Some resp \<Longrightarrow> resp_mod resp = modrev (lookup d k)"
  by (auto simp: matches_def resp_mod_kvs_of)

text \<open>
  The body as it ran, against a store that moved under it, is the body run by itself on any
  store that its read set matches.
\<close>

definition steps :: "stm \<Rightarrow> world \<Rightarrow> stm \<Rightarrow> world \<Rightarrow> bool" where
  "steps s w s' w' \<longleftrightarrow>
     stm_inv (db w') s' \<and> extends (db w) (db w') \<and> map_of (rset s) \<subseteq>\<^sub>m map_of (rset s') \<and> same_io w w'"

lemma reads_steps: "reads s w s' w' \<Longrightarrow> steps s' w' s'' w'' \<Longrightarrow> steps s w s'' w''"
  by (auto simp: reads_def steps_def intro: extends_trans same_io_trans map_le_trans)

lemma reads_is_steps: "reads s w s' w' \<Longrightarrow> steps s w s' w'"
  by (auto simp: reads_def steps_def)

text \<open>An execution reads and returns what the pure run of the body gives on every store that matches its reads.\<close>

definition runs_pure :: "'x prog \<Rightarrow> stm \<Rightarrow> world \<Rightarrow> error + 'x \<times> error option \<Rightarrow> stm \<Rightarrow> world \<Rightarrow> bool" where
  "runs_pure p s w r s' w' \<longleftrightarrow> steps s w s' w' \<and>
    (\<forall>y d. r = Inr y \<longrightarrow> matches d (rset s') \<longrightarrow> run_pure p d (wset s) (env w) = (y, wset s', env w'))"

lemma runs_pure_Get:
  assumes wf: "wf_etcd (db w)" "stm_inv (db w) s" and run: "exec (PGet k f) s w = (r, s', w')"
    and IH: "\<And>v s w. wf_etcd (db w) \<Longrightarrow> stm_inv (db w) s \<Longrightarrow> exec (f v) s w = (r, s', w') \<Longrightarrow> runs_pure (f v) s w r s' w'"
  shows "runs_pure (PGet k f) s w r s' w'"
proof -
  obtain q s1 w1 where g: "stm_Get [k] s w = (q, s1, w1)" by (metis surj_pair)
  note rd = stm_Get_reads [OF wf g]
  show ?thesis
  proof (cases q)
    case (Inl e)
    with run g rd show ?thesis by (auto simp: runs_pure_def intro: reads_is_steps)
  next
    case (Inr v)
    from rd have hyp: "wf_etcd (db w1)" "stm_inv (db w1) s1" by (auto simp: reads_def extends_def)
    have "exec (f v) s1 w1 = (r, s', w')" using run g Inr by simp
    note rest = IH [OF hyp this, unfolded runs_pure_def]
    have "(case map_of (wset s) k of Some (v', _) \<Rightarrow> v' | None \<Rightarrow> stored d k) = v" if "matches d (rset s')" for d
      using rd Inr rest that matches_value [OF that] map_le_Some [of "map_of (rset s1)" "map_of (rset s')" k]
      by (cases "map_of (wset s) k") (auto simp: steps_def)
    with rest rd show ?thesis by (auto intro: reads_steps simp: reads_def runs_pure_def)
  qed
qed

lemma runs_pure_Rev:
  assumes wf: "wf_etcd (db w)" "stm_inv (db w) s" and run: "exec (PRev k f) s w = (r, s', w')"
    and IH: "\<And>v s w. wf_etcd (db w) \<Longrightarrow> stm_inv (db w) s \<Longrightarrow> exec (f v) s w = (r, s', w') \<Longrightarrow> runs_pure (f v) s w r s' w'"
  shows "runs_pure (PRev k f) s w r s' w'"
proof -
  obtain q s1 w1 where g: "stm_Rev k s w = (q, s1, w1)" by (metis surj_pair)
  note rd = stm_Rev_reads [OF wf g]
  show ?thesis
  proof (cases q)
    case (Inl e)
    with run g rd show ?thesis by (auto simp: runs_pure_def intro: reads_is_steps)
  next
    case (Inr n)
    from rd have hyp: "wf_etcd (db w1)" "stm_inv (db w1) s1" by (auto simp: reads_def extends_def)
    have "exec (f n) s1 w1 = (r, s', w')" using run g Inr by simp
    note rest = IH [OF hyp this, unfolded runs_pure_def]
    have "modrev (lookup d k) = n" if "matches d (rset s')" for d
      using rd Inr rest that matches_mod [OF that] map_le_Some [of "map_of (rset s1)" "map_of (rset s')" k]
      by (auto simp: steps_def)
    with rest rd show ?thesis by (auto intro: reads_steps simp: reads_def runs_pure_def)
  qed
qed

lemma exec_runs_pure: "wf_etcd (db w) \<Longrightarrow> stm_inv (db w) s \<Longrightarrow> exec p s w = (r, s', w') \<Longrightarrow> runs_pure p s w r s' w'"
proof (induction p arbitrary: s w)
  case (Return x e)
  then show ?case by (auto simp: runs_pure_def steps_def extends_refl)
next
  case (PGet k f)
  show ?case by (rule runs_pure_Get [OF PGet.prems PGet.IH [OF rangeI]])
next
  case (PRev k f)
  show ?case by (rule runs_pure_Rev [OF PRev.prems PRev.IH [OF rangeI]])
next
  case (PPut k v l ign p)
  have "stm_inv (db w) (stm_Put k v l ign s)" using PPut.prems(2) by (auto simp: stm_inv_def stm_Put_def store_simps)
  from PPut.IH [OF PPut.prems(1) this] PPut.prems(3) show ?case by (simp add: stm_Put_def steps_def runs_pure_def)
next
  case (PDel k p)
  have "stm_inv (db w) (stm_Del k s)" using PDel.prems(2) by (auto simp: stm_inv_def stm_Del_def store_simps)
  from PDel.IH [OF PDel.prems(1) this] PDel.prems(3) show ?case by (simp add: stm_Del_def steps_def runs_pure_def)
next
  case (PSession f)
  obtain a g where "Session (env w) = (a, g)" by fastforce
  with PSession.IH [OF rangeI, of "w\<lparr>env := g\<rparr>" s a] PSession.prems show ?case by (simp add: steps_def same_io_def runs_pure_def)
next
  case (PNow f)
  obtain a g where "Now (env w) = (a, g)" by fastforce
  with PNow.IH [OF rangeI, of "w\<lparr>env := g\<rparr>" s a] PNow.prems show ?case by (simp add: steps_def same_io_def runs_pure_def)
qed

lemma exec_pure:
  assumes "wf_etcd (db w)" "stm_inv (db w) s" "exec p s w = (r, s', w')"
  shows "steps s w s' w' \<and>
    (\<forall>y d. r = Inr y \<longrightarrow> matches d (rset s') \<longrightarrow> run_pure p d (wset s) (env w) = (y, wset s', env w'))"
  using exec_runs_pure [OF assms] unfolding runs_pure_def .

text \<open>The writes of a body applied on their own, in one transaction.\<close>

definition apply_writes :: "gob etcd \<Rightarrow> (string \<times> gob \<times> gob op) list \<Rightarrow> error + gob TxnResponse \<times> gob etcd" where
  "apply_writes d ws = Txn d [] (puts ws) []"

lemma Txn_succeeded:
  assumes "Txn d cmps succ fail = Inr (resp, d')" "tr_Succeeded resp"
  shows "list_all (applyCompare d) cmps \<and> Txn d [] succ [] = Inr (resp, d')"
  using assms
  by (auto simp: Txn_def compareToOps_def checkTxnRequest_def checkRequestDupKeys_def Let_def
      split: option.splits if_splits prod.splits)

lemma Txn_failed:
  assumes "Txn d cmps succ (map (\<lambda>k. OpGet k None 0) ks) = Inr (resp, d')" "\<not> tr_Succeeded resp"
  shows "d' = d \<and> \<not> list_all (applyCompare d) cmps \<and>
    tr_Responses resp = map (\<lambda>k. RangeResp (revision d) (tx_range d k None 0 (current d))) ks"
  using assms
  by (auto simp: Txn_def compareToOps_def applyUnions_gets checkRequestPut_gets
      checkRequestRange_gets tx_end_def tx_revision_def Let_def
      split: option.splits if_splits prod.splits)

lemma current_matches:
  assumes "wf_etcd d" "stm_inv d s" "list_all (applyCompare d) (map isKeyCurrent (rset s))"
  shows "matches d (rset s)"
  unfolding matches_def
proof (intro allI impI)
  fix k resp
  assume *: "map_of (rset s) k = Some resp"
  then have "(k, resp) \<in> set (rset s)" by (rule map_of_SomeD)
  with assms(3) have "applyCompare d (isKeyCurrent (k, resp))" by (auto simp: list_all_iff)
  moreover from * assms(2) have "rd_ok d k resp" by (simp add: stm_inv_def)
  ultimately show "gr_Kvs resp = kvs_of k (lookup d k)" using assms(1) rd_ok_validated by blast
qed

abbreviation commit_txn :: "stm \<Rightarrow> gob etcd \<Rightarrow> error + gob TxnResponse \<times> gob etcd" where
  "commit_txn s \<equiv> (\<lambda>d. Txn d (map isKeyCurrent (rset s)) (puts (wset s))
     (map (\<lambda>k. OpGet k None 0) (map fst (rset s))))"

lemma commit_txn_applies:
  assumes "wf_etcd d" "stm_inv d s" "commit_txn s d = Inr (resp, d')" "tr_Succeeded resp"
  shows "matches d (rset s) \<and> apply_writes d (wset s) = Inr (resp, d')"
  using Txn_succeeded [OF assms(3,4)] current_matches [OF assms(1,2)]
  by (simp add: apply_writes_def)

lemma commit_cases:
  assumes "commit s w = (r, s', w')"
  obtains (failed) e where "r = Inl e" "s' = s" "w' = snd (rpc (commit_txn s) w)"
  | (won) resp where "r = Inr (Some resp)" "s' = s" "w' = snd (rpc (commit_txn s) w)"
      "tr_Succeeded resp" "commit_txn s (arrival w) = Inr (resp, db w')"
  | (retry) resp rs where "r = Inr None" "w' = snd (rpc (commit_txn s) w)" "\<not> tr_Succeeded resp"
      "commit_txn s (arrival w) = Inr (resp, db w')"
      "rs = rset_add (map fst (rset s)) (tr_Responses resp) (rset s)"
      "s' = s\<lparr>rset := rs, prefetch := rs, getOpts := 0\<rparr>"
proof -
  obtain q w1 where rpc: "rpc (commit_txn s) w = (q, w1)" by fastforce
  show thesis
  proof (cases q)
    case (Inl e)
    with assms rpc show thesis by (intro failed) (auto simp: commit_def Let_def)
  next
    case (Inr resp)
    with rpc have d: "commit_txn s (arrival w) = Inr (resp, db w1)"
      by (auto simp: arrival_def elim: rpc_Inr)
    show thesis
    proof (cases "tr_Succeeded resp")
      case True
      with assms rpc Inr d show thesis by (intro won) (auto simp: commit_def Let_def)
    next
      case False
      with assms rpc Inr d show thesis by (intro retry) (auto simp: commit_def Let_def)
    qed
  qed
qed

text \<open>After a failed commit the prefetched entries show the store as it is.\<close>

definition all_fresh :: "gob etcd \<Rightarrow> (string \<times> GetResponse) list \<Rightarrow> bool" where
  "all_fresh d rs = (\<forall>k resp. map_of rs k = Some resp \<longrightarrow> fresh d k resp)"

lemma tx_range_fresh:
  "wf_etcd d \<Longrightarrow> fresh d k (GetResponseRange (RangeResp (revision d) (tx_range d k None 0 (current d))))"
  using tx_range_one [of d 0 k] etcd_versions.at_now [of d k] by (simp add: fresh_def)

lemma commit_retry_fresh:
  assumes "commit s w = (Inr None, s', w')" "wf_etcd (db w)"
  shows "all_fresh (db w') (prefetch s') \<and> getOpts s' = 0 \<and> db w' = arrival w"
  using assms(1)
proof (cases rule: commit_cases)
  case (retry resp rs)
  let ?d = "arrival w"
  have wf: "wf_etcd ?d" using serves_extends [OF assms(2)] by (simp add: arrival_def extends_def)
  let ?F = "\<lambda>k. RangeResp (revision ?d) (tx_range ?d k None 0 (current ?d))"
  from Txn_failed [OF retry(4,3)] have "db w' = ?d" and
    resps: "tr_Responses resp = map ?F (map fst (rset s))"
    by auto
  have keys: "map_of (rset s) k = None" if "k \<notin> set (map fst (rset s))" for k
    using that by (simp add: map_of_eq_None_iff)
  have "fresh ?d k r" if "map_of rs k = Some r" for k r
  proof -
    have "map_of rs k = (if k \<in> set (map fst (rset s)) then Some (GetResponseRange (?F k)) else None)"
      unfolding retry(5) resps map_of_rset_add using keys [of k] by presburger
    with that tx_range_fresh [OF wf, of k] show ?thesis by (simp split: if_splits)
  qed
  with retry \<open>db w' = ?d\<close> show ?thesis by (simp add: all_fresh_def)
qed simp_all


lemma stm_inv_fresh:
  "wf_etcd d \<Longrightarrow> all_fresh d (prefetch s) \<Longrightarrow> stm_inv d (stm_reset s)"
  by (auto simp: stm_inv_def stm_reset_def all_fresh_def intro: fresh_rd_ok)

text \<open>The prefetch of \<^verbatim>\<open>NewSTM\<close> and the body, up to the commit.\<close>

definition run_body :: "string list \<Rightarrow> 'x prog \<Rightarrow> stm \<Rightarrow> world \<Rightarrow>
    (error + 'x \<times> error option) \<times> stm \<times> world" where
  "run_body pre p s w =
     (case (if pre = [] then (Inr (Raw []), stm_reset s, w) else stm_Get pre (stm_reset s) w) of
        (Inl e, s1, w1) \<Rightarrow> (Inl e, s1, w1)
      | (Inr _, s1, w1) \<Rightarrow> exec p s1 w1)"

lemma attempt_run_body:
  "attempt pre body x s w =
     (case run_body pre (body x) s w of
        (Inl e, s2, w2) \<Rightarrow> (Stop (Inl e) x, s2, w2)
      | (Inr (x', Some e), s2, w2) \<Rightarrow> (Stop (Inl e) x', s2, w2)
      | (Inr (x', None), s2, w2) \<Rightarrow>
          (case commit s2 w2 of
             (Inl e, s3, w3) \<Rightarrow> (Stop (Inl e) x', s3, w3)
           | (Inr (Some resp), s3, w3) \<Rightarrow> (Stop (Inr resp) x', s3, w3)
           | (Inr None, s3, w3) \<Rightarrow> (Again x', s3, w3)))"
  by (auto simp: attempt_def run_body_def split: sum.split prod.split)

lemma run_body_pure:
  assumes wf: "wf_etcd (db w)" and fr: "all_fresh (db w) (prefetch s)"
    and run: "run_body pre p s w = (r, s', w')"
  shows "stm_inv (db w') s' \<and> extends (db w) (db w') \<and> same_io w w' \<and>
    (\<forall>y d. r = Inr y \<longrightarrow> matches d (rset s') \<longrightarrow> run_pure p d [] (env w) = (y, wset s', env w'))"
proof -
  let ?q = "if pre = [] then (Inr (Raw []), stm_reset s, w) else stm_Get pre (stm_reset s) w"
  note inv = stm_inv_fresh [OF wf fr]
  obtain q s1 w1 where q: "?q = (q, s1, w1)" by (metis surj_pair)
  have rd: "reads (stm_reset s) w s1 w1"
    using stm_Get_reads [OF wf inv] q inv wf
    by (cases "pre = []") (auto simp: reads_def extends_refl)
  show ?thesis
  proof (cases q)
    case (Inl e)
    with run q rd show ?thesis by (auto simp: run_body_def reads_def)
  next
    case (Inr v)
    from rd have hyp: "wf_etcd (db w1)" "stm_inv (db w1) s1" by (auto simp: reads_def extends_def)
    from Inr run q have "exec p s1 w1 = (r, s', w')" by (simp add: run_body_def)
    from exec_pure [OF hyp this] rd show ?thesis
      by (auto simp: reads_def steps_def stm_reset_def intro: extends_trans same_io_trans)
  qed
qed

text \<open>Until it commits, an attempt keeps what the other parties keep.\<close>

lemma fetch_keeps: "keeps I w \<Longrightarrow> fetch keys s w = (r, s', w') \<Longrightarrow> keeps I w'"
  using keeps_read [of I w "\<lambda>d. Txn d [] (map (\<lambda>k. OpGet k None (getOpts s)) keys) []",
      OF _ Txn_gets [THEN conjunct1]]
  by (auto simp: fetch_def split: option.splits prod.splits sum.splits)

lemma stm_Get_keeps: "keeps I w \<Longrightarrow> stm_Get keys s w = (r, s', w') \<Longrightarrow> keeps I w'"
  by (auto simp: stm_Get_def Let_def split: option.splits prod.splits sum.splits if_splits
      dest: fetch_keeps)

lemma stm_Rev_keeps:
  assumes "keeps I w" "stm_Rev k s w = (r, s', w')"
  shows "keeps I w'"
proof -
  obtain q s1 w1 where g: "stm_Get [k] s w = (q, s1, w1)" by (metis surj_pair)
  obtain q2 s2 w2 where f: "fetch [k] s1 w1 = (q2, s2, w2)" by (metis surj_pair)
  have k: "keeps I w1" by (rule stm_Get_keeps [OF assms(1) g])
  then have "keeps I w2" by (rule fetch_keeps [OF _ f])
  with k assms(2) g f show ?thesis by (auto simp: stm_Rev_def split: sum.splits)
qed

lemma exec_keeps: "keeps I w \<Longrightarrow> exec p s w = (r, s', w') \<Longrightarrow> keeps I w'"
proof (induction p arbitrary: s w)
  case (PGet k f)
  then obtain q s1 w1 where g: "stm_Get [k] s w = (q, s1, w1)" by (metis surj_pair)
  with PGet.prems have k: "keeps I w1" by (blast intro: stm_Get_keeps)
  show ?case using PGet.prems(2) g k PGet.IH [OF rangeI k] by (cases q) auto
next
  case (PRev k f)
  then obtain q s1 w1 where g: "stm_Rev k s w = (q, s1, w1)" by (metis surj_pair)
  with PRev.prems have k: "keeps I w1" by (blast intro: stm_Rev_keeps)
  show ?case using PRev.prems(2) g k PRev.IH [OF rangeI k] by (cases q) auto
next
  case (PSession f)
  obtain a g where g: "Session (env w) = (a, g)" by fastforce
  from PSession.prems(1) have "keeps I (w\<lparr>env := g\<rparr>)" by simp
  from PSession.IH [OF rangeI this] PSession.prems(2) g show ?case by simp
next
  case (PNow f)
  obtain a g where g: "Now (env w) = (a, g)" by fastforce
  from PNow.prems(1) have "keeps I (w\<lparr>env := g\<rparr>)" by simp
  from PNow.IH [OF rangeI this] PNow.prems(2) g show ?case by simp
qed auto

lemma run_body_keeps:
  assumes "keeps I w" "run_body pre p s w = (r, s', w')"
  shows "keeps I w'"
proof -
  let ?q = "if pre = [] then (Inr (Raw []), stm_reset s, w) else stm_Get pre (stm_reset s) w"
  obtain q s1 w1 where q: "?q = (q, s1, w1)" by (metis surj_pair)
  have "keeps I w1" using q assms(1) by (auto split: if_splits dest: stm_Get_keeps)
  with assms(2) q exec_keeps show ?thesis by (cases q) (auto simp: run_body_def)
qed

lemma attempt_committed:
  assumes wf: "wf_etcd (db w)" and fr: "all_fresh (db w) (prefetch s)"
    and run: "attempt pre body x s w = (Stop (Inr resp) x', s', w')"
  obtains d ws where "extends (db w) d" "run_pure (body x) d [] (env w) = ((x', None), ws, env w')"
    "apply_writes d ws = Inr (resp, db w')" "same_io w w'" "\<And>I. keeps I w \<Longrightarrow> I d"
proof -
  obtain r s2 w2 where b: "run_body pre (body x) s w = (r, s2, w2)" by (metis surj_pair)
  from run b obtain s3 w3 where r: "r = Inr (x', None)"
    and c: "commit s2 w2 = (Inr (Some resp), s3, w3)" and w3: "w' = w3"
    by (auto simp: attempt_run_body split: sum.splits prod.splits option.splits)
  note body = run_body_pure [OF wf fr b]
  have wf2: "wf_etcd (db w2)" using body by (simp add: extends_def)
  let ?d = "arrival w2"
  have ext: "extends (db w2) ?d" using serves_extends [OF wf2] by (simp add: arrival_def)
  then have inv: "stm_inv ?d s2" "wf_etcd ?d"
    using body stm_inv_extends by (auto simp: extends_def)
  from c show thesis
  proof (cases rule: commit_cases)
    case (won resp')
    with commit_txn_applies [OF inv(2,1)]
    have "matches ?d (rset s2)" "apply_writes ?d (wset s2) = Inr (resp, db w')"
      by (auto simp: w3)
    moreover have "env w' = env w2" "same_io w2 w'" using won rpc_frame w3 by auto
    moreover have "I ?d" if "keeps I w" for I using keeps_arrival [OF run_body_keeps [OF that b]] .
    ultimately show thesis
      using that [of ?d "wset s2"] body r ext by (auto intro: extends_trans same_io_trans)
  qed simp_all
qed

lemma attempt_again:
  assumes wf: "wf_etcd (db w)" and fr: "all_fresh (db w) (prefetch s)"
    and run: "attempt pre body x s w = (Again x', s', w')"
  shows "extends (db w) (db w') \<and> same_io w w' \<and> all_fresh (db w') (prefetch s') \<and> getOpts s' = 0
    \<and> (\<forall>I. keeps I w \<longrightarrow> keeps I w')"
proof -
  obtain r s2 w2 where b: "run_body pre (body x) s w = (r, s2, w2)" by (metis surj_pair)
  from run b have c: "commit s2 w2 = (Inr None, s', w')"
    by (auto simp: attempt_run_body split: sum.splits prod.splits option.splits)
  have others: "keeps I w'" if "keeps I w" for I
    using c
  proof (cases rule: commit_cases)
    case (retry resp rs)
    from Txn_failed [OF retry(4,3)] have "db w' = arrival w2" by blast
    with keeps_rpc [OF run_body_keeps [OF that b], of "commit_txn s2"] retry(2,4) show ?thesis by simp
  qed simp_all
  note body = run_body_pure [OF wf fr b]
  then have wf2: "wf_etcd (db w2)" by (simp add: extends_def)
  have "same_io w2 w'" using c rpc_frame by (cases rule: commit_cases) auto
  with commit_retry_fresh [OF c wf2] serves_extends [OF wf2] body others show ?thesis
    by (auto simp: arrival_def intro: extends_trans same_io_trans)
qed

text \<open>What the environment answers: closed under asking for the session and the time.\<close>

definition env_closed :: "(genv \<Rightarrow> bool) \<Rightarrow> bool" where
  "env_closed P = (\<forall>g. P g \<longrightarrow> P (snd (Session g)) \<and> P (snd (Now g)))"

lemma env_closed_True: "env_closed (\<lambda>g. True)"
  by (simp add: env_closed_def)

lemma fetch_frame:
  "fetch keys s w = (r, s', w') \<Longrightarrow> env w' = env w \<and> length (sched w') \<le> length (sched w)"
  using rpc_frame [of "\<lambda>d. Txn d [] (map (\<lambda>k. OpGet k None (getOpts s)) keys) []" w]
  by (auto simp: fetch_def split: option.splits prod.splits sum.splits)

lemma stm_Get_frame:
  "stm_Get keys s w = (r, s', w') \<Longrightarrow> env w' = env w \<and> length (sched w') \<le> length (sched w)"
  by (auto simp: stm_Get_def Let_def split: option.splits prod.splits sum.splits if_splits
      dest: fetch_frame)

lemma stm_Rev_frame:
  "stm_Rev k s w = (r, s', w') \<Longrightarrow> env w' = env w \<and> length (sched w') \<le> length (sched w)"
  by (fastforce simp: stm_Rev_def split: prod.splits sum.splits dest: fetch_frame stm_Get_frame)

lemma exec_frame:
  assumes "env_closed P" "P (env w)" "exec p s w = (r, s', w')"
  shows "P (env w') \<and> length (sched w') \<le> length (sched w)"
  using assms(2,3)
proof (induction p arbitrary: s w)
  case (PGet k f)
  obtain q s1 w1 where g: "stm_Get [k] s w = (q, s1, w1)" by (metis surj_pair)
  show ?case
  proof (cases q)
    case (Inl e)
    with PGet.prems stm_Get_frame [OF g] g show ?thesis by auto
  next
    case (Inr v)
    with PGet.prems g have run: "exec (f v) s1 w1 = (r, s', w')" by simp
    from PGet.IH [OF rangeI _ run] PGet.prems stm_Get_frame [OF g] show ?thesis by (auto intro: le_trans)
  qed
next
  case (PRev k f)
  obtain q s1 w1 where g: "stm_Rev k s w = (q, s1, w1)" by (metis surj_pair)
  show ?case
  proof (cases q)
    case (Inl e)
    with PRev.prems stm_Rev_frame [OF g] g show ?thesis by auto
  next
    case (Inr v)
    with PRev.prems g have run: "exec (f v) s1 w1 = (r, s', w')" by simp
    from PRev.IH [OF rangeI _ run] PRev.prems stm_Rev_frame [OF g] show ?thesis by (auto intro: le_trans)
  qed
next
  case (PSession f)
  obtain a g where g: "Session (env w) = (a, g)" by fastforce
  with PSession.prems assms(1) have P: "P (env (w\<lparr>env := g\<rparr>))"
    by (simp add: env_closed_def) (metis snd_conv)
  from PSession.prems g have run: "exec (f a) s (w\<lparr>env := g\<rparr>) = (r, s', w')" by simp
  from PSession.IH [OF rangeI P run] show ?case by simp
next
  case (PNow f)
  obtain a g where g: "Now (env w) = (a, g)" by fastforce
  with PNow.prems assms(1) have P: "P (env (w\<lparr>env := g\<rparr>))"
    by (simp add: env_closed_def) (metis snd_conv)
  from PNow.prems g have run: "exec (f a) s (w\<lparr>env := g\<rparr>) = (r, s', w')" by simp
  from PNow.IH [OF rangeI P run] show ?case by simp
qed auto

lemma run_body_frame:
  assumes "env_closed P" "P (env w)" "run_body pre p s w = (r, s', w')"
  shows "P (env w') \<and> length (sched w') \<le> length (sched w)"
proof -
  let ?q = "if pre = [] then (Inr (Raw []), stm_reset s, w) else stm_Get pre (stm_reset s) w"
  obtain q s1 w1 where q: "?q = (q, s1, w1)" by (metis surj_pair)
  have fr: "env w1 = env w \<and> length (sched w1) \<le> length (sched w)"
    using q stm_Get_frame [of pre "stm_reset s" w] by (cases "pre = []") auto
  show ?thesis
  proof (cases q)
    case (Inl e)
    with assms(2,3) q fr show ?thesis by (auto simp: run_body_def)
  next
    case (Inr v)
    with assms(3) q have "exec p s1 w1 = (r, s', w')" by (simp add: run_body_def)
    from exec_frame [OF assms(1) _ this] assms(2) fr show ?thesis by (auto intro: le_trans)
  qed
qed

lemma commit_frame:
  assumes "commit s w = (r, s', w')"
  shows "env w' = env w \<and> sched w' = tl (sched w)"
  using assms by (cases rule: commit_cases) (simp_all add: rpc_frame)

lemma attempt_frame:
  assumes "env_closed P" "P (env w)" "attempt pre body x s w = (q, s', w')"
  shows "P (env w')"
proof -
  obtain r s2 w2 where b: "run_body pre (body x) s w = (r, s2, w2)" by (metis surj_pair)
  from run_body_frame [OF assms(1,2) b] assms(3) b commit_frame show ?thesis
    by (fastforce simp: attempt_run_body split: sum.splits prod.splits option.splits)
qed

text \<open>A successful run of the loop: some attempt committed, on a store that evolved from the first one.\<close>

lemma runSTM_committed:
  assumes "env_closed P" "P (env w)" "wf_etcd (db w)" "all_fresh (db w) (prefetch s)"
    "runSTM n pre body x s w = (Ok (Inr resp, x'), w')"
  shows "\<exists>d x0 g ws. extends (db w) d \<and> P g \<and> run_pure (body x0) d [] g = ((x', None), ws, env w')
    \<and> apply_writes d ws = Inr (resp, db w') \<and> same_io w w' \<and> (\<forall>I. keeps I w \<longrightarrow> I d)"
  using assms(2-)
proof (induction n arbitrary: x s w)
  case (Suc n)
  obtain q s1 w1 where a: "attempt pre body x s w = (q, s1, w1)" by (metis surj_pair)
  show ?case
  proof (cases q)
    case (Stop r x1)
    with a Suc.prems(4) have "attempt pre body x s w = (Stop (Inr resp) x', s1, w')" by simp
    from attempt_committed [OF Suc.prems(2,3) this] Suc.prems(1) show ?thesis by metis
  next
    case (Again x1)
    with a have a': "attempt pre body x s w = (Again x1, s1, w1)" by simp
    from attempt_again [OF Suc.prems(2,3) a'] attempt_frame [OF assms(1) Suc.prems(1) a]
    have *: "extends (db w) (db w1)" "same_io w w1" "all_fresh (db w1) (prefetch s1)" "P (env w1)"
      "\<And>I. keeps I w \<Longrightarrow> keeps I w1" by auto
    then have "wf_etcd (db w1)" by (simp add: extends_def)
    from a' Suc.prems(4) have "runSTM n pre body x1 s1 w1 = (Ok (Inr resp, x'), w')" by simp
    from Suc.IH [OF *(4) \<open>wf_etcd (db w1)\<close> *(3) this] obtain d x0 g ws where
      "extends (db w1) d" "P g" "run_pure (body x0) d [] g = ((x', None), ws, env w')"
      "apply_writes d ws = Inr (resp, db w')" "same_io w1 w'" "\<forall>I. keeps I w1 \<longrightarrow> I d" by (elim exE conjE)
    with * show ?thesis
      by (intro exI [of _ d] exI [of _ x0] exI [of _ g] exI [of _ ws] conjI allI impI)
         (auto intro: extends_trans same_io_trans)
  qed
qed simp

lemma doSTM_committed:
  assumes "env_closed P" "P (env w)" "wf_etcd (db w)" "doSTM body pre x w = (Ok (Inr (rv, x')), w')"
  shows "\<exists>d x0 g ws resp. extends (db w) d \<and> P g \<and> run_pure (body x0) d [] g = ((x', None), ws, env w')
    \<and> apply_writes d ws = Inr (resp, db w') \<and> tr_Revision resp = rv \<and> same_io w w' \<and> (\<forall>I. keeps I w \<longrightarrow> I d)"
proof -
  from assms(4) obtain resp where
    "runSTM (Suc (length (sched w))) pre body x new_stm w = (Ok (Inr resp, x'), w')" "tr_Revision resp = rv"
    by (auto simp: doSTM_def split: prod.splits outcome.splits sum.splits)
  with runSTM_committed [OF assms(1-3), of new_stm] show ?thesis
    by (fastforce simp: new_stm_def all_fresh_def)
qed

section \<open>Termination of the retry loop\<close>

text \<open>Once nobody interferes, every entry read is current.\<close>

definition calm :: "stm \<Rightarrow> world \<Rightarrow> bool" where
  "calm s w \<longleftrightarrow> sched w = [] \<and> wf_etcd (db w) \<and> all_fresh (db w) (rset s) \<and>
     all_fresh (db w) (prefetch s) \<and> (getOpts s = 0 \<or> getOpts s = revision (db w)) \<and>
     snap_sorted (rset s)"

lemma snap_sorted_rset_add: "snap_sorted m \<Longrightarrow> snap_sorted (rset_add ks rs m)"
  by (induction ks rs m rule: rset_add.induct) (auto simp: snap_sorted_put)

lemma calm_fetch:
  assumes "calm s w" "keys \<noteq> []" "fetch keys s w = (r, s', w')"
  shows "calm s' w' \<and> db w' = db w \<and> (\<forall>resp. r = Inr resp \<longrightarrow> gr_Revision resp = revision (db w))"
proof (cases "cached keys (rset s)")
  case (Some resp)
  have "\<exists>k. map_of (rset s) k = Some resp"
    using Some by (induction keys) (auto split: option.splits)
  with assms Some show ?thesis by (auto simp: fetch_def calm_def all_fresh_def fresh_def)
next
  case None
  let ?f = "\<lambda>d. Txn d [] (map (\<lambda>k. OpGet k None (getOpts s)) keys) []"
  have q: "sched w = []" and wf: "wf_etcd (db w)" using assms(1) by (auto simp: calm_def)
  show ?thesis
  proof (cases "?f (db w)")
    case (Inl e)
    with None assms q show ?thesis by (auto simp: fetch_def quiet_rpc)
  next
    case (Inr p)
    then obtain resp d' where p: "?f (db w) = Inr (resp, d')" by (cases p) auto
    let ?F = "\<lambda>k. RangeResp (revision (db w)) (tx_range (db w) k None (getOpts s) (current (db w)))"
    from Txn_gets [OF p] have "d' = db w" and resps: "tr_Responses resp = map ?F keys" by auto
    have new: "fresh (db w) k (GetResponseRange (?F k))" for k
      using assms(1) tx_range_one [OF wf, of "getOpts s" k] etcd_versions.at_now [OF wf, of k]
      by (auto simp: fresh_def calm_def)
    from None assms q p \<open>d' = db w\<close>
    have "s' = s\<lparr>rset := rset_add keys (tr_Responses resp) (rset s)\<rparr>" "w' = w"
      "r = Inr (GetResponseRange (hd (tr_Responses resp)))"
      by (auto simp: fetch_def quiet_rpc)
    with new assms(1,2) show ?thesis
      by (auto simp: calm_def all_fresh_def resps store_simps hd_map snap_sorted_rset_add split: if_splits)
  qed
qed

lemma calm_load: "calm s w \<Longrightarrow> calm (load_prefetch ks s) w"
proof (induction ks arbitrary: s)
  case (Cons k ks)
  have "calm (case map_of (prefetch s) k of
      Some r \<Rightarrow> s\<lparr>prefetch := snap_del k (prefetch s), rset := snap_put k r (rset s)\<rparr> | None \<Rightarrow> s) w"
    using Cons.prems
    by (auto simp: calm_def all_fresh_def store_simps snap_sorted_put split: option.split)
  from Cons.IH [OF this] show ?case by simp
qed simp

lemma calm_Get:
  assumes "calm s w" "keys \<noteq> []" "stm_Get keys s w = (r, s', w')"
  shows "calm s' w'"
proof -
  obtain q s1 w1 where f: "fetch keys (load_prefetch keys s) w = (q, s1, w1)" by (metis surj_pair)
  from calm_fetch [OF calm_load [OF assms(1)] assms(2) f] assms f show ?thesis
    by (auto simp: stm_Get_def Let_def calm_def split: option.splits sum.splits if_splits)
qed

lemma calm_Rev:
  assumes "calm s w" "stm_Rev k s w = (r, s', w')"
  shows "calm s' w'"
proof -
  obtain q s1 w1 where g: "stm_Get [k] s w = (q, s1, w1)" by (metis surj_pair)
  obtain q2 s2 w2 where f: "fetch [k] s1 w1 = (q2, s2, w2)" by (metis surj_pair)
  from calm_Get [OF assms(1) _ g] calm_fetch [OF _ _ f] assms(2) g f show ?thesis
    by (auto simp: stm_Rev_def split: sum.splits)
qed

lemma calm_exec: "calm s w \<Longrightarrow> exec p s w = (r, s', w') \<Longrightarrow> calm s' w'"
proof (induction p arbitrary: s w)
  case (PGet k f)
  obtain q s1 w1 where g: "stm_Get [k] s w = (q, s1, w1)" by (metis surj_pair)
  then have c: "calm s1 w1" using calm_Get [OF PGet.prems(1) _ g] by simp
  show ?case
  proof (cases q)
    case (Inr v)
    with PGet.prems g have run: "exec (f v) s1 w1 = (r, s', w')" by simp
    from PGet.IH [OF rangeI c run] show ?thesis .
  qed (use PGet.prems g c in simp)
next
  case (PRev k f)
  obtain q s1 w1 where g: "stm_Rev k s w = (q, s1, w1)" by (metis surj_pair)
  then have c: "calm s1 w1" using calm_Rev [OF PRev.prems(1) g] by simp
  show ?case
  proof (cases q)
    case (Inr v)
    with PRev.prems g have run: "exec (f v) s1 w1 = (r, s', w')" by simp
    from PRev.IH [OF rangeI c run] show ?thesis .
  qed (use PRev.prems g c in simp)
next
  case (PSession f)
  obtain a g where "Session (env w) = (a, g)" by fastforce
  with PSession.IH [OF rangeI, of s "w\<lparr>env := g\<rparr>" a] PSession.prems show ?case
    by (auto simp: calm_def)
next
  case (PNow f)
  obtain a g where "Now (env w) = (a, g)" by fastforce
  with PNow.IH [OF rangeI, of s "w\<lparr>env := g\<rparr>" a] PNow.prems show ?case
    by (auto simp: calm_def)
next
  case (PPut k v l ign p)
  have "calm (stm_Put k v l ign s) w" using PPut.prems(1) by (simp add: calm_def stm_Put_def)
  from PPut.IH [OF this] PPut.prems(2) show ?case by simp
next
  case (PDel k p)
  have "calm (stm_Del k s) w" using PDel.prems(1) by (simp add: calm_def stm_Del_def)
  from PDel.IH [OF this] PDel.prems(2) show ?case by simp
qed simp

lemma calm_commit:
  assumes "calm s w"
  shows "commit s w \<noteq> (Inr None, s', w')"
proof
  assume "commit s w = (Inr None, s', w')"
  then show False
  proof (cases rule: commit_cases)
    case (retry resp rs)
    have d: "arrival w = db w" using assms by (simp add: arrival_def calm_def)
    from Txn_failed [OF retry(4,3)] obtain k r where mem: "(k, r) \<in> set (rset s)"
      and no: "\<not> applyCompare (db w) (isKeyCurrent (k, r))"
      by (auto simp: list_all_iff d)
    from mem assms have "map_of (rset s) k = Some r"
      by (simp add: calm_def snap_sorted_distinct)
    with assms have "gr_Kvs r = kvs_of k (lookup (db w) k)"
      by (simp add: calm_def all_fresh_def fresh_def)
    with no show False by (simp add: applyCompare_current resp_mod_kvs_of)
  qed simp_all
qed

lemma attempt_progress:
  assumes wf: "wf_etcd (db w)" and fr: "all_fresh (db w) (prefetch s)" and o0: "getOpts s = 0"
    and run: "attempt pre body x s w = (Again x', s', w')"
  shows "length (sched w') < length (sched w)"
proof -
  obtain r s2 w2 where b: "run_body pre (body x) s w = (r, s2, w2)" by (metis surj_pair)
  from run b have c: "commit s2 w2 = (Inr None, s', w')"
    by (auto simp: attempt_run_body split: sum.splits prod.splits option.splits)
  have le: "length (sched w2) \<le> length (sched w)" and w': "sched w' = tl (sched w2)"
    using run_body_frame [OF env_closed_True _ b] commit_frame [OF c] by auto
  have "sched w \<noteq> []"
  proof
    assume "sched w = []"
    with wf fr o0 have calm: "calm (stm_reset s) w"
      by (simp add: calm_def stm_reset_def all_fresh_def snap_sorted_def)
    have "calm s2 w2"
    proof (cases "pre = []")
      case True
      with b calm show ?thesis by (auto simp: run_body_def dest: calm_exec)
    next
      case False
      obtain q s1 w1 where g: "stm_Get pre (stm_reset s) w = (q, s1, w1)" by (metis surj_pair)
      from calm_Get [OF calm False g] g b False show ?thesis
        by (auto simp: run_body_def split: sum.splits dest: calm_exec)
    qed
    with calm_commit c show False by blast
  qed
  with le w' show ?thesis by (cases "sched w2"; cases "sched w") auto
qed

lemma runSTM_ends:
  assumes "wf_etcd (db w)" "all_fresh (db w) (prefetch s)" "getOpts s = 0" "length (sched w) < n"
  shows "\<exists>r w'. runSTM n pre body x s w = (Ok r, w')"
  using assms
proof (induction n arbitrary: x s w)
  case (Suc n)
  obtain q s1 w1 where a: "attempt pre body x s w = (q, s1, w1)" by (metis surj_pair)
  show ?case
  proof (cases q)
    case (Stop r x1)
    with a show ?thesis by simp
  next
    case (Again x1)
    with a have a': "attempt pre body x s w = (Again x1, s1, w1)" by simp
    from attempt_again [OF Suc.prems(1,2) a'] attempt_progress [OF Suc.prems(1-3) a'] Suc.prems(4)
    have *: "all_fresh (db w1) (prefetch s1)" "getOpts s1 = 0" "wf_etcd (db w1)" "length (sched w1) < n"
      by (auto simp: extends_def)
    from Suc.IH [OF *(3,1,2,4)] a' show ?thesis by simp
  qed
qed simp

lemma doSTM_ends:
  assumes "wf_etcd (db w)"
  shows "\<exists>r w'. doSTM body pre x w = (Ok r, w')"
proof -
  obtain r w' where "runSTM (Suc (length (sched w))) pre body x new_stm w = (Ok r, w')"
    using runSTM_ends [OF assms, of new_stm "Suc (length (sched w))" pre body x]
    by (auto simp: new_stm_def all_fresh_def)
  then show ?thesis by (cases r; cases "fst r") (auto simp: doSTM_def)
qed

section \<open>Invariants of the store under transactions\<close>

lemma attempt_keeps:
  assumes k: "keeps I w" and wfI: "\<And>d. I d \<Longrightarrow> wf_etcd d"
    and fr: "all_fresh (db w) (prefetch s)" and run: "attempt pre body x s w = (q, s', w')"
    and step: "\<And>d ws x' g' resp d'. I d \<Longrightarrow> run_pure (body x) d [] (env w) = ((x', None), ws, g') \<Longrightarrow>
      apply_writes d ws = Inr (resp, d') \<Longrightarrow> I d'"
  shows "keeps I w'"
proof -
  obtain r s2 w2 where b: "run_body pre (body x) s w = (r, s2, w2)" by (metis surj_pair)
  have wf: "wf_etcd (db w)" using k wfI by (auto simp: keeps_def)
  note body = run_body_pure [OF wf fr b]
  have k2: "keeps I w2" using run_body_keeps [OF k b] .
  have commits: "keeps I (snd (rpc (commit_txn s2) w2))" if r: "r = Inr (x', None)" for x'
    using k2
  proof (rule keeps_rpc)
    fix resp d'
    assume c: "commit_txn s2 (arrival w2) = Inr (resp, d')" and I: "I (arrival w2)"
    show "I d'"
    proof (cases "tr_Succeeded resp")
      case True
      have "extends (db w2) (arrival w2)"
        using serves_extends body by (auto simp: arrival_def extends_def)
      with body have "stm_inv (arrival w2) s2" using stm_inv_extends by blast
      from commit_txn_applies [OF wfI [OF I] this c True] body r step [OF I] show ?thesis by blast
    next
      case False
      with Txn_failed [OF c] I show ?thesis by simp
    qed
  qed
  show ?thesis
  proof (cases "\<exists>x'. r = Inr (x', None)")
    case True
    then obtain x' where r: "r = Inr (x', None)" by blast
    obtain c s3 w3 where c: "commit s2 w2 = (c, s3, w3)" by (metis surj_pair)
    then have "w3 = snd (rpc (commit_txn s2) w2)" by (cases rule: commit_cases) auto
    moreover have "w' = w3"
      using run b r c by (auto simp: attempt_run_body split: sum.splits option.splits)
    ultimately show ?thesis using commits [OF r] by simp
  next
    case False
    with run b have "w' = w2"
      by (auto simp: attempt_run_body split: sum.splits prod.splits option.splits)
    with k2 show ?thesis by simp
  qed
qed

text \<open>
  An invariant of the store that the other parties keep, and that the body run by itself keeps,
  is kept by the transaction, whatever the interleaving and the faults.
\<close>

lemma doSTM_keeps:
  assumes "keeps I w" and wfI: "\<And>d. I d \<Longrightarrow> wf_etcd d" and P: "env_closed P" "P (env w)"
    and step: "\<And>d x0 g ws x' g' resp d'. I d \<Longrightarrow> P g \<Longrightarrow>
      run_pure (body x0) d [] g = ((x', None), ws, g') \<Longrightarrow> apply_writes d ws = Inr (resp, d') \<Longrightarrow> I d'"
  shows "keeps I (snd (doSTM body pre x w))"
proof -
  have "keeps I (snd (runSTM n pre body x s w))"
    if "keeps I w" "P (env w)" "all_fresh (db w) (prefetch s)" for n s w x
    using that
  proof (induction n arbitrary: x s w)
    case (Suc n)
    obtain q s1 w1 where a: "attempt pre body x s w = (q, s1, w1)" by (metis surj_pair)
    have k: "keeps I w1"
      using attempt_keeps [OF Suc.prems(1) wfI Suc.prems(3) a] step Suc.prems(2) by blast
    show ?case
    proof (cases q)
      case (Again x1)
      have wf: "wf_etcd (db w)" using Suc.prems(1) wfI by (simp add: keeps_def)
      from a Again have a': "attempt pre body x s w = (Again x1, s1, w1)" by simp
      from attempt_again [OF wf Suc.prems(3) a'] have "all_fresh (db w1) (prefetch s1)" by simp
      from Suc.IH [OF k attempt_frame [OF P(1) Suc.prems(2) a] this] a' show ?thesis by simp
    qed (use a k in simp)
  qed simp
  from this [OF assms(1) P(2), of new_stm "Suc (length (sched w))" x] show ?thesis
    by (auto simp: doSTM_def new_stm_def all_fresh_def split: prod.splits outcome.splits sum.splits)
qed

end
