(* ===== verification/Stm_Effects.thy ===== *)
theory Stm_Effects
  imports Stm_Serial
begin

text \<open>
  What a committed write set does to the store, key by key: values and leases after the
  transaction in terms of those before it.
\<close>

section \<open>The effect of the writes\<close>

text \<open>What the program can see of a key: its value and its lease.\<close>

definition entry :: "gob etcd \<Rightarrow> string \<Rightarrow> (gob \<times> int) option" where
  "entry d k = map_option (\<lambda>kv. (kv_Value kv, kv_Lease kv)) (lookup d k)"

fun write_effect :: "gob op \<Rightarrow> (gob \<times> int) option \<Rightarrow> (gob \<times> int) option" where
  "write_effect (OpPut k v l ign prev) old =
     Some (v, if ign then (case old of None \<Rightarrow> l | Some p \<Rightarrow> snd p) else l)"
| "write_effect (OpDelete k e prev) old = None"
| "write_effect (OpGet k e r) old = old"

text \<open>The shape of a write set.\<close>

definition write_op :: "string \<times> gob \<times> gob op \<Rightarrow> bool" where
  "write_op = (\<lambda>(k, v, wop). (\<exists>l ign. wop = OpPut k v l ign False) \<or> (v = Raw [] \<and> wop = OpDelete k None False))"

definition good_ws :: "(string \<times> gob \<times> gob op) list \<Rightarrow> bool" where
  "good_ws ws = (snap_sorted ws \<and> (\<forall>p \<in> set ws. write_op p))"

lemma good_ws_Nil [simp]: "good_ws []"
  by (simp add: good_ws_def snap_sorted_def)

lemma good_ws_put: "good_ws ws \<Longrightarrow> good_ws (snap_put k (v, OpPut k v l ign False) ws)"
  by (auto simp: good_ws_def snap_sorted_put write_op_def dest!: set_snap_put)

lemma good_ws_del: "good_ws ws \<Longrightarrow> good_ws (snap_put k (Raw [], OpDelete k None False) ws)"
  by (auto simp: good_ws_def snap_sorted_put write_op_def dest!: set_snap_put)

lemma run_pure_good: "run_pure p d ws g = (r, ws', g') \<Longrightarrow> good_ws ws \<Longrightarrow> good_ws ws'"
proof (induction p arbitrary: ws g)
  case (PPut k v l ign p)
  then show ?case using good_ws_put by fastforce
next
  case (PDel k p)
  then show ?case using good_ws_del by fastforce
next
  case (PGet k f)
  then show ?case by (metis rangeI run_pure.simps(2))
next
  case (PRev k f)
  then show ?case by (metis rangeI run_pure.simps(3))
next
  case (PSession f)
  then show ?case by (cases "Session g") (simp, metis rangeI)
next
  case (PNow f)
  then show ?case by (cases "Now g") (simp, metis rangeI)
qed auto

definition tx_entry :: "gob txn_state \<Rightarrow> string \<Rightarrow> (gob \<times> int) option" where
  "tx_entry tx k = map_option (\<lambda>kv. (kv_Value kv, kv_Lease kv)) (map_of (fst tx) k)"

lemma tx_entry_put [store_simps]: "tx_entry (tx_put rv k v l tx) = (tx_entry tx)(k \<mapsto> (v, l))"
  by (auto simp: tx_entry_def tx_put_def store_simps fun_eq_iff Let_def split: prod.split)

lemma tx_entry_delete [store_simps]: "tx_entry (tx_delete rv k tx) = (tx_entry tx)(k := None)"
  by (auto simp: tx_entry_def tx_delete_def store_simps fun_eq_iff split: prod.split)

lemma tx_entry_deletes:
  "tx_entry (fold (\<lambda>p. tx_delete rv (fst p)) ps tx) k' = (if k' \<in> fst ` set ps then None else tx_entry tx k')"
  by (induction ps arbitrary: tx) (auto simp: store_simps)

lemma victims_key:
  "k' \<in> fst ` set (filter (\<lambda>p. in_range k None (fst p)) (fst tx)) \<longleftrightarrow> k' = k \<and> tx_entry tx k \<noteq> None"
  by (force simp: in_range_def tx_entry_def map_of_eq_None_iff)

lemma tx_entry_applyUnion:
  assumes "write_op (k, v, wop)"
  shows "tx_entry (fst (applyUnion d tx wop)) = (tx_entry tx)(k := write_effect wop (tx_entry tx k))"
  using assms
proof (cases wop)
  case (OpPut k' v' l ign prev)
  with assms show ?thesis
    by (auto simp: write_op_def store_simps tx_entry_def fun_eq_iff Let_def split: option.split)
next
  case (OpDelete k' e prev)
  with assms have "wop = OpDelete k None False" by (auto simp: write_op_def)
  then show ?thesis
    using victims_key [of _ k tx]
    by (cases "tx_entry tx k") (auto simp: Let_def tx_entry_deletes fun_eq_iff simp del: set_filter)
qed (auto simp: write_op_def)

lemma tx_entry_applyUnions:
  assumes "\<forall>p \<in> set ws. write_op p" "distinct (map fst ws)"
  shows "tx_entry (fst (applyUnions d tx (puts ws))) k =
    (case map_of ws k of None \<Rightarrow> tx_entry tx k | Some (v, wop) \<Rightarrow> write_effect wop (tx_entry tx k))"
  using assms
proof (induction ws arbitrary: tx)
  case (Cons p ws)
  obtain k0 v wop where p: "p = (k0, v, wop)" by (metis surj_pair)
  let ?tx = "fst (applyUnion d tx wop)"
  have "tx_entry ?tx = (tx_entry tx)(k0 := write_effect wop (tx_entry tx k0))"
    using Cons.prems p tx_entry_applyUnion [of k0 v wop d tx] by simp
  moreover have "map_of ws k0 = None" using Cons.prems(2) p by (auto simp: map_of_eq_None_iff)
  moreover have "fst (applyUnions d tx (puts (p # ws))) = fst (applyUnions d ?tx (puts ws))"
    by (simp add: puts_def p fst_applyUnions_Cons del: applyUnions.simps)
  ultimately show ?case
    using Cons.IH [of ?tx] Cons.prems p by (cases "k = k0") (auto split: option.split)
qed (simp add: puts_def)

text \<open>A transaction without events has not changed its snapshot.\<close>

definition tx_quiet :: "gob etcd \<Rightarrow> gob txn_state \<Rightarrow> bool" where
  "tx_quiet d tx = (snd tx = [] \<longrightarrow> fst tx = current d)"

lemma tx_quiet_deletes: "tx_quiet d tx \<Longrightarrow> tx_quiet d (fold (\<lambda>p. tx_delete rv (fst p)) ps tx)"
proof (induction ps arbitrary: tx)
  case (Cons p ps)
  have "tx_quiet d (tx_delete rv (fst p) tx)" by (simp add: tx_quiet_def tx_delete_def split: prod.split)
  from Cons.IH [OF this] show ?case by simp
qed simp

lemma tx_quiet_applyUnions: "tx_quiet d tx \<Longrightarrow> tx_quiet d (fst (applyUnions d tx reqs))"
proof (induction reqs arbitrary: tx)
  case (Cons req reqs)
  have "tx_quiet d (fst (applyUnion d tx req))"
    using Cons.prems tx_quiet_deletes [OF Cons.prems]
    by (cases req) (simp_all add: tx_quiet_def tx_put_def Let_def split: prod.split)
  from Cons.IH [OF this] show ?case by (simp only: fst_applyUnions_Cons)
qed simp

lemma entry_tx_end: "tx_quiet d tx \<Longrightarrow> entry (tx_end d tx) k = tx_entry tx k"
  by (auto simp: entry_def tx_entry_def tx_end_def tx_quiet_def lookup_def current_def)

lemma leases_tx_end [simp]: "leases (tx_end d tx) = leases d"
  by (simp add: tx_end_def)

text \<open>Revoking a lease removes exactly the keys attached to it.\<close>

lemma revoke_victims:
  "distinct (map fst s) \<Longrightarrow> k \<in> fst ` set (filter (\<lambda>p. kv_Lease (snd p) = i) s) \<longleftrightarrow>
     (\<exists>kv. map_of s k = Some kv \<and> kv_Lease kv = i)"
  by (force simp: image_iff)

lemma LeaseRevoke_entry:
  assumes "LeaseRevoke d i = Inr d'" "wf_etcd d"
  shows "entry d' k = (case entry d k of None \<Rightarrow> None | Some (v, l) \<Rightarrow> if l = i then None else Some (v, l))"
proof -
  let ?tx = "fold (\<lambda>p. tx_delete (revision d + 1) (fst p))
    (filter (\<lambda>p. kv_Lease (snd p) = i) (current d)) (current d, [])"
  have d': "d' = (tx_end d ?tx)\<lparr>leases := removeAll i (leases d)\<rparr>"
    using assms(1) by (auto simp: LeaseRevoke_def Let_def split: if_splits)
  have "tx_quiet d ?tx" by (rule tx_quiet_deletes) (simp add: tx_quiet_def)
  then have "entry d' k = tx_entry ?tx k"
    using entry_tx_end [of d ?tx k] by (simp add: d' entry_def lookup_def current_def)
  also have "\<dots> = (if \<exists>kv. lookup d k = Some kv \<and> kv_Lease kv = i then None else entry d k)"
    using revoke_victims [OF snap_sorted_distinct [OF wf_current_sorted [OF assms(2)]], of k i]
    unfolding tx_entry_deletes by (auto simp: tx_entry_def entry_def lookup_def)
  finally show ?thesis by (auto simp: entry_def split: option.split)
qed

lemma checkRequestPut_None:
  "checkRequestPut d reqs = None \<Longrightarrow> OpPut k v l ign prev \<in> set reqs \<Longrightarrow>
     (ign \<longrightarrow> lookup d k \<noteq> None) \<and> (l = 0 \<or> l \<in> set (leases d))"
  by (induction d reqs rule: checkRequestPut.induct) (auto split: if_splits)

text \<open>Applied writes: every key is written as its last write says, every other key is left.\<close>

lemma apply_writes_entry:
  assumes "apply_writes d ws = Inr (resp, d')" "good_ws ws"
  shows "entry d' k =
    (case map_of ws k of None \<Rightarrow> entry d k | Some (v, wop) \<Rightarrow> write_effect wop (entry d k))"
proof -
  from assms(1) have d': "d' = tx_end d (fst (applyUnions d (current d, []) (puts ws)))"
    by (auto simp: apply_writes_def Txn_def compareToOps_def Let_def split: option.splits prod.splits)
  have "tx_quiet d (current d, [])" by (simp add: tx_quiet_def)
  from entry_tx_end [OF tx_quiet_applyUnions [OF this]]
  have "entry d' k = tx_entry (fst (applyUnions d (current d, []) (puts ws))) k" by (simp add: d')
  also have "\<dots> = (case map_of ws k of None \<Rightarrow> tx_entry (current d, []) k
      | Some (v, wop) \<Rightarrow> write_effect wop (tx_entry (current d, []) k))"
    using assms(2) by (intro tx_entry_applyUnions) (simp_all add: good_ws_def snap_sorted_distinct)
  also have "tx_entry (current d, []) k = entry d k"
    by (simp add: tx_entry_def entry_def lookup_def)
  finally show ?thesis .
qed

lemma apply_writes_ok:
  assumes "apply_writes d ws = Inr (resp, d')" "wf_etcd d"
  shows "wf_etcd d' \<and> extends d d' \<and> leases d' = leases d \<and>
    (\<forall>k v l ign. map_of ws k = Some (v, OpPut k v l ign False) \<longrightarrow>
       (ign \<longrightarrow> lookup d k \<noteq> None) \<and> (l = 0 \<or> l \<in> set (leases d)))"
proof -
  have "extends d d'" using assms by (simp add: apply_writes_def Txn_extends)
  moreover have "leases d' = leases d" and chk: "checkRequestPut d (puts ws) = None"
    using assms(1)
    by (auto simp: apply_writes_def Txn_def compareToOps_def Let_def split: option.splits prod.splits)
  moreover have "OpPut k v l ign False \<in> set (puts ws)" if "map_of ws k = Some (v, OpPut k v l ign False)" for k v l ign
    using map_of_SomeD [OF that] by (force simp: puts_def)
  ultimately show ?thesis
    using checkRequestPut_None [OF chk] unfolding extends_def entry_def by blast
qed

text \<open>The same for a single operation outside a transaction.\<close>

lemma DoOp_write:
  assumes "DoOp d wop = Inr (resp, d')" "write_op (k, v, wop)" "wf_etcd d"
  shows "entry d' = (entry d)(k := write_effect wop (entry d k)) \<and> wf_etcd d' \<and> leases d' = leases d"
proof -
  from assms(1) have d': "d' = tx_end d (fst (applyUnions d (current d, []) [wop]))"
    by (auto simp: DoOp_def fst_applyUnions_Cons Let_def split: option.splits prod.splits)
  have "tx_quiet d (current d, [])" by (simp add: tx_quiet_def)
  from entry_tx_end [OF tx_quiet_applyUnions [OF this, of "[wop]"]]
  have "entry d' = tx_entry (fst (applyUnion d (current d, []) wop))"
    by (simp add: d' fun_eq_iff case_prod_beta)
  moreover have "tx_entry (current d, []) = entry d"
    by (simp add: tx_entry_def entry_def lookup_def fun_eq_iff)
  ultimately show ?thesis
    using tx_entry_applyUnion [OF assms(2), of d "(current d, [])"] DoOp_extends [OF assms(3,1)]
    by (simp add: d' extends_def)
qed

end
