(* ===== verification/Irc_Client.thy ===== *)
theory Irc_Client
  imports Irc_Keys Stm_Effects
begin

text \<open>
  The parts of \<^verbatim>\<open>etcd_client.go\<close> and \<^verbatim>\<open>client.go\<close> that every command uses: the client record,
  the server's configuration, numeric replies (the constants of the vendored \<^verbatim>\<open>irc.v2\<close>), the
  messages to the connection, the helpers with which transaction bodies are written, and what
  any sequence of sends leaves unchanged.
\<close>

section \<open>Numeric replies\<close>

abbreviation RPL_WELCOME :: string where "RPL_WELCOME \<equiv> ''001''"
abbreviation RPL_YOURHOST :: string where "RPL_YOURHOST \<equiv> ''002''"
abbreviation RPL_CREATED :: string where "RPL_CREATED \<equiv> ''003''"
abbreviation RPL_MYINFO :: string where "RPL_MYINFO \<equiv> ''004''"
abbreviation RPL_UMODEIS :: string where "RPL_UMODEIS \<equiv> ''221''"
abbreviation RPL_AWAY :: string where "RPL_AWAY \<equiv> ''301''"
abbreviation RPL_UNAWAY :: string where "RPL_UNAWAY \<equiv> ''305''"
abbreviation RPL_NOWAWAY :: string where "RPL_NOWAWAY \<equiv> ''306''"
abbreviation RPL_WHOISUSER :: string where "RPL_WHOISUSER \<equiv> ''311''"
abbreviation RPL_ENDOFWHO :: string where "RPL_ENDOFWHO \<equiv> ''315''"
abbreviation RPL_ENDOFWHOIS :: string where "RPL_ENDOFWHOIS \<equiv> ''318''"
abbreviation RPL_WHOISCHANNELS :: string where "RPL_WHOISCHANNELS \<equiv> ''319''"
abbreviation RPL_LIST :: string where "RPL_LIST \<equiv> ''322''"
abbreviation RPL_LISTEND :: string where "RPL_LISTEND \<equiv> ''323''"
abbreviation RPL_NOTOPIC :: string where "RPL_NOTOPIC \<equiv> ''331''"
abbreviation RPL_TOPIC :: string where "RPL_TOPIC \<equiv> ''332''"
abbreviation RPL_WHOREPLY :: string where "RPL_WHOREPLY \<equiv> ''352''"
abbreviation RPL_NAMREPLY :: string where "RPL_NAMREPLY \<equiv> ''353''"
abbreviation RPL_ENDOFNAMES :: string where "RPL_ENDOFNAMES \<equiv> ''366''"
abbreviation RPL_MOTD :: string where "RPL_MOTD \<equiv> ''372''"
abbreviation RPL_MOTDSTART :: string where "RPL_MOTDSTART \<equiv> ''375''"
abbreviation RPL_ENDOFMOTD :: string where "RPL_ENDOFMOTD \<equiv> ''376''"
abbreviation RPL_YOUREOPER :: string where "RPL_YOUREOPER \<equiv> ''381''"
abbreviation ERR_NOSUCHNICK :: string where "ERR_NOSUCHNICK \<equiv> ''401''"
abbreviation ERR_NOSUCHCHANNEL :: string where "ERR_NOSUCHCHANNEL \<equiv> ''403''"
abbreviation ERR_CANNOTSENDTOCHAN :: string where "ERR_CANNOTSENDTOCHAN \<equiv> ''404''"
abbreviation ERR_NOTEXTTOSEND :: string where "ERR_NOTEXTTOSEND \<equiv> ''412''"
abbreviation ERR_NOMOTD :: string where "ERR_NOMOTD \<equiv> ''422''"
abbreviation ERR_NICKNAMEINUSE :: string where "ERR_NICKNAMEINUSE \<equiv> ''433''"
abbreviation ERR_USERNOTINCHANNEL :: string where "ERR_USERNOTINCHANNEL \<equiv> ''441''"
abbreviation ERR_NOTONCHANNEL :: string where "ERR_NOTONCHANNEL \<equiv> ''442''"
abbreviation ERR_NEEDMOREPARAMS :: string where "ERR_NEEDMOREPARAMS \<equiv> ''461''"
abbreviation ERR_PASSWDMISMATCH :: string where "ERR_PASSWDMISMATCH \<equiv> ''464''"
abbreviation ERR_BADCHANMASK :: string where "ERR_BADCHANMASK \<equiv> ''476''"
abbreviation ERR_NOCHANMODES :: string where "ERR_NOCHANMODES \<equiv> ''477''"
abbreviation ERR_NOPRIVILEGES :: string where "ERR_NOPRIVILEGES \<equiv> ''481''"
abbreviation ERR_CHANOPRIVSNEEDED :: string where "ERR_CHANOPRIVSNEEDED \<equiv> ''482''"
abbreviation ERR_UMODEUNKNOWNFLAG :: string where "ERR_UMODEUNKNOWNFLAG \<equiv> ''501''"
abbreviation ERR_USERSDONTMATCH :: string where "ERR_USERSDONTMATCH \<equiv> ''502''"

section \<open>Configuration and client\<close>

record Config =
  cfg_NetworkName :: string
  cfg_HostName :: string
  cfg_Motd :: string
  cfg_MaxChannels :: nat
  cfg_MaxBans :: nat
  cfg_NickLen :: nat
  cfg_TopicLen :: nat
  cfg_PinnedUserModes :: string

definition NewConfig :: Config where
  "NewConfig = \<lparr> cfg_NetworkName = ''friendNET'', cfg_HostName = ''hostname'', cfg_Motd = [],
     cfg_MaxChannels = 0, cfg_MaxBans = 0, cfg_NickLen = 0, cfg_TopicLen = 0,
     cfg_PinnedUserModes = [] \<rparr>"

text \<open>
  \<open>ec_cfg\<close> is the configuration of the server the client belongs to, and \<open>ec_spare\<close> the room that
  the runtime's \<^verbatim>\<open>append\<close> leaves behind a reallocated slice.  The connection, the context and
  the cancel functions are part of the world.
\<close>

record etcdClient =
  ec_cfg :: Config
  ec_crev :: nat
  ec_nick :: string
  ec_prefix :: Prefix
  ec_spare :: "nat \<Rightarrow> nat"

definition hostPfx :: "etcdClient \<Rightarrow> Prefix" where
  "hostPfx ec = \<lparr> pName = cfg_HostName (ec_cfg ec), pUser = [], pHost = [] \<rparr>"

definition sendHostMsg :: "etcdClient \<Rightarrow> string \<Rightarrow> string list \<Rightarrow> (error + unit) io" where
  "sendHostMsg ec cmd params =
     SendMsg \<lparr> mPrefix = Some (hostPfx ec), mCommand = cmd, mParams = ec_nick ec # params \<rparr>"

definition needMoreParams :: "etcdClient \<Rightarrow> (error + unit) io" where
  "needMoreParams ec = sendHostMsg ec ERR_NEEDMOREPARAMS [''Need more parameters'']"

definition badChanMask :: "etcdClient \<Rightarrow> string \<Rightarrow> (error + unit) io" where
  "badChanMask ec ch = sendHostMsg ec ERR_BADCHANMASK [ch, ''Bad Channel Mask'']"

definition noSuchChannel :: "etcdClient \<Rightarrow> string \<Rightarrow> (error + unit) io" where
  "noSuchChannel ec ch = sendHostMsg ec ERR_NOSUCHCHANNEL [ch, ''No such channel'']"

definition noSuchNick :: "etcdClient \<Rightarrow> string \<Rightarrow> (error + unit) io" where
  "noSuchNick ec n = sendHostMsg ec ERR_NOSUCHNICK [n, ''No such nick/channel'']"

section \<open>Writing transaction bodies\<close>

text \<open>\<^verbatim>\<open>x, err := decode(v); if err != nil \{ return err \}\<close> inside a body.\<close>

definition pdec :: "error + 'a \<Rightarrow> 'x \<Rightarrow> ('a \<Rightarrow> 'x prog) \<Rightarrow> 'x prog" where
  "pdec r x f = (case r of Inl e \<Rightarrow> Return x (Some e) | Inr a \<Rightarrow> f a)"

lemma pdec_simps [simp]: "pdec (Inl e) x f = Return x (Some e)" "pdec (Inr a) x f = f a"
  by (simp_all add: pdec_def)

text \<open>Index expressions: \<^verbatim>\<open>xs[i]\<close> panics out of range.\<close>

definition index :: "'a list \<Rightarrow> nat \<Rightarrow> 'a io" where
  "index xs i = (if i < length xs then ret (xs ! i) else panic ''index out of range'')"

section \<open>Sends leave the store alone\<close>

lemma keeps_ctx_Err [simp]: "keeps I (snd (ctx_Err w)) = keeps I w"
  by (simp add: ctx_Err_def split: list.split option.split)

lemma keeps_SendMsg [simp]: "keeps I (snd (SendMsg m w)) = keeps I w"
  by (simp add: SendMsg_def bndE_def bnd_def ret_def ctx_Err_def split: list.split option.split)

lemma keeps_sendHostMsg [simp]: "keeps I (snd (sendHostMsg ec cmd ps w)) = keeps I w"
  by (simp add: sendHostMsg_def)

lemma keeps_get_session [simp]: "keeps I (snd (get_session w)) = keeps I w"
  by (simp add: get_session_def split: prod.split)

lemma keeps_bnd:
  assumes "keeps I (snd (m w))" "\<And>a w'. m w = (Ok a, w') \<Longrightarrow> keeps I w' \<Longrightarrow> keeps I (snd (f a w'))"
  shows "keeps I (snd (bnd m f w))"
  using assms by (auto simp: bnd_def split: prod.splits outcome.splits)

lemma keeps_bndE:
  assumes "keeps I (snd (m w))" "\<And>a w'. m w = (Ok (Inr a), w') \<Longrightarrow> keeps I w' \<Longrightarrow> keeps I (snd (f a w'))"
  shows "keeps I (snd (bndE m f w))"
  unfolding bndE_def using assms by (intro keeps_bnd) (auto simp: ret_def split: sum.split)

lemma keeps_ret [simp]: "keeps I (snd (ret a w)) = keeps I w"
  "keeps I (snd (panic s w)) = keeps I w"
  "keeps I (snd (exit n w)) = keeps I w"
  by (simp_all add: ret_def panic_def exit_def)

lemma keeps_etcd_txn_gets:
  assumes "keeps I w"
  shows "keeps I (snd (etcd_txn [] (map (\<lambda>k. OpGet k None r) ks) [] w))"
proof -
  have "keeps I (snd (rpc (\<lambda>d. Txn d [] (map (\<lambda>k. OpGet k None r) ks) []) w))"
    using assms Txn_gets by (intro keeps_read) blast+
  then show ?thesis by (simp add: etcd_txn_def)
qed

lemma DoOp_get: "DoOp d (OpGet k e r) = Inr (resp, d') \<Longrightarrow> d' = d"
  by (auto simp: DoOp_def tx_end_def split: if_splits)

lemma keeps_etcd_get:
  assumes "keeps I w"
  shows "keeps I (snd (etcd_do (OpGet k e r) w))"
proof -
  have "keeps I (snd (rpc (\<lambda>d. DoOp d (OpGet k e r)) w))"
    using assms DoOp_get by (intro keeps_read) blast+
  then show ?thesis by (simp add: etcd_do_def)
qed

end
