(* ===== verification/Client_Queries.thy ===== *)
theory Client_Queries
  imports Irc_Client
begin

text \<open>
  The commands of \<^verbatim>\<open>etcd_client.go\<close> that only read the store: user lookups by mask, channel and
  nick, \<^verbatim>\<open>NAMES\<close>, \<^verbatim>\<open>WHO\<close>, \<^verbatim>\<open>WHOIS\<close>, \<^verbatim>\<open>LIST\<close>, \<^verbatim>\<open>PING\<close> and \<^verbatim>\<open>DIE\<close>.  Every index expression
  and nil dereference of the code is a panic of the model.
\<close>

section \<open>Looking users up\<close>

abbreviation kvs_of_resp :: "gob response \<Rightarrow> (string \<times> gob KeyValue) list" where
  "kvs_of_resp r \<equiv> gr_Kvs (GetResponseRange r)"

text \<open>\<^verbatim>\<open>for _, kv := range kvs \{ x, err := decode(kv.Value) ... \}\<close>\<close>

fun decode_kvs :: "(gob \<Rightarrow> error + 'a) \<Rightarrow> (string \<times> gob KeyValue) list \<Rightarrow> error + 'a list" where
  "decode_kvs decode [] = Inr []"
| "decode_kvs decode (kv # kvs) =
     (case decode (kv_Value (snd kv)) of
        Inl e \<Rightarrow> Inl e
      | Inr a \<Rightarrow> (case decode_kvs decode kvs of Inl e \<Rightarrow> Inl e | Inr as \<Rightarrow> Inr (a # as)))"

definition get_prefix :: "string \<Rightarrow> nat \<Rightarrow> gob op" where
  "get_prefix key r = (let (k, e) = WithPrefix key in OpGet k e r)"

definition users :: "etcdClient \<Rightarrow> nat \<Rightarrow> (error + UserValue list) io" where
  "users ec r =
     bndE (etcd_txn [] [get_prefix (keyUserCtl []) r, OpGet (keyUserCtl (ec_nick ec)) None r] [])
       (\<lambda>resp. bnd (index (tr_Responses resp) 1) (\<lambda>resp1.
          bnd (index (kvs_of_resp resp1) 0) (\<lambda>meKv.
          bndE (lift (decodeUserValue (kv_Value (snd meKv)))) (\<lambda>me.
          bnd (index (tr_Responses resp) 0) (\<lambda>resp0.
          bndE (lift (decode_kvs decodeUserValue (kvs_of_resp resp0))) (\<lambda>us.
          ret (Inr (pruneInvisible us me))))))))"

definition userKeysFromNicks :: "string list \<Rightarrow> nat \<Rightarrow> (error + (string \<times> gob KeyValue) option list) io" where
  "userKeysFromNicks ns r =
     bndE (etcd_txn [] (map (\<lambda>n. OpGet (keyUserCtl n) None r) ns) []) (\<lambda>resp.
       ret (Inr (map (\<lambda>q. case kvs_of_resp q of [] \<Rightarrow> None | kv # _ \<Rightarrow> Some kv) (tr_Responses resp))))"

text \<open>The loop of \<^verbatim>\<open>usersFromNicks\<close>: a nick without a key is a nil entry, and is dereferenced.\<close>

fun deref_users :: "(string \<times> gob KeyValue) option list \<Rightarrow> (error + UserValue list) io" where
  "deref_users [] = ret (Inr [])"
| "deref_users (None # kvs) = panic ''nil pointer dereference''"
| "deref_users (Some kv # kvs) =
     bndE (lift (decodeUserValue (kv_Value (snd kv)))) (\<lambda>uv.
       bndE (deref_users kvs) (\<lambda>us. ret (Inr (uv # us))))"

definition usersFromNicks :: "etcdClient \<Rightarrow> string list \<Rightarrow> nat \<Rightarrow> (error + UserValue list) io" where
  "usersFromNicks ec ns r =
     bndE (userKeysFromNicks (ns @ [ec_nick ec]) r) (\<lambda>kvs.
       bndE (deref_users kvs) (\<lambda>us. ret (Inr (pruneInvisible (butlast us) (last us)))))"

definition usersFromChannel :: "etcdClient \<Rightarrow> string \<Rightarrow> nat \<Rightarrow> (error + UserValue list) io" where
  "usersFromChannel ec ch r =
     bndE (etcd_do (get_prefix (keyChanNicksPfx ch) r)) (\<lambda>resp.
       bndE (lift (decode_kvs decodeChannelNicks (kvs_of_resp resp))) (\<lambda>cnss.
         usersFromNicks ec (concat (map nicks cnss)) (gr_Revision (GetResponseRange resp))))"

definition usersFromMask :: "etcdClient \<Rightarrow> string \<Rightarrow> nat \<Rightarrow> (error + UserValue list) io" where
  "usersFromMask ec msk r =
     (if isChan msk then usersFromChannel ec msk r
      else if msk = ''*'' then users ec r
      else usersFromNicks ec [msk] r)"

section \<open>NAMES and WHO\<close>

type_synonym modeMap = "(string \<times> string) list"

definition nick_prefix :: "ModeValue \<Rightarrow> string" where
  "nick_prefix m =
     (if mode_has m (CHR ''o'') then ''@'' else if mode_has m (CHR ''v'') then ''+'' else [])"

definition add_modes_of :: "ChannelNicks \<Rightarrow> modeMap \<Rightarrow> modeMap" where
  "add_modes_of cns mm = fold (\<lambda>cn. snap_put (nNick cn) (nick_prefix (nMode cn))) cns mm"

text \<open>A missing entry of a Go map reads as the zero value.\<close>

definition modeMap_at :: "modeMap \<Rightarrow> string \<Rightarrow> string" where
  "modeMap_at mm n = (case map_of mm n of None \<Rightarrow> [] | Some m \<Rightarrow> m)"

text \<open>The revision argument is not used.\<close>

definition nameModes :: "etcdClient \<Rightarrow> string \<Rightarrow> nat \<Rightarrow> (error + modeMap) io" where
  "nameModes ec ch r =
     bndE (etcd_do (get_prefix (keyChanNicksPfx ch) 0)) (\<lambda>resp.
       bndE (lift (decode_kvs decodeChannelNicks (kvs_of_resp resp))) (\<lambda>cnss.
         ret (Inr (fold add_modes_of cnss []))))"

definition names :: "etcdClient \<Rightarrow> string \<Rightarrow> nat \<Rightarrow> (error + unit) io" where
  "names ec ch r =
     bndE (usersFromMask ec ch r) (\<lambda>us.
     bndE (nameModes ec ch r) (\<lambda>mm.
     bnd (sendHostMsg ec RPL_NAMREPLY
           [''='', ch, Join (map (\<lambda>u. modeMap_at mm (uNick u) @ uNick u) us) '' '']) (\<lambda>_.
     sendHostMsg ec RPL_ENDOFNAMES [ch, ''End of NAMES list''])))"

definition Names :: "etcdClient \<Rightarrow> string \<Rightarrow> (error + unit) io" where
  "Names ec ch = names ec ch 0"

fun who_replies :: "etcdClient \<Rightarrow> string \<Rightarrow> modeMap \<Rightarrow> UserValue list \<Rightarrow> (error + unit) io" where
  "who_replies ec msk mm [] = ret (Inr ())"
| "who_replies ec msk mm (u # us) =
     bnd (index (uUser u) 1) (\<lambda>usr.
     bndE (sendHostMsg ec RPL_WHOREPLY
             [Join [msk, usr, uHost u, uServerName u, uNick u, CHR ''H'' # modeMap_at mm (uNick u)] '' '',
              ''0 '' @ uRealName u]) (\<lambda>_.
     who_replies ec msk mm us))"

definition Who :: "etcdClient \<Rightarrow> string list \<Rightarrow> (error + unit) io" where
  "Who ec args =
     (let msk = (if args = [] \<or> hd args = ''0'' then ''*'' else hd args) in
      bndE (usersFromMask ec msk 0) (\<lambda>us.
      bndE (if isChan msk then nameModes ec msk 0 else ret (Inr [])) (\<lambda>mm.
      bndE (who_replies ec msk mm us) (\<lambda>_.
      sendHostMsg ec RPL_ENDOFWHO [msk, ''End of WHO list'']))))"

section \<open>WHOIS, LIST, PING, DIE\<close>

definition Whois :: "etcdClient \<Rightarrow> string \<Rightarrow> (error + unit) io" where
  "Whois ec n0 =
     (let n = (if n0 = [] then ec_nick ec else n0) in
      bndE (etcd_do (OpGet (keyUserCtl n) None 0)) (\<lambda>resp.
        case kvs_of_resp resp of
          [] \<Rightarrow> noSuchNick ec n
        | kv # _ \<Rightarrow>
            if gob_empty (kv_Value (snd kv)) then noSuchNick ec n
            else bndE (lift (decodeUserValue (kv_Value (snd kv)))) (\<lambda>uv.
              bnd (index (uUser uv) 1) (\<lambda>usr.
              bnd (sendHostMsg ec RPL_WHOISUSER [n, usr, ''servername'', ''*'', '' norton'']) (\<lambda>_.
              bnd (if uChannels uv \<noteq> []
                   then sendHostMsg ec RPL_WHOISCHANNELS [n, Join (uChannels uv) '' '']
                   else ret (Inr ())) (\<lambda>_.
              sendHostMsg ec RPL_ENDOFWHOIS [n]))))))"

record replyList =
  rl_channel :: string
  rl_visible :: int
  rl_topic :: string

definition list_repl :: "UserValue \<Rightarrow> ChannelCtl \<Rightarrow> replyList option" where
  "list_repl uv chctl =
     (if mode_has (cMode chctl) (CHR ''s'') \<and> \<not> inChan uv (cName chctl) then None
      else Some \<lparr> rl_channel = cName chctl, rl_visible = 100, rl_topic = cTopic chctl \<rparr>)"

fun send_repls :: "etcdClient \<Rightarrow> replyList list \<Rightarrow> unit io" where
  "send_repls ec [] = ret ()"
| "send_repls ec (r # rs) =
     bnd (sendHostMsg ec RPL_LIST [rl_channel r, fmt_d (rl_visible r), '' '' @ rl_topic r])
       (\<lambda>_. send_repls ec rs)"

definition List_ops :: "etcdClient \<Rightarrow> string list \<Rightarrow> gob op list" where
  "List_ops ec chs =
     OpGet (keyUserCtl (ec_nick ec)) None 0 #
       (if chs = [] then [get_prefix (keyChanCtl []) 0]
        else map (\<lambda>ch. OpGet (keyChanCtl ch) None 0) chs)"

definition List_cmd :: "etcdClient \<Rightarrow> string list \<Rightarrow> (error + unit) io" where
  "List_cmd ec chs =
     bndE (etcd_txn [] (List_ops ec chs) []) (\<lambda>resp.
       bnd (index (tr_Responses resp) 0) (\<lambda>resp0.
       case kvs_of_resp resp0 of
         [] \<Rightarrow> ret (Inr ())
       | uvKv # _ \<Rightarrow>
           bndE (lift (decodeUserValue (kv_Value (snd uvKv)))) (\<lambda>uv.
           bndE (lift (decode_kvs decodeChannelCtl (concat (map kvs_of_resp (tl (tr_Responses resp)))))) (\<lambda>ctls.
           bnd (send_repls ec (List.map_filter (list_repl uv) ctls)) (\<lambda>_.
           sendHostMsg ec RPL_LISTEND [''End of LIST''])))))"

definition Ping :: "etcdClient \<Rightarrow> string \<Rightarrow> (error + unit) io" where
  "Ping ec msg =
     bndE (etcd_do (OpGet (keyUserCtl (ec_nick ec)) None 0)) (\<lambda>_.
       SendMsg \<lparr> mPrefix = Some (hostPfx ec), mCommand = ''PONG'',
                 mParams = [cfg_HostName (ec_cfg ec), msg] \<rparr>)"

definition Die :: "etcdClient \<Rightarrow> (error + unit) io" where
  "Die ec =
     bndE (etcd_do (OpGet (keyUserCtl (ec_nick ec)) None 0)) (\<lambda>resp.
     bnd (index (kvs_of_resp resp) 0) (\<lambda>kv.
     bndE (lift (decodeUserValue (kv_Value (snd kv)))) (\<lambda>uv.
     if \<not> mode_has (uMode uv) (CHR ''o'') \<and> \<not> mode_has (uMode uv) (CHR ''O'')
     then sendHostMsg ec ERR_NOPRIVILEGES [''Permission Denied- You''  @ [CHR 0x27] @ ''re not an IRC operator'']
     else exit 0)))"

end
