(* ===== verification/Client_Channels.thy ===== *)
theory Client_Channels
  imports Client_Queries
begin

text \<open>
  The commands of \<^verbatim>\<open>etcd_client.go\<close> that change channels: \<^verbatim>\<open>JOIN\<close>, \<^verbatim>\<open>PART\<close>, \<^verbatim>\<open>KICK\<close>, \<^verbatim>\<open>QUIT\<close>,
  \<^verbatim>\<open>TOPIC\<close> and channel \<^verbatim>\<open>MODE\<close>.  Each handler is its transaction body, a tree of calls on the
  transaction, and the code around it.
\<close>

section \<open>JOIN\<close>

definition join_msg :: "etcdClient \<Rightarrow> string \<Rightarrow> Message" where
  "join_msg ec ch = \<lparr> mPrefix = Some (ec_prefix ec), mCommand = ''JOIN'', mParams = [ch] \<rparr>"

definition join_nick :: "string \<Rightarrow> nat \<Rightarrow> ChannelNick" where
  "join_nick n r =
     \<lparr> nNick = n, nMode = (if r = 0 then mode_add (mode_add [] (CHR ''O'')) (CHR ''o'') else []) \<rparr>"

text \<open>The captured variable is \<^verbatim>\<open>topic\<close>.\<close>

definition join_body :: "etcdClient \<Rightarrow> string \<Rightarrow> int \<Rightarrow> string \<Rightarrow> string prog" where
  "join_body ec ch lid topic =
     (let userCtl = keyUserCtl (ec_nick ec); chCtl = keyChanCtl ch;
          chNicks = keyChanNicks ch lid; chMsg = keyChanMsg ch;
          add_nick = (\<lambda>uv chv cns.
            PRev chCtl (\<lambda>r.
            PPut chNicks (encodeChannelNicks (cns @ [join_nick (uNick uv) r])) lid False
            (PPut chMsg (encodeMessage (join_msg ec ch)) 0 False
            (Return (cTopic chv) None))));
          put_chan = (\<lambda>uv chv.
            PPut chCtl (encodeChannelCtl chv) 0 False
            (PGet chNicks (\<lambda>v.
              if gob_empty v then add_nick uv chv []
              else pdec (decodeChannelNicks v) (cTopic chv) (add_nick uv chv))))
      in PGet userCtl (\<lambda>v. pdec (decodeUserValue v) topic (\<lambda>uv.
           PPut userCtl (encodeUserValue (uv\<lparr>uChannels := uChannels uv @ [ch]\<rparr>)) lid False
           (PGet chCtl (\<lambda>c.
             if gob_empty c
             then PNow (\<lambda>t. put_chan uv (zeroChannel\<lparr>cName := ch, cCreated := t\<rparr>))
             else pdec (decodeChannelCtl c) topic (put_chan uv))))))"

definition monitorChannel :: "string \<Rightarrow> nat \<Rightarrow> unit io" where
  "monitorChannel ch r w =
     (Ok (), w\<lparr>chCancel := snap_put ch (length (watches w)) (chCancel w),
               watches := watches w @ [WatchChan ch r]\<rparr>)"

definition Join_cmd :: "etcdClient \<Rightarrow> string \<Rightarrow> (error + unit) io" where
  "Join_cmd ec ch =
     bndE get_session (\<lambda>lid.
     bndE (doSTM (join_body ec ch lid) [keyUserCtl (ec_nick ec), keyChanCtl ch, keyChanNicks ch lid] [])
       (\<lambda>(r, topic).
     bnd (SendMsg (join_msg ec ch)) (\<lambda>_.
     bnd (if topic = [] then sendHostMsg ec RPL_NOTOPIC [ch, ''No topic is set'']
          else sendHostMsg ec RPL_TOPIC [ch, topic]) (\<lambda>_.
     bndE (names ec ch r) (\<lambda>_.
     bnd (monitorChannel ch (r + 1)) (\<lambda>_.
     ctx_Err))))))"

section \<open>PART\<close>

definition part_msg :: "etcdClient \<Rightarrow> string \<Rightarrow> string \<Rightarrow> Message" where
  "part_msg ec ch msg = \<lparr> mPrefix = Some (ec_prefix ec), mCommand = ''PART'', mParams = [ch, msg] \<rparr>"

text \<open>The captured variable is \<^verbatim>\<open>onChannel\<close>.\<close>

definition part_body :: "etcdClient \<Rightarrow> string \<Rightarrow> string \<Rightarrow> int \<Rightarrow> bool \<Rightarrow> bool prog" where
  "part_body ec ch msg lid onChannel =
     (let userCtl = keyUserCtl (ec_nick ec); chNicks = keyChanNicks ch lid;
          broadcast = PPut (keyChanMsg ch) (encodeMessage (part_msg ec ch msg)) 0 False (Return True None)
      in PGet userCtl (\<lambda>v. pdec (decodeUserValue v) onChannel (\<lambda>uv0.
           let (uv, found) = part uv0 ch in
           if \<not> found then Return False None
           else PPut userCtl (encodeUserValue uv) 0 True
             (PGet chNicks (\<lambda>us.
               if gob_empty us then broadcast
               else pdec (decodeChannelNicks us) True (\<lambda>cn.
                 PPut chNicks (encodeChannelNicks (fst (del_nick cn (ec_nick ec)))) 0 True broadcast))))))"

definition Part :: "etcdClient \<Rightarrow> string \<Rightarrow> string \<Rightarrow> (error + unit) io" where
  "Part ec ch msg =
     bndE get_session (\<lambda>lid.
     bndE (doSTM (part_body ec ch msg lid) [keyUserCtl (ec_nick ec), keyChanNicks ch lid] False)
       (\<lambda>(r, onChannel).
     if \<not> onChannel
     then sendHostMsg ec ERR_NOTONCHANNEL [ch, ''You'' @ [CHR 0x27] @ ''re not on that channel'']
     else ret (Inr ())))"

section \<open>KICK\<close>

record kickVars =
  k_notOp :: bool
  k_notOnChan :: bool
  k_userNotOnChan :: bool

definition kick_msg :: "etcdClient \<Rightarrow> string \<Rightarrow> string \<Rightarrow> string \<Rightarrow> Message" where
  "kick_msg ec ch nick msg =
     \<lparr> mPrefix = Some (ec_prefix ec), mCommand = ''KICK'', mParams = [ch, nick, msg] \<rparr>"

definition is_op :: "ChannelNick \<Rightarrow> bool" where
  "is_op n = (mode_has (nMode n) (CHR ''o'') \<or> mode_has (nMode n) (CHR ''O''))"

text \<open>The second half of the body: the kicker may kick.\<close>

definition kick_target :: "etcdClient \<Rightarrow> string \<Rightarrow> string \<Rightarrow> string \<Rightarrow> kickVars \<Rightarrow> kickVars prog" where
  "kick_target ec ch nick msg x =
     PRev (keyUserCtl nick) (\<lambda>r.
       if r = 0 then Return (x\<lparr>k_userNotOnChan := True\<rparr>) None
       else PGet (keyUserCtl nick) (\<lambda>v. pdec (decodeUserValue v) (x\<lparr>k_userNotOnChan := False\<rparr>) (\<lambda>uv0.
         let (uv, found) = part uv0 ch; x' = x\<lparr>k_userNotOnChan := \<not> found\<rparr> in
         if \<not> found then Return x' None
         else PPut (keyUserCtl nick) (encodeUserValue uv) 0 True
           (PGet (keyChanNicks ch (uLease uv)) (\<lambda>c. pdec (decodeChannelNicks c) x' (\<lambda>cn.
             PPut (keyChanNicks ch (uLease uv)) (encodeChannelNicks (fst (del_nick cn nick))) 0 True
             (PPut (keyChanMsg ch) (encodeMessage (kick_msg ec ch nick msg)) 0 False
             (Return x' None))))))))"

definition kick_body :: "etcdClient \<Rightarrow> string \<Rightarrow> string \<Rightarrow> string \<Rightarrow> int \<Rightarrow> kickVars \<Rightarrow> kickVars prog" where
  "kick_body ec ch nick msg lid x =
     (let myNicksKey = keyChanNicks ch lid in
      PRev myNicksKey (\<lambda>r.
        if r = 0 then Return (x\<lparr>k_notOnChan := True\<rparr>) None
        else PGet myNicksKey (\<lambda>v. pdec (decodeChannelNicks v) (x\<lparr>k_notOnChan := False\<rparr>) (\<lambda>cns.
          case find_nick cns (ec_nick ec) of
            None \<Rightarrow> Return (x\<lparr>k_notOnChan := True\<rparr>) None
          | Some n \<Rightarrow>
              if \<not> is_op n then Return (x\<lparr>k_notOnChan := False, k_notOp := True\<rparr>) None
              else kick_target ec ch nick msg (x\<lparr>k_notOnChan := False, k_notOp := False\<rparr>)))))"

definition not_on_channel :: "etcdClient \<Rightarrow> string \<Rightarrow> (error + unit) io" where
  "not_on_channel ec ch =
     sendHostMsg ec ERR_NOTONCHANNEL [ch, ''You'' @ [CHR 0x27] @ ''re not on that channel'']"

definition not_chan_op :: "etcdClient \<Rightarrow> string \<Rightarrow> (error + unit) io" where
  "not_chan_op ec ch =
     sendHostMsg ec ERR_CHANOPRIVSNEEDED [ch, ''You'' @ [CHR 0x27] @ ''re not channel operator'']"

definition kick :: "etcdClient \<Rightarrow> string \<Rightarrow> string \<Rightarrow> string \<Rightarrow> (error + unit) io" where
  "kick ec ch nick msg =
     bndE get_session (\<lambda>lid.
     bndE (doSTM (kick_body ec ch nick msg lid) [keyUserCtl nick, keyChanNicks ch lid]
             \<lparr> k_notOp = False, k_notOnChan = False, k_userNotOnChan = False \<rparr>)
       (\<lambda>(r, x).
     if k_notOnChan x then not_on_channel ec ch
     else if k_userNotOnChan x then sendHostMsg ec ERR_USERNOTINCHANNEL [nick, ch, ''User not in channel'']
     else if k_notOp x then not_chan_op ec ch
     else ret (Inr ())))"

fun Kick :: "etcdClient \<Rightarrow> string \<Rightarrow> string list \<Rightarrow> string \<Rightarrow> (error + unit) io" where
  "Kick ec ch [] msg = ret (Inr ())"
| "Kick ec ch (n # ns) msg = bndE (kick ec ch n msg) (\<lambda>_. Kick ec ch ns msg)"

section \<open>QUIT\<close>

definition quit_msg :: "etcdClient \<Rightarrow> string \<Rightarrow> Message" where
  "quit_msg ec msg = \<lparr> mPrefix = Some (ec_prefix ec), mCommand = ''QUIT'', mParams = [msg] \<rparr>"

fun quit_channels :: "etcdClient \<Rightarrow> string \<Rightarrow> int \<Rightarrow> string list \<Rightarrow> unit prog \<Rightarrow> unit prog" where
  "quit_channels ec msg lid [] k = k"
| "quit_channels ec msg lid (ch # chs) k =
     PGet (keyChanNicks ch lid) (\<lambda>us.
       if gob_empty us then quit_channels ec msg lid chs k
       else pdec (decodeChannelNicks us) () (\<lambda>cns.
         PPut (keyChanNicks ch lid) (encodeChannelNicks (fst (del_nick cns (ec_nick ec)))) 0 True
         (PPut (keyChanMsg ch) (encodeMessage (quit_msg ec msg)) 0 False
         (quit_channels ec msg lid chs k))))"

definition quit_body :: "etcdClient \<Rightarrow> string \<Rightarrow> unit \<Rightarrow> unit prog" where
  "quit_body ec msg u =
     PGet (keyUserCtl (ec_nick ec)) (\<lambda>v. pdec (decodeUserValue v) () (\<lambda>uv.
       PSession (\<lambda>s. pdec s () (\<lambda>lid.
         quit_channels ec msg lid (uChannels uv)
           (PDel (keyUserCtl (ec_nick ec)) (PDel (keyUserMsg (ec_nick ec)) (Return () None)))))))"

definition Quit :: "etcdClient \<Rightarrow> string \<Rightarrow> (error + unit) io" where
  "Quit ec msg = bndE (doSTM (quit_body ec msg) [keyUserCtl (ec_nick ec)] ()) (\<lambda>_. ret (Inr ()))"

section \<open>TOPIC\<close>

text \<open>The captured variables of \<^verbatim>\<open>Topic\<close> and \<^verbatim>\<open>chanMode\<close>; \<open>c_text\<close> is \<^verbatim>\<open>topic\<close> or \<^verbatim>\<open>mode\<close>.\<close>

record chanVars =
  c_text :: string
  c_noChan :: bool
  c_notOnChan :: bool
  c_notOp :: bool

definition noVars :: chanVars where
  "noVars = \<lparr> c_text = [], c_noChan = False, c_notOnChan = False, c_notOp = False \<rparr>"

definition topic_msg :: "etcdClient \<Rightarrow> string \<Rightarrow> string \<Rightarrow> Message" where
  "topic_msg ec ch t = \<lparr> mPrefix = Some (ec_prefix ec), mCommand = ''TOPIC'', mParams = [ch, t] \<rparr>"

definition topic_body :: "etcdClient \<Rightarrow> string \<Rightarrow> string option \<Rightarrow> int \<Rightarrow> chanVars \<Rightarrow> chanVars prog" where
  "topic_body ec ch msg lid x0 =
     PRev (keyChanCtl ch) (\<lambda>r. let x = x0\<lparr>c_noChan := (r = 0)\<rparr> in
       if r = 0 then Return x None
       else PGet (keyChanCtl ch) (\<lambda>v. pdec (decodeChannelCtl v) x (\<lambda>chv.
         case msg of
           None \<Rightarrow> Return (x\<lparr>c_text := cTopic chv\<rparr>) None
         | Some t \<Rightarrow>
             (let set_topic = (\<lambda>x. PPut (keyChanCtl ch) (encodeChannelCtl (chv\<lparr>cTopic := t\<rparr>)) 0 False
                    (PPut (keyChanMsg ch) (encodeMessage (topic_msg ec ch t)) 0 False (Return x None)))
              in if mode_has (cMode chv) (CHR ''t'')
                 then PGet (keyChanNicks ch lid) (\<lambda>c. pdec (decodeChannelNicks c) x (\<lambda>cns.
                   case find_nick cns (ec_nick ec) of
                     None \<Rightarrow> Return (x\<lparr>c_notOnChan := True\<rparr>) None
                   | Some n \<Rightarrow>
                       (let x' = x\<lparr>c_notOnChan := False, c_notOp := \<not> is_op n\<rparr> in
                        if \<not> is_op n then Return x' None else set_topic x')))
                 else set_topic x))))"

definition Topic :: "etcdClient \<Rightarrow> string \<Rightarrow> string option \<Rightarrow> (error + unit) io" where
  "Topic ec ch msg =
     bndE get_session (\<lambda>lid.
     bndE (doSTM (topic_body ec ch msg lid) [keyChanCtl ch] noVars) (\<lambda>(r, x).
     if c_noChan x
     then sendHostMsg ec ERR_NOCHANMODES [ch, ''Channel doesn'' @ [CHR 0x27] @ ''t support modes'']
     else if c_notOnChan x then not_on_channel ec ch
     else if c_notOp x then not_chan_op ec ch
     else (case msg of None \<Rightarrow> sendHostMsg ec ''TOPIC'' [ch, c_text x] | Some _ \<Rightarrow> ret (Inr ()))))"

section \<open>Channel MODE\<close>

definition chanMode_body :: "etcdClient \<Rightarrow> string \<Rightarrow> string list \<Rightarrow> int \<Rightarrow> chanVars \<Rightarrow> chanVars prog" where
  "chanMode_body ec ch m lid x0 =
     PGet (keyChanCtl ch) (\<lambda>cv. let x = x0\<lparr>c_noChan := gob_empty cv\<rparr> in
       if gob_empty cv then Return x None
       else pdec (decodeChannelCtl cv) x (\<lambda>cctl.
         PGet (keyChanNicks ch lid) (\<lambda>v. pdec (decodeChannelNicks v) x (\<lambda>ns.
           case find_nick ns (ec_nick ec) of
             None \<Rightarrow> Return (x\<lparr>c_notOnChan := True\<rparr>) None
           | Some n \<Rightarrow>
               (let x1 = x\<lparr>c_notOnChan := False\<rparr> in
                if m \<noteq> [] \<and> \<not> mode_has (nMode n) (CHR ''o'') then Return (x1\<lparr>c_notOp := True\<rparr>) None
                else (let x2 = (if m \<noteq> [] then x1\<lparr>c_notOp := False\<rparr> else x1);
                          (mode, updated) =
                            (if m \<noteq> [] then (case updateSlice (ec_spare ec) (cMode cctl) m chanModePerms of
                                (mv, bad, upd) \<Rightarrow> (mv, upd)) else (cMode cctl, False));
                          x3 = x2\<lparr>c_text := mode\<rparr>
                      in if \<not> updated then Return x3 None
                         else PPut (keyChanCtl ch) (encodeChannelCtl (cctl\<lparr>cMode := mode\<rparr>)) 0 False
                           (Return x3 None)))))))"

definition chanMode :: "etcdClient \<Rightarrow> string \<Rightarrow> string list \<Rightarrow> (error + unit) io" where
  "chanMode ec ch m =
     bnd last_lease (\<lambda>lid.
     bndE (doSTM (chanMode_body ec ch m lid) [keyChanCtl ch, keyChanNicks ch lid] noVars) (\<lambda>(r, x).
     if c_noChan x
     then sendHostMsg ec ERR_NOCHANMODES [ch, ''Channel doesn'' @ [CHR 0x27] @ ''t support modes'']
     else if c_notOnChan x then not_on_channel ec ch
     else if c_notOp x then not_chan_op ec ch
     else SendMsg \<lparr> mPrefix = Some (hostPfx ec), mCommand = ''MODE'', mParams = [ch, c_text x] \<rparr>))"

end
