(* ===== verification/Client_Users.thy ===== *)
theory Client_Users
  imports Client_Channels
begin

text \<open>
  The commands of \<^verbatim>\<open>etcd_client.go\<close> that concern users: registering a nick, user \<^verbatim>\<open>MODE\<close>, \<^verbatim>\<open>AWAY\<close>,
  \<^verbatim>\<open>OPER\<close> and \<^verbatim>\<open>PRIVMSG\<close> to a user or a channel.
\<close>

section \<open>Registering a nick\<close>

record connectRequest =
  cr_nick :: string
  cr_user :: "string list"

definition new_user :: "Config \<Rightarrow> connectRequest \<Rightarrow> int \<Rightarrow> int \<Rightarrow> UserValue" where
  "new_user cfg cr lid t =
     zeroUser\<lparr>uNick := cr_nick cr, uUser := cr_user cr,
       uMode := newModeValue (cfg_PinnedUserModes cfg), uCreated := t, uLease := lid\<rparr>"

text \<open>
  The result is no client and no error when the nick is taken.  The transaction runs in a
  context with a time limit; a request that exceeds it fails like any other request.
\<close>

definition newEtcdClient :: "(nat \<Rightarrow> nat) \<Rightarrow> Config \<Rightarrow> connectRequest \<Rightarrow> (error + etcdClient option) io" where
  "newEtcdClient spare cfg cr =
     bndE get_session (\<lambda>lid.
     bnd get_now (\<lambda>t.
     let uv = new_user cfg cr lid t in
     bndE (etcd_txn [CmpVersion (keyUserCtl (uNick uv)) CEq 0]
             [OpPut (keyUserCtl (uNick uv)) (encodeUserValue uv) lid False False,
              OpPut (keyUserMsg (uNick uv)) (Raw []) lid False False] []) (\<lambda>resp.
     if \<not> tr_Succeeded resp then ret (Inr None)
     else bnd (index (uUser uv) 1) (\<lambda>usr.
       let ec = \<lparr> ec_cfg = cfg, ec_crev = tr_Revision resp, ec_nick = uNick uv,
                  ec_prefix = \<lparr> pName = uNick uv, pUser = usr, pHost = ''host'' \<rparr>, ec_spare = spare \<rparr>
       in (\<lambda>w. (Ok (Inr (Some ec)),
                w\<lparr>watches := watches w @ [WatchUser (uNick uv) (tr_Revision resp + 1)]\<rparr>))))))"

section \<open>User MODE\<close>

record modeVars =
  m_mode :: string
  m_bad :: string

definition userMode_body :: "etcdClient \<Rightarrow> string list \<Rightarrow> modeVars \<Rightarrow> modeVars prog" where
  "userMode_body ec m x =
     (let userCtl = keyUserCtl (ec_nick ec) in
      PGet userCtl (\<lambda>v. pdec (decodeUserValue v) x (\<lambda>uv.
        let (mv, bad, updated) = updateSlice (ec_spare ec) (uMode uv) m userModePerms;
            x' = \<lparr> m_mode = mv, m_bad = bad \<rparr>
        in if \<not> updated then Return x' None
           else PPut userCtl (encodeUserValue (uv\<lparr>uMode := mv\<rparr>)) 0 True (Return x' None))))"

text \<open>\<^verbatim>\<open>string(m)\<close> of a byte is the UTF-8 encoding of the code point.\<close>

definition string_of_byte :: "char \<Rightarrow> string" where
  "string_of_byte c =
     (if of_char c < (128 :: nat) then [c]
      else [char_of (192 + of_char c div 64 :: nat), char_of (128 + of_char c mod 64 :: nat)])"

fun bad_modes :: "etcdClient \<Rightarrow> char list \<Rightarrow> (error + unit) io" where
  "bad_modes ec [] = ret (Inr ())"
| "bad_modes ec (m # ms) =
     bndE (sendHostMsg ec ERR_UMODEUNKNOWNFLAG [string_of_byte m @ '' is unknown mode char to me''])
       (\<lambda>_. bad_modes ec ms)"

definition userMode :: "etcdClient \<Rightarrow> string list \<Rightarrow> (error + unit) io" where
  "userMode ec m =
     bndE (doSTM (userMode_body ec m) [keyUserCtl (ec_nick ec)] \<lparr> m_mode = [], m_bad = [] \<rparr>) (\<lambda>(r, x).
     if m = [] then sendHostMsg ec RPL_UMODEIS [m_mode x]
     else bndE (sendHostMsg ec ''MODE'' [m_mode x]) (\<lambda>_. bad_modes ec (m_bad x)))"

text \<open>\<^verbatim>\<open>Mode\<close> indexes its first argument.\<close>

definition Mode :: "etcdClient \<Rightarrow> string list \<Rightarrow> (error + unit) io" where
  "Mode ec m =
     bnd (index m 0) (\<lambda>m0.
     if isChan m0 then chanMode ec m0 (tl m)
     else if m0 \<noteq> ec_nick ec
     then sendHostMsg ec ERR_USERSDONTMATCH [''Cannot change mode for other users'']
     else userMode ec (tl m))"

section \<open>AWAY\<close>

definition away_body :: "etcdClient \<Rightarrow> string \<Rightarrow> unit \<Rightarrow> unit prog" where
  "away_body ec msg u =
     (let k = keyUserCtl (ec_nick ec) in
      PGet k (\<lambda>v. pdec (decodeUserValue v) () (\<lambda>uv.
        let mv = (if msg = [] then mode_del (uMode uv) (CHR ''a'') else mode_add (uMode uv) (CHR ''a''))
        in PPut k (encodeUserValue (uv\<lparr>uMode := mv, uAwayMsg := msg\<rparr>)) 0 True (Return () None))))"

definition Away :: "etcdClient \<Rightarrow> string \<Rightarrow> (error + unit) io" where
  "Away ec msg =
     bndE (doSTM (away_body ec msg) [keyUserCtl (ec_nick ec)] ()) (\<lambda>_.
     if msg = [] then sendHostMsg ec RPL_UNAWAY [''You are no longer marked as being away'']
     else sendHostMsg ec RPL_NOWAWAY [''You have been marked as being away''])"

section \<open>OPER\<close>

text \<open>The captured variable is \<^verbatim>\<open>loggedIn\<close>; no branch resets it.\<close>

definition oper_body :: "etcdClient \<Rightarrow> string \<Rightarrow> string \<Rightarrow> bool \<Rightarrow> bool prog" where
  "oper_body ec login pass loggedIn =
     (let userKey = keyUserCtl (ec_nick ec) in
      PGet userKey (\<lambda>v. pdec (decodeUserValue v) loggedIn (\<lambda>uv.
        PGet (keyOperCtl login) (\<lambda>o'.
          if gob_empty o' then Return loggedIn None
          else pdec (decodeOperValue o') loggedIn (\<lambda>ov.
            if oPass ov \<noteq> pass then Return loggedIn None
            else PPut userKey
              (encodeUserValue (uv\<lparr>uMode := mode_add (uMode uv) (if oGlobal ov then CHR ''O'' else CHR ''o'')\<rparr>))
              0 True (Return True None))))))"

definition Oper :: "etcdClient \<Rightarrow> string \<Rightarrow> string \<Rightarrow> (error + unit) io" where
  "Oper ec login pass =
     bndE (doSTM (oper_body ec login pass) [keyUserCtl (ec_nick ec), keyOperCtl login] False) (\<lambda>(r, loggedIn).
     if \<not> loggedIn then sendHostMsg ec ERR_PASSWDMISMATCH [''Password incorrect'']
     else sendHostMsg ec RPL_YOUREOPER [''You are now an IRC operator''])"

section \<open>PRIVMSG\<close>

definition privmsg :: "etcdClient \<Rightarrow> string \<Rightarrow> string \<Rightarrow> Message" where
  "privmsg ec target msg =
     \<lparr> mPrefix = Some (ec_prefix ec), mCommand = ''PRIVMSG'', mParams = [target, msg] \<rparr>"

definition away_reply :: "etcdClient \<Rightarrow> string \<Rightarrow> string \<Rightarrow> Message" where
  "away_reply ec target awayMsg =
     \<lparr> mPrefix = Some (ec_prefix ec), mCommand = RPL_AWAY, mParams = [ec_nick ec, target, awayMsg] \<rparr>"

text \<open>The captured variables: \<^verbatim>\<open>noNick\<close>, and \<^verbatim>\<open>badOtr\<close> or \<^verbatim>\<open>noSend\<close>.\<close>

record privVars =
  pv_noNick :: bool
  pv_bad :: bool

definition privMsgUser_body :: "etcdClient \<Rightarrow> string \<Rightarrow> string \<Rightarrow> privVars \<Rightarrow> privVars prog" where
  "privMsgUser_body ec target msg x0 =
     (let isOtrMsg = HasPrefix msg ''?OTR''; keyCtl = keyUserCtl target in
      PRev keyCtl (\<lambda>r. let x = x0\<lparr>pv_noNick := (r = 0)\<rparr> in
        if r = 0 then Return x None
        else PGet (keyUserCtl (ec_nick ec)) (\<lambda>v. pdec (decodeUserValue v) x (\<lambda>uv.
          PGet keyCtl (\<lambda>v'. pdec (decodeUserValue v') x (\<lambda>uvTarget.
            if mode_has (uMode uvTarget) (CHR ''a'')
            then PPut (keyUserMsg (ec_nick ec)) (encodeMessage (away_reply ec target (uAwayMsg uvTarget)))
                   0 True (Return x None)
            else (let put = (\<lambda>x. PPut (keyUserMsg target) (encodeMessage (privmsg ec target msg)) 0 True
                        (Return x None)) in
              if isOtrMsg then put x
              else if mode_has (uMode uv) (CHR ''E'') then Return (x\<lparr>pv_bad := True\<rparr>) None
              else if mode_has (uMode uvTarget) (CHR ''E'') then Return (x\<lparr>pv_bad := True\<rparr>) None
              else put (x\<lparr>pv_bad := False\<rparr>))))))))"

definition privMsgUser :: "etcdClient \<Rightarrow> string \<Rightarrow> string \<Rightarrow> (error + unit) io" where
  "privMsgUser ec target msg =
     bndE (doSTM (privMsgUser_body ec target msg) [keyUserCtl target, keyUserCtl (ec_nick ec)]
             \<lparr> pv_noNick = False, pv_bad = False \<rparr>) (\<lambda>(r, x).
     if pv_noNick x then noSuchNick ec target
     else if pv_bad x then sendHostMsg ec ERR_NOTEXTTOSEND [target, ''No text to send'']
     else ret (Inr ()))"

definition may_speak :: "ChannelNick \<Rightarrow> bool" where
  "may_speak n = (is_op n \<or> mode_has (nMode n) (CHR ''v''))"

definition privMsgChan_body :: "etcdClient \<Rightarrow> string \<Rightarrow> string \<Rightarrow> privVars \<Rightarrow> privVars prog" where
  "privMsgChan_body ec ch msg x0 =
     (let put = (\<lambda>x. PPut (keyChanMsg ch) (encodeMessage (privmsg ec ch msg)) 0 True (Return x None)) in
      PRev (keyChanCtl ch) (\<lambda>r. let x = x0\<lparr>pv_noNick := (r = 0)\<rparr> in
        if r = 0 then Return x None
        else PGet (keyUserCtl (ec_nick ec)) (\<lambda>v. pdec (decodeUserValue v) x (\<lambda>uv.
          PGet (keyChanCtl ch) (\<lambda>c. pdec (decodeChannelCtl c) x (\<lambda>chCtl.
            if mode_has (cMode chCtl) (CHR ''m'')
            then PGet (keyChanNicks ch (uLease uv)) (\<lambda>c'. pdec (decodeChannelNicks c') x (\<lambda>cns.
              case find_nick cns (ec_nick ec) of
                None \<Rightarrow> Return (x\<lparr>pv_noNick := True\<rparr>) None
              | Some n \<Rightarrow>
                  (let x' = x\<lparr>pv_noNick := False, pv_bad := \<not> may_speak n\<rparr> in
                   if \<not> may_speak n then Return x' None else put x')))
            else put x))))))"

definition privMsgChan :: "etcdClient \<Rightarrow> string \<Rightarrow> string \<Rightarrow> (error + unit) io" where
  "privMsgChan ec ch msg =
     bndE (doSTM (privMsgChan_body ec ch msg) [keyChanCtl ch, keyUserCtl (ec_nick ec)]
             \<lparr> pv_noNick = False, pv_bad = False \<rparr>) (\<lambda>(r, x).
     if pv_noNick x then noSuchNick ec ch
     else if pv_bad x then sendHostMsg ec ERR_CANNOTSENDTOCHAN [ch, ''Cannot send to channel'']
     else ret (Inr ()))"

text \<open>A change of the nick is not implemented, and the dispatch does not call it.\<close>

definition Nick :: "etcdClient \<Rightarrow> string \<Rightarrow> (error + unit) io" where
  "Nick ec n = panic ''STUB''"

definition PrivMsg :: "etcdClient \<Rightarrow> string \<Rightarrow> string \<Rightarrow> (error + unit) io" where
  "PrivMsg ec target msg = (if isChan target then privMsgChan ec target msg else privMsgUser ec target msg)"

end
