(* ===== verification/Client_Do.thy ===== *)
theory Client_Do
  imports Client_Users
begin

text \<open>
  \<^verbatim>\<open>ClientDo\<close> of \<^verbatim>\<open>client.go\<close>: the dispatch of one IRC message to the client's commands, with its
  parameter checks.  A \<^verbatim>\<open>JOIN\<close> of several channels starts one goroutine per channel and waits
  for all of them; the model runs them one after the other, each to its end whatever the
  others return, and returns the first error.  What the goroutines of one \<^verbatim>\<open>JOIN\<close> do to each other
  in between is what other parties do, the turns of the world.
\<close>

fun joins :: "etcdClient \<Rightarrow> string list \<Rightarrow> (error + unit) io" where
  "joins ec [] = ret (Inr ())"
| "joins ec (ch # chs) =
     bnd (Join_cmd ec ch) (\<lambda>r. bnd (joins ec chs) (\<lambda>r'.
       ret (case r of Inl e \<Rightarrow> Inl e | Inr _ \<Rightarrow> r')))"

fun first_bad :: "string list \<Rightarrow> string option" where
  "first_bad [] = None"
| "first_bad (ch # chs) = (if isChan ch then first_bad chs else Some ch)"

definition ClientDo :: "etcdClient \<Rightarrow> Message \<Rightarrow> (error + unit) io" where
  "ClientDo ec msg =
     (let cmd = mCommand msg; ps = mParams msg in
      if cmd = ''KICK'' then
        (if length ps < 2 then needMoreParams ec
         else if \<not> isChan (ps ! 0) then badChanMask ec (ps ! 0)
         else Kick ec (ps ! 0) (Split (ps ! 1) (CHR '','')) (if length ps \<ge> 3 then ps ! 2 else []))
      else if cmd = ''DIE'' then Die ec
      else if cmd = ''AWAY'' then
        Away ec (if length ps > 0 then (if ps ! 0 = [] then ''User is away'' else ps ! 0) else [])
      else if cmd = ''OPER'' then
        (if length ps < 2 then needMoreParams ec else Oper ec (ps ! 0) (ps ! 1))
      else if cmd = ''CAP'' then ret (Inr ())
      else if cmd = ''WHOIS'' then
        (if length ps > 0 then (if isChan (ps ! 0) then noSuchNick ec (ps ! 0) else Whois ec (ps ! 0))
         else Whois ec [])
      else if cmd = ''WHO'' then Who ec ps
      else if cmd = ''JOIN'' then
        (if length ps = 0 then needMoreParams ec
         else let chs = Split (ps ! 0) (CHR '','') in
              case first_bad chs of Some ch \<Rightarrow> noSuchChannel ec ch | None \<Rightarrow> joins ec chs)
      else if cmd = ''MODE'' then (if length ps = 0 then needMoreParams ec else Mode ec ps)
      else if cmd = ''LIST'' then
        List_cmd ec (if length ps > 0 then Split (ps ! 0) (CHR '','') else [])
      else if cmd = ''NAMES'' then bnd (index ps 0) (\<lambda>p. Names ec p)
      else if cmd = ''PING'' then bnd (index ps 0) (\<lambda>p. Ping ec p)
      else if cmd = ''PART'' then
        (if length ps = 0 then needMoreParams ec
         else if \<not> isChan (ps ! 0) then noSuchChannel ec (ps ! 0)
         else Part ec (ps ! 0) (if length ps > 1 then ps ! 1 else []))
      else if cmd = ''QUIT'' then bnd (index ps 0) (\<lambda>p. Quit ec p)
      else if cmd = ''PRIVMSG'' then bnd (index ps 0) (\<lambda>p. bnd (index ps 1) (\<lambda>q. PrivMsg ec p q))
      else if cmd = ''TOPIC'' then
        (if length ps < 1 then needMoreParams ec
         else if \<not> isChan (ps ! 0) then badChanMask ec (ps ! 0)
         else Topic ec (ps ! 0) (if length ps > 1 then Some (ps ! 1) else None))
      else ret (Inr ()))"

end
