(* ===== verification/Irc_Server.thy ===== *)
theory Irc_Server
  imports Client_Do
begin

text \<open>
  \<^verbatim>\<open>server.go\<close>: reading a connection request, the handshake, the message of the day and the
  loop of a connection.  What arrives on a connection is a list of inputs, in the order in which
  the goroutine of the connection selects them.  A goroutine that waits for an input that never
  arrives yields no result (\<^const>\<open>None\<close>).  A line that does not parse arrives as a nil message.
\<close>

section \<open>Inputs\<close>

datatype input =
    InMsg "Message option"    \<comment> \<open>a message from the reader, or nil\<close>
  | InErr error               \<comment> \<open>an error of the reader or the writer\<close>
  | InDone error              \<comment> \<open>the server's etcd context ended\<close>

record Server =
  s_cfg :: Config
  s_created :: string         \<comment> \<open>the formatted creation time\<close>
  s_spare :: "nat \<Rightarrow> nat"

definition NewServer :: "Config \<Rightarrow> string \<Rightarrow> (nat \<Rightarrow> nat) \<Rightarrow> Server" where
  "NewServer cfg created spare = \<lparr> s_cfg = cfg, s_created = created, s_spare = spare \<rparr>"

definition s_hostPfx :: "Server \<Rightarrow> Prefix" where
  "s_hostPfx s = \<lparr> pName = cfg_HostName (s_cfg s), pUser = [], pHost = [] \<rparr>"

section \<open>The connection request\<close>

text \<open>A slice of no parameters is nil.\<close>

definition nil_if_empty :: "'a list \<Rightarrow> 'a list option" where
  "nil_if_empty xs = (if xs = [] then None else Some xs)"

definition read_one :: "Message \<Rightarrow> string \<times> string list option \<times> bool \<Rightarrow>
    (string \<times> string list option \<times> bool) io" where
  "read_one msg = (\<lambda>(nick, user, gotCap).
     if mCommand msg = ''CAP'' then
       (if gotCap then ret (nick, user, True)
        else bnd (index (mParams msg) 0) (\<lambda>p. ret (nick, user, p = ''LS'')))
     else if mCommand msg = ''NICK'' then bnd (index (mParams msg) 0) (\<lambda>p. ret (p, user, gotCap))
     else if mCommand msg = ''USER'' then ret (nick, nil_if_empty (mParams msg), gotCap)
     else ret (nick, user, gotCap))"

definition cap_reply :: "string \<Rightarrow> Message" where
  "cap_reply nick = \<lparr> mPrefix = None, mCommand = '':servname CAP'', mParams = [nick, ''LS'', ''[]''] \<rparr>"

text \<open>Only messages wake this loop; errors stay queued for the loop of the connection.\<close>

primrec readConnRequest :: "input list \<Rightarrow> string \<times> string list option \<times> bool \<Rightarrow>
    (connectRequest \<times> input list) option io" where
  "readConnRequest [] st = ret None"
| "readConnRequest (i # ins) st =
     (case i of
        InMsg None \<Rightarrow> panic ''nil pointer dereference''
      | InMsg (Some msg) \<Rightarrow>
          bnd (read_one msg st) (\<lambda>st'. case st' of (nick, user, gotCap) \<Rightarrow>
            if nick \<noteq> [] \<and> user \<noteq> None
            then (\<lambda>w. (Ok (Some (\<lparr> cr_nick = nick, cr_user = the user \<rparr>, ins)),
                       if gotCap then w\<lparr>out := out w @ [cap_reply nick]\<rparr> else w))
            else readConnRequest ins st')
      | _ \<Rightarrow> bnd (readConnRequest ins st) (\<lambda>r. ret (map_option (apsnd (Cons i)) r)))"

section \<open>The message of the day\<close>

definition motd :: "Server \<Rightarrow> string \<Rightarrow> (error + unit) io" where
  "motd s nick =
     (let msg = (\<lambda>c p. \<lparr> mPrefix = Some (s_hostPfx s), mCommand = c, mParams = [nick, p] \<rparr>) in
      if cfg_Motd (s_cfg s) = [] then SendMsg (msg ERR_NOMOTD ''MOTD file is missing'')
      else bnd (SendMsg (msg RPL_MOTDSTART (''- '' @ cfg_HostName (s_cfg s) @ '' Message of the day - ''))) (\<lambda>_.
           bnd (SendMsg (msg RPL_MOTD (cfg_Motd (s_cfg s)))) (\<lambda>_.
           SendMsg (msg RPL_ENDOFMOTD ''End of MOTD command''))))"

section \<open>The handshake\<close>

definition srv_version :: string where
  "srv_version = ''etcdircd-0.0.0''"

definition greet :: "Server \<Rightarrow> connectRequest \<Rightarrow> etcdClient \<Rightarrow> (error + etcdClient) io" where
  "greet s cr ec =
     (let nn = cfg_NetworkName (s_cfg s); hn = cfg_HostName (s_cfg s);
          nnpfx = \<lparr> pName = nn, pUser = [], pHost = [] \<rparr>;
          msg = (\<lambda>c p. \<lparr> mPrefix = Some nnpfx, mCommand = c, mParams = [cr_nick cr, p] \<rparr>) in
      bnd (index (cr_user cr) 1) (\<lambda>usr.
      bnd (SendMsg (msg RPL_WELCOME
            (''Welcome to an Internet Relay Network '' @ cr_nick cr @ ''!'' @ usr @ ''@masked''))) (\<lambda>_.
      bnd (SendMsg (msg RPL_YOURHOST (''Your host is '' @ hn @ '', running version '' @ srv_version))) (\<lambda>_.
      bnd (SendMsg (msg RPL_CREATED (''This server was created '' @ s_created s))) (\<lambda>_.
      bnd (SendMsg (msg RPL_MYINFO (nn @ '' '' @ srv_version @ '' iE iE''))) (\<lambda>_.
      bnd (if cfg_Motd (s_cfg s) \<noteq> [] then motd s (cr_nick cr) else ret (Inr ())) (\<lambda>_.
      bnd (SendMsg \<lparr> mPrefix = None, mCommand = ''PING'', mParams = [''hello''] \<rparr>) (\<lambda>_.
      bndE ctx_Err (\<lambda>_. ret (Inr ec))))))))))"

definition nick_in_use :: "Server \<Rightarrow> string \<Rightarrow> Message" where
  "nick_in_use s nick = \<lparr> mPrefix = Some (s_hostPfx s), mCommand = ERR_NICKNAMEINUSE, mParams = [nick] \<rparr>"

type_synonym handshake_result = "((error + etcdClient) \<times> connectRequest \<times> input list) option"

definition try_nick :: "Server \<Rightarrow> connectRequest \<Rightarrow> input list \<Rightarrow> handshake_result io \<Rightarrow> handshake_result io" where
  "try_nick s cr ins taken =
     bnd (newEtcdClient (s_spare s) (s_cfg s) cr) (\<lambda>r.
       case r of
         Inl e \<Rightarrow> ret (Some (Inl e, cr, ins))
       | Inr (Some ec) \<Rightarrow> bnd (greet s cr ec) (\<lambda>r'. ret (Some (r', cr, ins)))
       | Inr None \<Rightarrow> bnd (SendMsg (nick_in_use s (cr_nick cr))) (\<lambda>_. taken))"

text \<open>
  After a refused nick the next message decides; the outer loop tries again with the new nick.
  An error of the connection does not wake it.
\<close>

primrec handshake :: "input list \<Rightarrow> Server \<Rightarrow> connectRequest \<Rightarrow> bool \<Rightarrow> handshake_result io" where
  "handshake [] s cr waiting = (if waiting then ret None else try_nick s cr [] (ret None))"
| "handshake (i # ins) s cr waiting =
     (let await =
        (case i of
           InMsg None \<Rightarrow> panic ''nil pointer dereference''
         | InMsg (Some m) \<Rightarrow>
             if mCommand m = ''CAP'' then handshake ins s cr False
             else if mCommand m = ''NICK'' then
               bnd (index (mParams m) 0) (\<lambda>p. handshake ins s (cr\<lparr>cr_nick := p\<rparr>) False)
             else ret (Some (Inl ErrHandshake, cr, ins))
         | InDone e \<Rightarrow> ret (Some (Inl e, cr, ins))
         | InErr e \<Rightarrow> bnd (handshake ins s cr True) (\<lambda>r. ret (map_option (apsnd (apsnd (Cons i))) r)))
      in if waiting then await else try_nick s cr (i # ins) await)"

section \<open>The loop of a connection\<close>

primrec conn_loop :: "input list \<Rightarrow> Server \<Rightarrow> string \<Rightarrow> etcdClient \<Rightarrow> error option io" where
  "conn_loop [] s nick ec = ret None"
| "conn_loop (i # ins) s nick ec =
     bnd (case i of
            InMsg None \<Rightarrow> panic ''nil pointer dereference''
          | InMsg (Some msg) \<Rightarrow> if mCommand msg = ''MOTD'' then motd s nick else ClientDo ec msg
          | InErr e \<Rightarrow> ret (Inl e)
          | InDone e \<Rightarrow> ret (Inl e)) (\<lambda>r.
     case r of Inl e \<Rightarrow> ret (Some e) | Inr _ \<Rightarrow> conn_loop ins s nick ec)"

text \<open>The error that ended the connection, or \<^const>\<open>None\<close> while it waits for input.\<close>

definition handleConn :: "Server \<Rightarrow> input list \<Rightarrow> error option io" where
  "handleConn s ins =
     bnd (readConnRequest ins ([], None, False)) (\<lambda>r. case r of
       None \<Rightarrow> ret None
     | Some (cr, ins') \<Rightarrow>
         bnd (handshake ins' s cr False) (\<lambda>h. case h of
           None \<Rightarrow> ret None
         | Some (Inl e, cr', ins'') \<Rightarrow> ret (Some e)
         | Some (Inr ec, cr', ins'') \<Rightarrow> conn_loop ins'' s (cr_nick cr') ec))"

end
