(* ===== verification/Net_Spec.thy ===== *)
theory Net_Spec
  imports Client_Users
begin

text \<open>
  What the store means: the users, the channels, who is on which channel through which server
  session, and the last message on each channel and to each user.  For every command the
  abstract operation on that view, and the refinement: the command's transaction body, run by
  itself, does to the view what the operation says.  The invariant \<open>typed\<close> says that every key
  of the network holds a value of its kind, with the lease the kind demands.
\<close>

section \<open>The view\<close>

record net =
  nt_users :: "string \<Rightarrow> UserValue option"
  nt_nicks :: "string \<Rightarrow> int \<Rightarrow> ChannelNicks"
  nt_chans :: "string \<Rightarrow> ChannelCtl option"
  nt_chanMsg :: "string \<Rightarrow> gob option"
  nt_userMsg :: "string \<Rightarrow> gob option"
  nt_opers :: "string \<Rightarrow> OperValue option"

definition user_at :: "gob etcd \<Rightarrow> string \<Rightarrow> UserValue option" where
  "user_at d n = (case entry d (keyUserCtl n) of Some (GUser uv, _) \<Rightarrow> Some uv | _ \<Rightarrow> None)"

definition nicks_at :: "gob etcd \<Rightarrow> string \<Rightarrow> int \<Rightarrow> ChannelNicks" where
  "nicks_at d ch l = (case entry d (keyChanNicks ch l) of Some (GNicks cns, _) \<Rightarrow> cns | _ \<Rightarrow> [])"

definition chan_at :: "gob etcd \<Rightarrow> string \<Rightarrow> ChannelCtl option" where
  "chan_at d ch = (case entry d (keyChanCtl ch) of Some (GChannel c, _) \<Rightarrow> Some c | _ \<Rightarrow> None)"

definition oper_at :: "gob etcd \<Rightarrow> string \<Rightarrow> OperValue option" where
  "oper_at d n = (case entry d (keyOperCtl n) of Some (GOper ov, _) \<Rightarrow> Some ov | _ \<Rightarrow> None)"

definition view :: "gob etcd \<Rightarrow> net" where
  "view d = \<lparr> nt_users = user_at d, nt_nicks = nicks_at d, nt_chans = chan_at d,
     nt_chanMsg = (\<lambda>ch. map_option fst (entry d (keyChanMsg ch))),
     nt_userMsg = (\<lambda>n. map_option fst (entry d (keyUserMsg n))), nt_opers = oper_at d \<rparr>"

lemmas view_defs = view_def user_at_def nicks_at_def chan_at_def oper_at_def

definition user_ok :: "string \<Rightarrow> gob \<times> int \<Rightarrow> bool" where
  "user_ok n p \<longleftrightarrow> snd p \<noteq> 0 \<and> (case fst p of GUser uv \<Rightarrow> uNick uv = n \<and> uLease uv = snd p | _ \<Rightarrow> False)"

definition nicks_ok :: "int \<Rightarrow> gob \<times> int \<Rightarrow> bool" where
  "nicks_ok i p \<longleftrightarrow> snd p = i \<and> i \<noteq> 0 \<and> (case fst p of GNicks cns \<Rightarrow> True | _ \<Rightarrow> False)"

definition chan_ok :: "string \<Rightarrow> gob \<times> int \<Rightarrow> bool" where
  "chan_ok ch p \<longleftrightarrow> snd p = 0 \<and> (case fst p of GChannel c \<Rightarrow> cName c = ch | _ \<Rightarrow> False)"

definition typed :: "gob etcd \<Rightarrow> bool" where
  "typed d \<longleftrightarrow>
     (\<forall>n. pred_option (user_ok n) (entry d (keyUserCtl n))) \<and>
     (\<forall>ch i. pred_option (nicks_ok i) (entry d (keyChanNicks ch i))) \<and>
     (\<forall>ch. pred_option (chan_ok ch) (entry d (keyChanCtl ch))) \<and>
     (\<forall>n. pred_option (\<lambda>p. snd p \<noteq> 0) (entry d (keyUserMsg n))) \<and>
     (\<forall>ch. pred_option (\<lambda>p. snd p = 0) (entry d (keyChanMsg ch))) \<and>
     0 \<notin> set (leases d)"

lemma user_ok_GUser [simp]: "user_ok n (GUser uv, l) \<longleftrightarrow> l \<noteq> 0 \<and> uNick uv = n \<and> uLease uv = l"
  by (simp add: user_ok_def)

lemma nicks_ok_GNicks [simp]: "nicks_ok i (GNicks cns, l) \<longleftrightarrow> l = i \<and> i \<noteq> 0"
  by (auto simp: nicks_ok_def)

lemma chan_ok_GChannel [simp]: "chan_ok ch (GChannel c, l) \<longleftrightarrow> l = 0 \<and> cName c = ch"
  by (simp add: chan_ok_def)

lemma typed_user:
  assumes "typed d"
  shows "entry d (keyUserCtl n) = (case user_at d n of None \<Rightarrow> None | Some uv \<Rightarrow> Some (GUser uv, uLease uv))"
    and "user_at d n = Some uv \<Longrightarrow> uNick uv = n \<and> uLease uv \<noteq> 0"
proof -
  have "pred_option (user_ok n) (entry d (keyUserCtl n))" using assms by (simp add: typed_def)
  then show "entry d (keyUserCtl n) = (case user_at d n of None \<Rightarrow> None | Some uv \<Rightarrow> Some (GUser uv, uLease uv))"
    and "user_at d n = Some uv \<Longrightarrow> uNick uv = n \<and> uLease uv \<noteq> 0"
    by (cases "entry d (keyUserCtl n)"; auto simp: user_at_def user_ok_def split: gob.splits)+
qed

lemma typed_nicks:
  assumes "typed d" "entry d (keyChanNicks ch i) = Some p"
  shows "p = (GNicks (nicks_at d ch i), i) \<and> i \<noteq> 0"
proof -
  have "pred_option (nicks_ok i) (entry d (keyChanNicks ch i))" using assms(1) by (simp add: typed_def)
  with assms(2) show ?thesis
    by (cases p) (auto simp: nicks_at_def nicks_ok_def split: gob.splits)
qed

lemma typed_chan:
  assumes "typed d"
  shows "entry d (keyChanCtl ch) = (case chan_at d ch of None \<Rightarrow> None | Some c \<Rightarrow> Some (GChannel c, 0))"
    and "chan_at d ch = Some c \<Longrightarrow> cName c = ch"
proof -
  have "pred_option (chan_ok ch) (entry d (keyChanCtl ch))" using assms by (simp add: typed_def)
  then show "entry d (keyChanCtl ch) = (case chan_at d ch of None \<Rightarrow> None | Some c \<Rightarrow> Some (GChannel c, 0))"
    and "chan_at d ch = Some c \<Longrightarrow> cName c = ch"
    by (cases "entry d (keyChanCtl ch)"; auto simp: chan_at_def chan_ok_def split: gob.splits)+
qed

text \<open>What a body reads.\<close>

lemma stored_entry: "stored d k = (case entry d k of None \<Rightarrow> Raw [] | Some (v, _) \<Rightarrow> v)"
  by (simp add: stored_def entry_def split: option.split)

lemma modrev_0: "wf_etcd d \<Longrightarrow> modrev (lookup d k) = 0 \<longleftrightarrow> entry d k = None"
  using etcd_versions.mod_bound [of d "revision d" k] etcd_versions.at_now [of d k] revision_pos [of d]
  by (cases "lookup d k") (auto simp: modrev_def entry_def)

lemma decode_user:
  "typed d \<Longrightarrow> decodeUserValue (stored d (keyUserCtl n)) = Inr uv \<longleftrightarrow> user_at d n = Some uv"
  by (simp add: stored_entry typed_user(1) decodeUserValue_def split: option.split)

lemma stored_user:
  "typed d \<Longrightarrow> stored d (keyUserCtl n) = (case user_at d n of None \<Rightarrow> Raw [] | Some uv \<Rightarrow> GUser uv)"
  by (simp add: stored_entry typed_user(1) split: option.split)

lemma stored_chan:
  "typed d \<Longrightarrow> stored d (keyChanCtl ch) = (case chan_at d ch of None \<Rightarrow> Raw [] | Some c \<Rightarrow> GChannel c)"
  by (simp add: stored_entry typed_chan(1) split: option.split)

lemma stored_nicks:
  "typed d \<Longrightarrow> stored d (keyChanNicks ch i) =
     (if entry d (keyChanNicks ch i) = None then Raw [] else GNicks (nicks_at d ch i))"
  using typed_nicks [of d ch i] by (cases "entry d (keyChanNicks ch i)") (auto simp: stored_entry)

lemma nicks_at_missing: "entry d (keyChanNicks ch i) = None \<Longrightarrow> nicks_at d ch i = []"
  by (simp add: nicks_at_def)

section \<open>A body run by itself\<close>

definition atomically :: "'x prog \<Rightarrow> gob etcd \<Rightarrow> genv \<Rightarrow> 'x \<Rightarrow> gob etcd \<Rightarrow> bool" where
  "atomically p d g x' d' \<longleftrightarrow>
     (\<exists>ws g' resp. run_pure p d [] g = ((x', None), ws, g') \<and> apply_writes d ws = Inr (resp, d'))"

text \<open>The store after a write set, from the last write to each key.\<close>

definition written :: "gob etcd \<Rightarrow> (string \<times> gob \<times> gob op) list \<Rightarrow> string \<Rightarrow> (gob \<times> int) option" where
  "written d ws k = (case map_of ws k of None \<Rightarrow> entry d k | Some (v, wop) \<Rightarrow> write_effect wop (entry d k))"

lemma written_simps [simp]:
  "written d [] = entry d"
  "written d (snap_put k (v, OpPut k v l False p) ws) = (written d ws)(k \<mapsto> (v, l))"
  "written d (snap_put k (v, OpPut k v 0 True p) ws) =
     (written d ws)(k \<mapsto> (v, case entry d k of None \<Rightarrow> 0 | Some q \<Rightarrow> snd q))"
  "written d (snap_put k (v, OpDelete k e p) ws) = (written d ws)(k := None)"
  by (auto simp: written_def store_simps fun_eq_iff)

lemma atomically_cases:
  assumes "atomically p d g x' d'" "wf_etcd d"
  obtains ws g' where "run_pure p d [] g = ((x', None), ws, g')" "entry d' = written d ws"
    "wf_etcd d'" "leases d' = leases d"
    "\<And>k v l ign. map_of ws k = Some (v, OpPut k v l ign False) \<Longrightarrow>
       (ign \<longrightarrow> lookup d k \<noteq> None) \<and> (l = 0 \<or> l \<in> set (leases d))"
proof -
  from assms(1) obtain ws g' resp where run: "run_pure p d [] g = ((x', None), ws, g')"
    and app: "apply_writes d ws = Inr (resp, d')" by (auto simp: atomically_def)
  have "good_ws ws" by (rule run_pure_good [OF run]) simp
  from apply_writes_entry [OF app this] have "entry d' = written d ws"
    by (simp add: written_def fun_eq_iff)
  with that run apply_writes_ok [OF app assms(2)] show thesis by blast
qed

declare snap_put.simps [simp del]

lemmas body_simps = pdec_def Let_def store_simps key_simps modrev_0 stored_user stored_chan stored_nicks
  encode_defs decode_defs

section \<open>JOIN\<close>

definition joined_chan :: "string \<Rightarrow> int \<Rightarrow> ChannelCtl option \<Rightarrow> ChannelCtl" where
  "joined_chan ch t c = (case c of None \<Rightarrow> zeroChannel\<lparr>cName := ch, cCreated := t\<rparr> | Some c \<Rightarrow> c)"

definition spec_join :: "etcdClient \<Rightarrow> string \<Rightarrow> int \<Rightarrow> int \<Rightarrow> UserValue \<Rightarrow> net \<Rightarrow> net" where
  "spec_join ec ch lid t uv nt = nt\<lparr>
     nt_users := (nt_users nt)(ec_nick ec \<mapsto> uv\<lparr>uChannels := uChannels uv @ [ch]\<rparr>),
     nt_nicks := (nt_nicks nt)(ch := (nt_nicks nt ch)(lid := nt_nicks nt ch lid @
       [\<lparr> nNick = uNick uv, nMode = (if nt_chans nt ch = None then ''Oo'' else []) \<rparr>])),
     nt_chans := (nt_chans nt)(ch \<mapsto> joined_chan ch t (nt_chans nt ch)),
     nt_chanMsg := (nt_chanMsg nt)(ch \<mapsto> GMessage (join_msg ec ch))\<rparr>"

lemma chan_missing: "wf_etcd d \<Longrightarrow> typed d \<Longrightarrow> modrev (lookup d (keyChanCtl ch)) = 0 \<longleftrightarrow> chan_at d ch = None"
  by (simp add: modrev_0 typed_chan(1) split: option.split)

lemma join_nick_eq: "join_nick n r = \<lparr> nNick = n, nMode = (if r = 0 then ''Oo'' else []) \<rparr>"
  by (simp add: join_nick_def mode_add_def)

lemma join_nick_rev:
  "wf_etcd d \<Longrightarrow> typed d \<Longrightarrow>
     join_nick n (modrev (lookup d (keyChanCtl ch))) = join_nick n (if chan_at d ch = None then 0 else 1)"
  using chan_missing [of d ch] by (simp add: join_nick_def)

lemma join_entries:
  assumes "wf_etcd d" "typed d" "atomically (join_body ec ch lid x) d g x' d'"
  shows "\<exists>uv. user_at d (ec_nick ec) = Some uv \<and>
    x' = cTopic (joined_chan ch (ge_clock g) (chan_at d ch)) \<and>
    entry d' = (entry d)(
      keyUserCtl (ec_nick ec) \<mapsto> (GUser (uv\<lparr>uChannels := uChannels uv @ [ch]\<rparr>), lid),
      keyChanCtl ch \<mapsto> (GChannel (joined_chan ch (ge_clock g) (chan_at d ch)), 0),
      keyChanNicks ch lid \<mapsto> (GNicks (nicks_at d ch lid @
        [join_nick (uNick uv) (if chan_at d ch = None then 0 else 1)]), lid),
      keyChanMsg ch \<mapsto> (GMessage (join_msg ec ch), 0))"
  using assms(3,1)
proof (rule atomically_cases)
  fix ws g'
  assume run: "run_pure (join_body ec ch lid x) d [] g = ((x', None), ws, g')" and e: "entry d' = written d ws"
  from run assms(1,2) show ?thesis
    by (cases "user_at d (ec_nick ec)"; cases "chan_at d ch"; cases "entry d (keyChanNicks ch lid)")
       (auto simp: join_body_def body_simps e Now_def joined_chan_def nicks_at_missing join_nick_rev)
qed


lemma view_upd:
  assumes "entry d' = (entry d)(
      keyUserCtl n \<mapsto> (GUser uv, l1), keyChanCtl ch \<mapsto> (GChannel c, l2),
      keyChanNicks ch' i \<mapsto> (GNicks cns, l3), keyChanMsg ch'' \<mapsto> (m, l4))"
  shows "view d' = (view d)\<lparr>
      nt_users := (user_at d)(n \<mapsto> uv), nt_nicks := (nicks_at d)(ch' := (nicks_at d ch')(i := cns)),
      nt_chans := (chan_at d)(ch \<mapsto> c),
      nt_chanMsg := (nt_chanMsg (view d))(ch'' \<mapsto> m)\<rparr>"
  by (auto simp: view_defs assms key_simps fun_eq_iff)

lemma join_refines:
  assumes "wf_etcd d" "typed d" "atomically (join_body ec ch lid x) d g x' d'"
  shows "\<exists>uv. user_at d (ec_nick ec) = Some uv \<and>
    x' = cTopic (joined_chan ch (ge_clock g) (chan_at d ch)) \<and>
    view d' = spec_join ec ch lid (ge_clock g) uv (view d)"
  using join_entries [OF assms]
  by (auto simp: spec_join_def view_upd join_nick_eq) (simp_all add: view_def)

section \<open>PART and KICK\<close>

definition spec_leave :: "string \<Rightarrow> string \<Rightarrow> int \<Rightarrow> Message \<Rightarrow> UserValue \<Rightarrow> net \<Rightarrow> net" where
  "spec_leave n ch l m uv nt = nt\<lparr>
     nt_users := (nt_users nt)(n \<mapsto> uv\<lparr>uChannels := remove1 ch (uChannels uv)\<rparr>),
     nt_nicks := (nt_nicks nt)(ch := (nt_nicks nt ch)(l := fst (del_nick (nt_nicks nt ch l) n))),
     nt_chanMsg := (nt_chanMsg nt)(ch \<mapsto> GMessage m)\<rparr>"

text \<open>The roster key is written only if it is there.\<close>

definition left_entry :: "gob etcd \<Rightarrow> string \<Rightarrow> int \<Rightarrow> string \<Rightarrow> (gob \<times> int) option" where
  "left_entry d ch l n =
     (if entry d (keyChanNicks ch l) = None then None
      else Some (GNicks (fst (del_nick (nicks_at d ch l) n)), l))"

lemma view_leave:
  assumes "entry d' = (entry d)(
      keyUserCtl n \<mapsto> (GUser (uv\<lparr>uChannels := remove1 ch (uChannels uv)\<rparr>), l1),
      keyChanNicks ch l := left_entry d ch l n, keyChanMsg ch \<mapsto> (GMessage m, l2))"
  shows "view d' = spec_leave n ch l m uv (view d)"
  by (auto simp: view_defs spec_leave_def assms left_entry_def
      key_simps fun_eq_iff)

lemma part_entries:
  assumes "wf_etcd d" "typed d" "atomically (part_body ec ch msg lid x) d g x' d'"
  shows "\<exists>uv. user_at d (ec_nick ec) = Some uv \<and> x' = (ch \<in> set (uChannels uv)) \<and>
    entry d' = (if ch \<in> set (uChannels uv) then (entry d)(
      keyUserCtl (ec_nick ec) \<mapsto> (GUser (uv\<lparr>uChannels := remove1 ch (uChannels uv)\<rparr>), uLease uv),
      keyChanNicks ch lid := left_entry d ch lid (ec_nick ec),
      keyChanMsg ch \<mapsto> (GMessage (part_msg ec ch msg), 0)) else entry d)"
  using assms(3,1)
proof (rule atomically_cases)
  fix ws g'
  assume run: "run_pure (part_body ec ch msg lid x) d [] g = ((x', None), ws, g')" and e: "entry d' = written d ws"
  from run assms(1,2) show ?thesis
    by (cases "user_at d (ec_nick ec)"; cases "entry d (keyChanNicks ch lid)")
       (auto simp: part_body_def body_simps e part_eq left_entry_def typed_user typed_nicks fun_eq_iff
         split: if_splits dest: typed_nicks)
qed

lemma user_missing: "wf_etcd d \<Longrightarrow> typed d \<Longrightarrow> modrev (lookup d (keyUserCtl n)) = 0 \<longleftrightarrow> user_at d n = None"
  by (simp add: modrev_0 typed_user(1) split: option.split)

lemma kick_target_run:
  assumes "wf_etcd d" "typed d" "run_pure (kick_target ec ch nick msg x) d [] g = ((x', None), ws, g')"
  shows "(ws = [] \<and> k_userNotOnChan x' \<and> (\<forall>uv. user_at d nick = Some uv \<longrightarrow> ch \<notin> set (uChannels uv))) \<or>
    (\<exists>uv. user_at d nick = Some uv \<and> ch \<in> set (uChannels uv) \<and> x' = x\<lparr>k_userNotOnChan := False\<rparr> \<and>
       entry d (keyChanNicks ch (uLease uv)) \<noteq> None \<and>
       written d ws = (entry d)(
         keyUserCtl nick \<mapsto> (GUser (uv\<lparr>uChannels := remove1 ch (uChannels uv)\<rparr>), uLease uv),
         keyChanNicks ch (uLease uv) := left_entry d ch (uLease uv) nick,
         keyChanMsg ch \<mapsto> (GMessage (kick_msg ec ch nick msg), 0)))"
proof (cases "user_at d nick")
  case None
  with assms show ?thesis by (auto simp: kick_target_def user_missing)
next
  case (Some uv)
  note simps = kick_target_def body_simps part_eq
  have u: "entry d (keyUserCtl nick) = Some (GUser uv, uLease uv)"
    using Some assms(2) by (simp add: typed_user)
  show ?thesis
  proof (cases "ch \<in> set (uChannels uv)")
    case False
    with Some u assms show ?thesis by (auto simp: simps)
  next
    case True
    show ?thesis
    proof (cases "entry d (keyChanNicks ch (uLease uv))")
      case None
      with Some True u assms show ?thesis by (simp add: simps)
    next
      case (Some p)
      with typed_nicks [OF assms(2) this] \<open>user_at d nick = Some uv\<close> True assms u show ?thesis
        by (auto simp: simps left_entry_def)
    qed
  qed
qed

lemma kick_entries:
  assumes "wf_etcd d" "typed d" "atomically (kick_body ec ch nick msg lid x) d g x' d'"
  shows "(entry d' = entry d \<and> (k_notOnChan x' \<or> k_notOp x' \<or> k_userNotOnChan x') \<and>
      (\<forall>n uv. find_nick (nicks_at d ch lid) (ec_nick ec) = Some n \<and> user_at d nick = Some uv \<longrightarrow>
         \<not> (is_op n \<and> ch \<in> set (uChannels uv)))) \<or>
    (\<exists>n uv. find_nick (nicks_at d ch lid) (ec_nick ec) = Some n \<and> is_op n \<and>
       user_at d nick = Some uv \<and> ch \<in> set (uChannels uv) \<and>
       x' = \<lparr> k_notOp = False, k_notOnChan = False, k_userNotOnChan = False \<rparr> \<and>
       entry d (keyChanNicks ch (uLease uv)) \<noteq> None \<and>
       entry d' = (entry d)(
         keyUserCtl nick \<mapsto> (GUser (uv\<lparr>uChannels := remove1 ch (uChannels uv)\<rparr>), uLease uv),
         keyChanNicks ch (uLease uv) := left_entry d ch (uLease uv) nick,
         keyChanMsg ch \<mapsto> (GMessage (kick_msg ec ch nick msg), 0)))"
  using assms(3,1)
proof (rule atomically_cases)
  fix ws g'
  assume run: "run_pure (kick_body ec ch nick msg lid x) d [] g = ((x', None), ws, g')"
    and e: "entry d' = written d ws"
  show ?thesis
  proof (cases "entry d (keyChanNicks ch lid) = None \<or> find_nick (nicks_at d ch lid) (ec_nick ec) = None")
    case True
    then have "find_nick (nicks_at d ch lid) (ec_nick ec) = None" by (auto simp: nicks_at_missing)
    with True run assms(1,2) show ?thesis
      by (auto simp: kick_body_def body_simps e split: if_splits)
  next
    case False
    then obtain p n where n: "entry d (keyChanNicks ch lid) = Some p"
      "find_nick (nicks_at d ch lid) (ec_nick ec) = Some n" by auto
    show ?thesis
    proof (cases "is_op n")
      case False
      with n run assms(1,2) show ?thesis by (auto simp: kick_body_def body_simps e)
    next
      case True
      with n run assms(1,2) have "run_pure (kick_target ec ch nick msg
          (x\<lparr>k_notOnChan := False, k_notOp := False\<rparr>)) d [] g = ((x', None), ws, g')"
        by (simp add: kick_body_def body_simps)
      from kick_target_run [OF assms(1,2) this] n True show ?thesis by (auto simp: e)
    qed
  qed
qed

section \<open>User values\<close>

lemma put_user:
  assumes "typed d" "user_at d n = Some uv"
  shows "written d (snap_put (keyUserCtl n) (v, OpPut (keyUserCtl n) v 0 True False) [])
    = (entry d)(keyUserCtl n \<mapsto> (v, uLease uv))"
  using assms by (simp add: typed_user)

lemma userMode_entries:
  assumes "wf_etcd d" "typed d" "atomically (userMode_body ec m x) d g x' d'"
  shows "\<exists>uv. user_at d (ec_nick ec) = Some uv \<and>
    (case updateSlice (ec_spare ec) (uMode uv) m userModePerms of (mv, bad, upd) \<Rightarrow>
       x' = \<lparr> m_mode = mv, m_bad = bad \<rparr> \<and>
       entry d' = (if upd then (entry d)(keyUserCtl (ec_nick ec) \<mapsto> (GUser (uv\<lparr>uMode := mv\<rparr>), uLease uv))
                   else entry d))"
  using assms(3,1)
proof (rule atomically_cases)
  fix ws g'
  assume run: "run_pure (userMode_body ec m x) d [] g = ((x', None), ws, g')" and e: "entry d' = written d ws"
  from run assms(1,2) show ?thesis
    by (cases "user_at d (ec_nick ec)")
       (auto simp: userMode_body_def body_simps e typed_user split: prod.splits if_splits)
qed

lemma away_entries:
  assumes "wf_etcd d" "typed d" "atomically (away_body ec msg x) d g x' d'"
  shows "\<exists>uv. user_at d (ec_nick ec) = Some uv \<and>
    entry d' = (entry d)(keyUserCtl (ec_nick ec) \<mapsto>
      (GUser (uv\<lparr>uMode := (if msg = [] then mode_del (uMode uv) (CHR ''a'') else mode_add (uMode uv) (CHR ''a'')),
                uAwayMsg := msg\<rparr>), uLease uv))"
  using assms(3,1)
proof (rule atomically_cases)
  fix ws g'
  assume run: "run_pure (away_body ec msg x) d [] g = ((x', None), ws, g')" and e: "entry d' = written d ws"
  from run assms(1,2) show ?thesis
    by (cases "user_at d (ec_nick ec)") (auto simp: away_body_def body_simps e typed_user)
qed

lemma oper_entries:
  assumes "wf_etcd d" "typed d" "atomically (oper_body ec login pass x) d g x' d'"
  shows "\<exists>uv. user_at d (ec_nick ec) = Some uv \<and>
    (case oper_at d login of
       None \<Rightarrow> x' = x \<and> entry d' = entry d
     | Some ov \<Rightarrow>
         if oPass ov = pass
         then x' \<and> entry d' = (entry d)(keyUserCtl (ec_nick ec) \<mapsto>
           (GUser (uv\<lparr>uMode := mode_add (uMode uv) (if oGlobal ov then CHR ''O'' else CHR ''o'')\<rparr>), uLease uv))
         else x' = x \<and> entry d' = entry d)"
  using assms(3,1)
proof (rule atomically_cases)
  fix ws g'
  assume run: "run_pure (oper_body ec login pass x) d [] g = ((x', None), ws, g')" and e: "entry d' = written d ws"
  from run assms(1,2) show ?thesis
    by (cases "user_at d (ec_nick ec)"; cases "entry d (keyOperCtl login)")
       (auto simp: oper_body_def body_simps stored_entry oper_at_def e typed_user
         split: gob.splits if_splits)
qed

section \<open>Channel settings\<close>

lemma topic_entries:
  assumes "wf_etcd d" "typed d" "atomically (topic_body ec ch msg lid x) d g x' d'"
  shows "case chan_at d ch of
      None \<Rightarrow> x' = x\<lparr>c_noChan := True\<rparr> \<and> entry d' = entry d
    | Some c \<Rightarrow>
        (case msg of
           None \<Rightarrow> x' = x\<lparr>c_noChan := False, c_text := cTopic c\<rparr> \<and> entry d' = entry d
         | Some t \<Rightarrow>
             (let set_topic = (entry d)(keyChanCtl ch \<mapsto> (GChannel (c\<lparr>cTopic := t\<rparr>), 0),
                    keyChanMsg ch \<mapsto> (GMessage (topic_msg ec ch t), 0)) in
              if CHR ''t'' \<in> set (cMode c)
              then (case find_nick (nicks_at d ch lid) (ec_nick ec) of
                      None \<Rightarrow> x' = x\<lparr>c_noChan := False, c_notOnChan := True\<rparr> \<and> entry d' = entry d
                    | Some n \<Rightarrow> x' = x\<lparr>c_noChan := False, c_notOnChan := False, c_notOp := \<not> is_op n\<rparr> \<and>
                        entry d' = (if is_op n then set_topic else entry d))
              else x' = x\<lparr>c_noChan := False\<rparr> \<and> entry d' = set_topic))"
  using assms(3,1)
proof (rule atomically_cases)
  fix ws g'
  assume run: "run_pure (topic_body ec ch msg lid x) d [] g = ((x', None), ws, g')" and e: "entry d' = written d ws"
  show ?thesis
  proof (cases "chan_at d ch")
    case None
    with run assms(1,2) show ?thesis by (auto simp: topic_body_def chan_missing Let_def e)
  next
    case (Some c)
    then have c: "entry d (keyChanCtl ch) = Some (GChannel c, 0)" using assms(2) by (simp add: typed_chan)
    from run Some c assms(1,2) show ?thesis
      by (cases msg; cases "entry d (keyChanNicks ch lid)")
         (auto simp: topic_body_def body_simps e split: if_splits option.splits)
  qed
qed

lemma chanMode_entries:
  assumes "wf_etcd d" "typed d" "atomically (chanMode_body ec ch m lid x) d g x' d'"
  shows "case chan_at d ch of
      None \<Rightarrow> x' = x\<lparr>c_noChan := True\<rparr> \<and> entry d' = entry d
    | Some c \<Rightarrow>
        (case find_nick (nicks_at d ch lid) (ec_nick ec) of
           None \<Rightarrow> x' = x\<lparr>c_noChan := False, c_notOnChan := True\<rparr> \<and> entry d' = entry d
         | Some n \<Rightarrow>
             if m = [] then x' = x\<lparr>c_noChan := False, c_notOnChan := False, c_text := cMode c\<rparr> \<and> entry d' = entry d
             else if CHR ''o'' \<notin> set (nMode n)
             then x' = x\<lparr>c_noChan := False, c_notOnChan := False, c_notOp := True\<rparr> \<and> entry d' = entry d
             else (case updateSlice (ec_spare ec) (cMode c) m chanModePerms of (mv, bad, upd) \<Rightarrow>
               x' = x\<lparr>c_noChan := False, c_notOnChan := False, c_notOp := False, c_text := mv\<rparr> \<and>
               entry d' = (if upd then (entry d)(keyChanCtl ch \<mapsto> (GChannel (c\<lparr>cMode := mv\<rparr>), 0))
                           else entry d)))"
  using assms(3,1)
proof (rule atomically_cases)
  fix ws g'
  assume run: "run_pure (chanMode_body ec ch m lid x) d [] g = ((x', None), ws, g')" and e: "entry d' = written d ws"
  show ?thesis
  proof (cases "chan_at d ch")
    case None
    with run assms(1,2) show ?thesis by (auto simp: chanMode_body_def body_simps e)
  next
    case (Some c)
    from run Some assms(1,2) show ?thesis
      by (cases "entry d (keyChanNicks ch lid)"; cases "find_nick (nicks_at d ch lid) (ec_nick ec)")
         (auto simp: chanMode_body_def body_simps e split: if_splits prod.splits)
  qed
qed

section \<open>PRIVMSG\<close>

text \<open>A message key is overwritten and keeps its lease.\<close>

definition post :: "gob etcd \<Rightarrow> string \<Rightarrow> Message \<Rightarrow> string \<Rightarrow> (gob \<times> int) option" where
  "post d k m = (entry d)(k \<mapsto> (GMessage m, case entry d k of None \<Rightarrow> 0 | Some q \<Rightarrow> snd q))"

lemma privMsgUser_entries:
  assumes "wf_etcd d" "typed d" "atomically (privMsgUser_body ec target msg x) d g x' d'"
  shows "case user_at d target of
      None \<Rightarrow> x' = x\<lparr>pv_noNick := True\<rparr> \<and> entry d' = entry d
    | Some tv \<Rightarrow> (\<exists>uv. user_at d (ec_nick ec) = Some uv \<and>
        (if CHR ''a'' \<in> set (uMode tv)
         then x' = x\<lparr>pv_noNick := False\<rparr> \<and>
           entry d' = post d (keyUserMsg (ec_nick ec)) (away_reply ec target (uAwayMsg tv))
         else if \<not> prefix ''?OTR'' msg \<and> (CHR ''E'' \<in> set (uMode uv) \<or> CHR ''E'' \<in> set (uMode tv))
         then x' = x\<lparr>pv_noNick := False, pv_bad := True\<rparr> \<and> entry d' = entry d
         else x' = (if prefix ''?OTR'' msg then x\<lparr>pv_noNick := False\<rparr>
                    else x\<lparr>pv_noNick := False, pv_bad := False\<rparr>) \<and>
           entry d' = post d (keyUserMsg target) (privmsg ec target msg)))"
  using assms(3,1)
proof (rule atomically_cases)
  fix ws g'
  assume run: "run_pure (privMsgUser_body ec target msg x) d [] g = ((x', None), ws, g')"
    and e: "entry d' = written d ws"
  show ?thesis
  proof (cases "user_at d target")
    case None
    with run assms(1,2) show ?thesis by (auto simp: privMsgUser_body_def user_missing Let_def e)
  next
    case (Some tv)
    then have c: "entry d (keyUserCtl target) = Some (GUser tv, uLease tv)" using assms(2) by (simp add: typed_user)
    from run Some c assms(1,2) show ?thesis
      by (cases "user_at d (ec_nick ec)")
         (auto simp: privMsgUser_body_def body_simps HasPrefix_prefix post_def e split: if_splits)
  qed
qed

lemma privMsgChan_entries:
  assumes "wf_etcd d" "typed d" "atomically (privMsgChan_body ec ch msg x) d g x' d'"
  shows "case chan_at d ch of
      None \<Rightarrow> x' = x\<lparr>pv_noNick := True\<rparr> \<and> entry d' = entry d
    | Some c \<Rightarrow> (\<exists>uv. user_at d (ec_nick ec) = Some uv \<and>
        (if CHR ''m'' \<in> set (cMode c)
         then (case find_nick (nicks_at d ch (uLease uv)) (ec_nick ec) of
                 None \<Rightarrow> x' = x\<lparr>pv_noNick := True\<rparr> \<and> entry d' = entry d
               | Some n \<Rightarrow> x' = x\<lparr>pv_noNick := False, pv_bad := \<not> may_speak n\<rparr> \<and>
                   entry d' = (if may_speak n then post d (keyChanMsg ch) (privmsg ec ch msg) else entry d))
         else x' = x\<lparr>pv_noNick := False\<rparr> \<and> entry d' = post d (keyChanMsg ch) (privmsg ec ch msg)))"
  using assms(3,1)
proof (rule atomically_cases)
  fix ws g'
  assume run: "run_pure (privMsgChan_body ec ch msg x) d [] g = ((x', None), ws, g')"
    and e: "entry d' = written d ws"
  show ?thesis
  proof (cases "chan_at d ch")
    case None
    with run assms(1,2) show ?thesis by (auto simp: privMsgChan_body_def chan_missing Let_def e)
  next
    case (Some c)
    then have c: "entry d (keyChanCtl ch) = Some (GChannel c, 0)" using assms(2) by (simp add: typed_chan)
    show ?thesis
    proof (cases "user_at d (ec_nick ec)")
      case None
      with run Some c assms(1,2) show ?thesis by (simp add: privMsgChan_body_def body_simps)
    next
      case u: (Some uv)
      with run Some c assms(1,2) show ?thesis
        by (cases "entry d (keyChanNicks ch (uLease uv))")
           (auto simp: privMsgChan_body_def body_simps post_def e split: if_splits option.splits)
    qed
  qed
qed

section \<open>QUIT\<close>

text \<open>What a body reads of a key it may have written.\<close>

lemma read_written:
  assumes "good_ws ws"
  shows "(case map_of ws k of Some (v, _) \<Rightarrow> v | None \<Rightarrow> stored d k)
    = (case written d ws k of None \<Rightarrow> Raw [] | Some p \<Rightarrow> fst p)"
proof (cases "map_of ws k")
  case None
  then show ?thesis by (simp add: written_def stored_entry split: option.split)
next
  case (Some q)
  then have "write_op (k, q)" using assms by (auto simp: good_ws_def dest: map_of_SomeD)
  with Some show ?thesis by (auto simp: written_def write_op_def)
qed

definition leave_one :: "string \<Rightarrow> int \<Rightarrow> Message \<Rightarrow> string \<Rightarrow>
    (string \<Rightarrow> (gob \<times> int) option) \<Rightarrow> string \<Rightarrow> (gob \<times> int) option" where
  "leave_one n lid m ch E =
     (case E (keyChanNicks ch lid) of
        Some (GNicks cns, _) \<Rightarrow> E(keyChanNicks ch lid \<mapsto> (GNicks (fst (del_nick cns n)), lid),
                                keyChanMsg ch \<mapsto> (GMessage m, 0))
      | _ \<Rightarrow> E)"

text \<open>Every roster of the session is missing, or a roster that carries the session's lease.\<close>

definition rosters_ok :: "int \<Rightarrow> (string \<Rightarrow> (gob \<times> int) option) \<Rightarrow> bool" where
  "rosters_ok lid E = (\<forall>ch. pred_option (nicks_ok lid) (E (keyChanNicks ch lid)))"

lemma rosters_ok_cases:
  assumes "rosters_ok lid E"
  shows "E (keyChanNicks ch lid) = None \<or> (\<exists>cns. E (keyChanNicks ch lid) = Some (GNicks cns, lid))"
  using assms unfolding rosters_ok_def
  by (cases "E (keyChanNicks ch lid)") (auto simp: nicks_ok_def split: gob.splits dest!: spec [of _ ch])

lemma rosters_ok_leave: "rosters_ok lid E \<Longrightarrow> rosters_ok lid (leave_one n lid m ch E)"
  using rosters_ok_cases [of lid E ch]
  by (auto simp: rosters_ok_def leave_one_def key_simps) (metis nicks_ok_GNicks option.pred_inject(2))

lemma quit_channels_run:
  assumes "run_pure (quit_channels ec msg lid chs k) d ws g = ((x', None), ws', g')"
    "good_ws ws" "rosters_ok lid (written d ws)" "typed d"
    "\<forall>ch. written d ws (keyChanNicks ch lid) \<noteq> None \<longrightarrow> entry d (keyChanNicks ch lid) \<noteq> None"
  shows "\<exists>ws1. written d ws1 = fold (leave_one (ec_nick ec) lid (quit_msg ec msg)) chs (written d ws) \<and>
    run_pure k d ws1 g = ((x', None), ws', g')"
  using assms
proof (induction chs arbitrary: ws)
  case (Cons ch chs)
  note rd = read_written [OF Cons.prems(2), of d "keyChanNicks ch lid"]
  show ?case
  proof (cases "written d ws (keyChanNicks ch lid)")
    case None
    with Cons rd show ?thesis by (simp add: gob_empty_def leave_one_def)
  next
    case (Some p)
    with rosters_ok_cases [OF Cons.prems(3), of ch]
    obtain cns where w: "written d ws (keyChanNicks ch lid) = Some (GNicks cns, lid)" by auto
    let ?ws = "snap_put (keyChanMsg ch) (GMessage (quit_msg ec msg),
        OpPut (keyChanMsg ch) (GMessage (quit_msg ec msg)) 0 False False)
      (snap_put (keyChanNicks ch lid) (GNicks (fst (del_nick cns (ec_nick ec))),
        OpPut (keyChanNicks ch lid) (GNicks (fst (del_nick cns (ec_nick ec)))) 0 True False) ws)"
    from w Cons.prems(5) obtain q where "entry d (keyChanNicks ch lid) = Some q" by blast
    with typed_nicks [OF Cons.prems(4) this]
    have wr: "written d ?ws = leave_one (ec_nick ec) lid (quit_msg ec msg) ch (written d ws)"
      by (simp add: leave_one_def w)
    have run: "run_pure (quit_channels ec msg lid chs k) d ?ws g = ((x', None), ws', g')"
      using Cons.prems(1) rd w by (simp add: gob_empty_def decodeChannelNicks_def encode_defs)
    have good: "good_ws ?ws" using Cons.prems(2) by (intro good_ws_put)
    have ros: "rosters_ok lid (written d ?ws)" unfolding wr using Cons.prems(3) by (rule rosters_ok_leave)
    have "\<forall>ch. written d ?ws (keyChanNicks ch lid) \<noteq> None \<longrightarrow> entry d (keyChanNicks ch lid) \<noteq> None"
      using Cons.prems(5) \<open>entry d (keyChanNicks ch lid) = Some q\<close> by (auto simp: key_simps)
    from Cons.IH [OF run good ros Cons.prems(4) this] show ?thesis unfolding wr by simp
  qed
qed auto

lemma quit_entries:
  assumes "wf_etcd d" "typed d" "atomically (quit_body ec msg x) d g x' d'"
  shows "\<exists>uv lid. user_at d (ec_nick ec) = Some uv \<and> fst (Session g) = Inr lid \<and>
    entry d' = (fold (leave_one (ec_nick ec) lid (quit_msg ec msg)) (uChannels uv) (entry d))
      (keyUserCtl (ec_nick ec) := None, keyUserMsg (ec_nick ec) := None)"
  using assms(3,1)
proof (rule atomically_cases)
  fix ws g'
  assume run: "run_pure (quit_body ec msg x) d [] g = ((x', None), ws, g')" and e: "entry d' = written d ws"
  from run assms(2) obtain uv where uv: "user_at d (ec_nick ec) = Some uv"
    by (cases "user_at d (ec_nick ec)") (auto simp: quit_body_def body_simps)
  obtain s g1 where s: "Session g = (s, g1)" by fastforce
  from run uv s assms(2) obtain lid where lid: "s = Inr lid"
    by (cases s) (auto simp: quit_body_def body_simps)
  let ?k = "PDel (keyUserCtl (ec_nick ec)) (PDel (keyUserMsg (ec_nick ec)) (Return () None))"
  have q: "run_pure (quit_channels ec msg lid (uChannels uv) ?k) d [] g1 = ((x', None), ws, g')"
    using run uv s lid assms(2) by (simp add: quit_body_def body_simps)
  have "rosters_ok lid (written d [])" using assms(2) by (simp add: rosters_ok_def typed_def)
  from quit_channels_run [OF q good_ws_Nil this assms(2)]
  obtain ws1 where "written d ws1 = fold (leave_one (ec_nick ec) lid (quit_msg ec msg)) (uChannels uv) (entry d)"
    "run_pure ?k d ws1 g1 = ((x', None), ws, g')" by auto
  with uv s lid e show ?thesis by auto
qed

end
