(* ===== verification/Net_Invariant.thy ===== *)
theory Net_Invariant
  imports Net_Spec
begin

text \<open>
  The network as a transition system: every command of every client as one atomic step on the
  store, the grant, loss and revocation of server sessions, and the removal of empty rosters.
  The invariant: users and rosters agree.  A nick is on the roster of a channel under the
  lease of its server exactly as often as the channel is in the user's channel list, and on no
  other roster.
\<close>

section \<open>Agreement of users and rosters\<close>

definition consistent :: "net \<Rightarrow> bool" where
  "consistent nt \<longleftrightarrow>
     (\<forall>n ch l. count_list (nicks (nt_nicks nt ch l)) n =
        (case nt_users nt n of
           None \<Rightarrow> 0
         | Some uv \<Rightarrow> if uLease uv = l then count_list (uChannels uv) ch else 0))"

lemma consistentD:
  "consistent nt \<Longrightarrow> count_list (nicks (nt_nicks nt ch l)) n =
     (case nt_users nt n of None \<Rightarrow> 0 | Some uv \<Rightarrow> if uLease uv = l then count_list (uChannels uv) ch else 0)"
  by (simp add: consistent_def)

lemma consistent_join:
  assumes "consistent nt" "nt_users nt (ec_nick ec) = Some uv" "uLease uv = lid" "uNick uv = ec_nick ec"
  shows "consistent (spec_join ec ch lid t uv nt)"
  using assms unfolding consistent_def
  by (auto simp: spec_join_def split: option.splits)

lemma consistent_leave:
  assumes "consistent nt" "nt_users nt n = Some uv" "uLease uv = l"
  shows "consistent (spec_leave n ch l m uv nt)"
  using assms unfolding consistent_def
  by (auto simp: spec_leave_def del_nick_nicks count_list_remove1 split: option.splits)

section \<open>Well-typed stores\<close>

definition key_ok :: "string \<Rightarrow> gob \<times> int \<Rightarrow> bool" where
  "key_ok k p \<longleftrightarrow>
     (\<forall>n. k = keyUserCtl n \<longrightarrow> user_ok n p) \<and> (\<forall>ch i. k = keyChanNicks ch i \<longrightarrow> nicks_ok i p) \<and>
     (\<forall>ch. k = keyChanCtl ch \<longrightarrow> chan_ok ch p) \<and> (\<forall>n. k = keyUserMsg n \<longrightarrow> snd p \<noteq> 0) \<and>
     (\<forall>ch. k = keyChanMsg ch \<longrightarrow> snd p = 0)"

lemma key_ok_simps [simp]:
  "key_ok (keyUserCtl n) = user_ok n" "key_ok (keyChanNicks ch i) = nicks_ok i"
  "key_ok (keyChanCtl ch) = chan_ok ch" "key_ok (keyUserMsg n) = (\<lambda>p. snd p \<noteq> 0)"
  "key_ok (keyChanMsg ch) = (\<lambda>p. snd p = 0)"
  by (auto simp: key_ok_def key_simps fun_eq_iff)

definition typed_map :: "(string \<Rightarrow> (gob \<times> int) option) \<Rightarrow> bool" where
  "typed_map E = (\<forall>k. pred_option (key_ok k) (E k))"

lemma typed_iff: "typed d \<longleftrightarrow> typed_map (entry d) \<and> 0 \<notin> set (leases d)"
proof -
  have "pred_option (key_ok k) (entry d k)" if "typed d" for k
  proof (cases "entry d k")
    case (Some p)
    have "user_ok n p" if "k = keyUserCtl n" for n
      using \<open>typed d\<close> Some that unfolding typed_def by (metis option.pred_inject(2))
    moreover have "nicks_ok i p" if "k = keyChanNicks ch i" for ch i
      using \<open>typed d\<close> Some that unfolding typed_def by (metis option.pred_inject(2))
    moreover have "chan_ok ch p" if "k = keyChanCtl ch" for ch
      using \<open>typed d\<close> Some that unfolding typed_def by (metis option.pred_inject(2))
    moreover have "snd p \<noteq> 0" if "k = keyUserMsg n" for n
    proof -
      have "pred_option (\<lambda>p. snd p \<noteq> 0) (entry d (keyUserMsg n))" using \<open>typed d\<close> by (simp add: typed_def)
      with Some that show ?thesis by simp
    qed
    moreover have "snd p = 0" if "k = keyChanMsg ch" for ch
    proof -
      have "pred_option (\<lambda>p. snd p = 0) (entry d (keyChanMsg ch))" using \<open>typed d\<close> by (simp add: typed_def)
      with Some that show ?thesis by simp
    qed
    ultimately show ?thesis using Some by (simp add: key_ok_def)
  qed simp
  moreover have "typed d" if H: "\<And>k. pred_option (key_ok k) (entry d k)" and "0 \<notin> set (leases d)"
  proof -
    have "pred_option (user_ok n) (entry d (keyUserCtl n))" "pred_option (nicks_ok i) (entry d (keyChanNicks n i))"
      "pred_option (chan_ok n) (entry d (keyChanCtl n))"
      "pred_option (\<lambda>p. snd p \<noteq> 0) (entry d (keyUserMsg n))"
      "pred_option (\<lambda>p. snd p = 0) (entry d (keyChanMsg n))" for n i
      using H [of "keyUserCtl n"] H [of "keyChanNicks n i"] H [of "keyChanCtl n"]
        H [of "keyUserMsg n"] H [of "keyChanMsg n"] by simp_all
    with that(2) show ?thesis unfolding typed_def by blast
  qed
  ultimately show ?thesis unfolding typed_map_def by (metis typed_def)
qed

lemma typed_map_upd: "typed_map E \<Longrightarrow> pred_option (key_ok k) p \<Longrightarrow> typed_map (E(k := p))"
  by (simp add: typed_map_def)

lemma typed_map_leave: "typed_map E \<Longrightarrow> typed_map (leave_one n lid m ch E)"
proof -
  assume t: "typed_map E"
  show ?thesis
  proof (cases "E (keyChanNicks ch lid)")
    case (Some p)
    have "key_ok (keyChanNicks ch lid) p" using t Some unfolding typed_map_def by (metis option.pred_inject(2))
    with Some t show ?thesis
      by (cases p) (auto simp: leave_one_def nicks_ok_def split: gob.split intro!: typed_map_upd)
  qed (simp add: leave_one_def t)
qed

section \<open>The invariant\<close>

definition net_inv :: "gob etcd \<Rightarrow> bool" where
  "net_inv d \<longleftrightarrow> wf_etcd d \<and> typed d \<and> consistent (view d)"

definition owns :: "gob etcd \<Rightarrow> string \<Rightarrow> int \<Rightarrow> bool" where
  "owns d n lid = (\<forall>uv. user_at d n = Some uv \<longrightarrow> uLease uv = lid)"

lemma view_users [simp]: "nt_users (view d) = user_at d" "nt_nicks (view d) = nicks_at d"
  "nt_chans (view d) = chan_at d" "nt_opers (view d) = oper_at d"
  by (simp_all add: view_def)

lemma net_inv_join:
  assumes "net_inv d" "owns d (ec_nick ec) lid" "atomically (join_body ec ch lid x) d g x' d'"
  shows "net_inv d'"
proof -
  have wf: "wf_etcd d" and ty: "typed d" and co: "consistent (view d)" using assms(1) by (auto simp: net_inv_def)
  from atomically_cases [OF assms(3) wf] have wf': "wf_etcd d'" "leases d' = leases d" by blast+
  from join_entries [OF wf ty assms(3)] obtain uv where uv: "user_at d (ec_nick ec) = Some uv"
    and e: "entry d' = (entry d)(
      keyUserCtl (ec_nick ec) \<mapsto> (GUser (uv\<lparr>uChannels := uChannels uv @ [ch]\<rparr>), lid),
      keyChanCtl ch \<mapsto> (GChannel (joined_chan ch (ge_clock g) (chan_at d ch)), 0),
      keyChanNicks ch lid \<mapsto> (GNicks (nicks_at d ch lid @
        [join_nick (uNick uv) (if chan_at d ch = None then 0 else 1)]), lid),
      keyChanMsg ch \<mapsto> (GMessage (join_msg ec ch), 0))" by blast
  have l: "uLease uv = lid" "uNick uv = ec_nick ec" "lid \<noteq> 0"
    using assms(2) uv typed_user(2) [OF ty uv] by (auto simp: owns_def)
  have "cName (joined_chan ch (ge_clock g) (chan_at d ch)) = ch"
    using typed_chan(2) [OF ty] by (auto simp: joined_chan_def split: option.split)
  then have "typed d'"
    using ty wf'(2) l unfolding typed_iff e by (auto intro!: typed_map_upd)
  moreover from join_refines [OF wf ty assms(3)] uv
  have "view d' = spec_join ec ch lid (ge_clock g) uv (view d)" by auto
  ultimately show ?thesis using wf' consistent_join [OF co _ l(1,2)] uv by (simp add: net_inv_def)
qed

text \<open>A user leaves a channel: \<^verbatim>\<open>PART\<close> and \<^verbatim>\<open>KICK\<close>.\<close>

lemma net_inv_leave:
  assumes "net_inv d" "wf_etcd d'" "leases d' = leases d" "user_at d n = Some uv" "uLease uv = l"
    and e: "entry d' = (entry d)(
      keyUserCtl n \<mapsto> (GUser (uv\<lparr>uChannels := remove1 ch (uChannels uv)\<rparr>), uLease uv),
      keyChanNicks ch l := left_entry d ch l n, keyChanMsg ch \<mapsto> (GMessage m, 0))"
  shows "net_inv d'"
proof -
  have ty: "typed d" and co: "consistent (view d)" using assms(1) by (auto simp: net_inv_def)
  have "pred_option (nicks_ok l) (left_entry d ch l n)"
    using typed_user(2) [OF ty assms(4)] assms(5) by (auto simp: left_entry_def)
  then have "typed d'"
    using ty assms(3) typed_user(2) [OF ty assms(4)] unfolding typed_iff e
    by (auto intro!: typed_map_upd)
  with assms(2) view_leave [OF e] consistent_leave [OF co _ assms(5)] assms(4) show ?thesis
    by (simp add: net_inv_def)
qed

lemma view_cong: "entry d' = entry d \<Longrightarrow> view d' = view d"
  by (simp add: view_defs fun_eq_iff)

lemma net_inv_same: "net_inv d \<Longrightarrow> wf_etcd d' \<Longrightarrow> leases d' = leases d \<Longrightarrow> entry d' = entry d \<Longrightarrow> net_inv d'"
  using view_cong [of d' d] by (simp add: net_inv_def typed_iff)

lemma net_inv_part:
  assumes "net_inv d" "owns d (ec_nick ec) lid" "atomically (part_body ec ch msg lid x) d g x' d'"
  shows "net_inv d'"
proof -
  have wf: "wf_etcd d" and ty: "typed d" using assms(1) by (auto simp: net_inv_def)
  from atomically_cases [OF assms(3) wf] have wf': "wf_etcd d'" "leases d' = leases d" by blast+
  from part_entries [OF wf ty assms(3)] obtain uv where uv: "user_at d (ec_nick ec) = Some uv"
    and e: "entry d' = (if ch \<in> set (uChannels uv) then (entry d)(
      keyUserCtl (ec_nick ec) \<mapsto> (GUser (uv\<lparr>uChannels := remove1 ch (uChannels uv)\<rparr>), uLease uv),
      keyChanNicks ch lid := left_entry d ch lid (ec_nick ec),
      keyChanMsg ch \<mapsto> (GMessage (part_msg ec ch msg), 0)) else entry d)" by blast
  have "uLease uv = lid" using assms(2) uv by (simp add: owns_def)
  with net_inv_leave [OF assms(1) wf' uv] net_inv_same [OF assms(1) wf'] e show ?thesis
    by (cases "ch \<in> set (uChannels uv)") simp_all
qed

lemma net_inv_kick:
  assumes "net_inv d" "atomically (kick_body ec ch nick msg lid x) d g x' d'"
  shows "net_inv d'"
proof -
  have wf: "wf_etcd d" and ty: "typed d" using assms(1) by (auto simp: net_inv_def)
  from atomically_cases [OF assms(2) wf] have wf': "wf_etcd d'" "leases d' = leases d" by blast+
  from kick_entries [OF wf ty assms(2)] net_inv_same [OF assms(1) wf']
    net_inv_leave [OF assms(1) wf' _ refl] show ?thesis by blast
qed

text \<open>A user value changes in its mode and away message only.\<close>

lemma net_inv_user:
  assumes "net_inv d" "wf_etcd d'" "leases d' = leases d" "user_at d n = Some uv"
    and "uNick uv' = uNick uv" "uLease uv' = uLease uv" "uChannels uv' = uChannels uv"
    and e: "entry d' = (entry d)(keyUserCtl n \<mapsto> (GUser uv', uLease uv))"
  shows "net_inv d'"
proof -
  have ty: "typed d" and co: "consistent (view d)" using assms(1) by (auto simp: net_inv_def)
  have "typed d'"
    using ty assms(3,5,6) typed_user(2) [OF ty assms(4)] unfolding typed_iff e
    by (auto intro!: typed_map_upd)
  moreover have "user_at d' = (user_at d)(n \<mapsto> uv')" "nicks_at d' = nicks_at d"
    by (auto simp: user_at_def nicks_at_def e key_simps fun_eq_iff)
  ultimately show ?thesis
    using assms(2,4,6,7) co by (auto simp: net_inv_def consistent_def)
qed

text \<open>Only channel settings and messages change.\<close>

lemma net_inv_other:
  assumes "net_inv d" "wf_etcd d'" "leases d' = leases d" "typed_map (entry d')"
    and "\<And>n. entry d' (keyUserCtl n) = entry d (keyUserCtl n)"
    and "\<And>ch i. entry d' (keyChanNicks ch i) = entry d (keyChanNicks ch i)"
  shows "net_inv d'"
proof -
  have "user_at d' = user_at d" "nicks_at d' = nicks_at d"
    using assms(5,6) by (auto simp: user_at_def nicks_at_def fun_eq_iff)
  with assms(1-4) show ?thesis by (simp add: net_inv_def typed_iff consistent_def)
qed

lemma net_inv_userMode:
  assumes "net_inv d" "atomically (userMode_body ec m x) d g x' d'"
  shows "net_inv d'"
proof -
  have wf: "wf_etcd d" and ty: "typed d" using assms(1) by (auto simp: net_inv_def)
  from atomically_cases [OF assms(2) wf] have wf': "wf_etcd d'" "leases d' = leases d" by blast+
  from userMode_entries [OF wf ty assms(2)] obtain uv where uv: "user_at d (ec_nick ec) = Some uv"
    and e: "case updateSlice (ec_spare ec) (uMode uv) m userModePerms of (mv, bad, upd) \<Rightarrow>
      x' = \<lparr> m_mode = mv, m_bad = bad \<rparr> \<and> entry d' =
        (if upd then (entry d)(keyUserCtl (ec_nick ec) \<mapsto> (GUser (uv\<lparr>uMode := mv\<rparr>), uLease uv)) else entry d)"
    by (elim exE conjE) (rule that)
  obtain mv bad upd where "updateSlice (ec_spare ec) (uMode uv) m userModePerms = (mv, bad, upd)"
    by (metis surj_pair)
  with e uv net_inv_user [OF assms(1) wf', of "ec_nick ec" uv "uv\<lparr>uMode := mv\<rparr>"] net_inv_same [OF assms(1) wf']
  show ?thesis by (cases upd) simp_all
qed

lemma net_inv_away:
  assumes "net_inv d" "atomically (away_body ec msg x) d g x' d'"
  shows "net_inv d'"
proof -
  have wf: "wf_etcd d" and ty: "typed d" using assms(1) by (auto simp: net_inv_def)
  from atomically_cases [OF assms(2) wf] have wf': "wf_etcd d'" "leases d' = leases d" by blast+
  from away_entries [OF wf ty assms(2)] show ?thesis
    by (elim exE conjE) (rule net_inv_user [OF assms(1) wf'], assumption, auto)
qed

lemma net_inv_oper:
  assumes "net_inv d" "atomically (oper_body ec login pass x) d g x' d'"
  shows "net_inv d'"
proof -
  have wf: "wf_etcd d" and ty: "typed d" using assms(1) by (auto simp: net_inv_def)
  from atomically_cases [OF assms(2) wf] have wf': "wf_etcd d'" "leases d' = leases d" by blast+
  from oper_entries [OF wf ty assms(2)] obtain uv where uv: "user_at d (ec_nick ec) = Some uv" and
    "entry d' = entry d \<or> (\<exists>mv. entry d' = (entry d)(keyUserCtl (ec_nick ec) \<mapsto> (GUser (uv\<lparr>uMode := mv\<rparr>), uLease uv)))"
    by (cases "oper_at d login") (simp_all split: if_splits, blast+)
  then obtain mv where "entry d' = entry d \<or>
      entry d' = (entry d)(keyUserCtl (ec_nick ec) \<mapsto> (GUser (uv\<lparr>uMode := mv\<rparr>), uLease uv))" by blast
  with uv net_inv_user [OF assms(1) wf', of "ec_nick ec" uv "uv\<lparr>uMode := mv\<rparr>"] net_inv_same [OF assms(1) wf']
  show ?thesis by auto
qed

lemma net_inv_topic:
  assumes "net_inv d" "atomically (topic_body ec ch msg lid x) d g x' d'"
  shows "net_inv d'"
proof -
  have wf: "wf_etcd d" and ty: "typed d" using assms(1) by (auto simp: net_inv_def)
  from atomically_cases [OF assms(2) wf] have wf': "wf_etcd d'" "leases d' = leases d" by blast+
  from topic_entries [OF wf ty assms(2)] consider "entry d' = entry d"
    | c t where "chan_at d ch = Some c" "entry d' = (entry d)(keyChanCtl ch \<mapsto> (GChannel (c\<lparr>cTopic := t\<rparr>), 0),
        keyChanMsg ch \<mapsto> (GMessage (topic_msg ec ch t), 0))"
    by (auto simp: Let_def split: option.splits if_splits)
  then show ?thesis
  proof cases
    case (2 c t)
    then have "typed_map (entry d')"
      using ty typed_chan(2) [OF ty 2(1)] unfolding typed_iff by (auto intro!: typed_map_upd)
    with 2 show ?thesis by (intro net_inv_other [OF assms(1) wf']) (auto simp: key_simps)
  qed (rule net_inv_same [OF assms(1) wf'])
qed

lemma net_inv_chanMode:
  assumes "net_inv d" "atomically (chanMode_body ec ch m lid x) d g x' d'"
  shows "net_inv d'"
proof -
  have wf: "wf_etcd d" and ty: "typed d" using assms(1) by (auto simp: net_inv_def)
  from atomically_cases [OF assms(2) wf] have wf': "wf_etcd d'" "leases d' = leases d" by blast+
  from chanMode_entries [OF wf ty assms(2)] consider "entry d' = entry d"
    | c mv where "chan_at d ch = Some c" "entry d' = (entry d)(keyChanCtl ch \<mapsto> (GChannel (c\<lparr>cMode := mv\<rparr>), 0))"
    by (auto split: option.splits if_splits prod.splits)
  then show ?thesis
  proof cases
    case (2 c t)
    then have "typed_map (entry d')"
      using ty typed_chan(2) [OF ty 2(1)] unfolding typed_iff by (auto intro!: typed_map_upd)
    with 2 show ?thesis by (intro net_inv_other [OF assms(1) wf']) (auto simp: key_simps)
  qed (rule net_inv_same [OF assms(1) wf'])
qed

text \<open>A message is posted on a message key that is there, or on a channel's.\<close>

lemma typed_map_post:
  assumes "typed_map (entry d)" "k = keyUserMsg n \<and> entry d k \<noteq> None \<or> k = keyChanMsg ch"
  shows "typed_map (post d k m)"
proof -
  have "pred_option (key_ok k) (entry d k)" using assms(1) by (simp add: typed_map_def)
  with assms show ?thesis
    unfolding post_def by (intro typed_map_upd) (cases "entry d k"; auto)+
qed

lemma net_inv_post:
  assumes "net_inv d" "wf_etcd d'" "leases d' = leases d" "entry d' = post d k m"
    "k = keyUserMsg n \<and> entry d k \<noteq> None \<or> k = keyChanMsg ch"
  shows "net_inv d'"
proof (rule net_inv_other [OF assms(1-3)])
  show "typed_map (entry d')"
    using assms(1,4,5) typed_map_post by (auto simp: net_inv_def typed_iff)
qed (use assms(4,5) in \<open>auto simp: post_def key_simps\<close>)

text \<open>A write that ignores the lease went to a key that is there.\<close>

lemma atomically_post:
  assumes "atomically p d g x' d'" "wf_etcd d" "\<And>ws g'. run_pure p d [] g = ((x', None), ws, g') \<Longrightarrow>
    \<exists>v. map_of ws k = Some (v, OpPut k v 0 True False)"
  shows "entry d k \<noteq> None"
  using assms(1,2)
proof (rule atomically_cases)
  fix ws g'
  assume run: "run_pure p d [] g = ((x', None), ws, g')"
    and ok: "\<And>k v l ign. map_of ws k = Some (v, OpPut k v l ign False) \<Longrightarrow>
       (ign \<longrightarrow> lookup d k \<noteq> None) \<and> (l = 0 \<or> l \<in> set (leases d))"
  from assms(3) [OF run] ok show ?thesis by (auto simp: entry_def)
qed

lemma net_inv_privMsgChan:
  assumes "net_inv d" "atomically (privMsgChan_body ec ch msg x) d g x' d'"
  shows "net_inv d'"
proof -
  have wf: "wf_etcd d" and ty: "typed d" using assms(1) by (auto simp: net_inv_def)
  from atomically_cases [OF assms(2) wf] have wf': "wf_etcd d'" "leases d' = leases d" by blast+
  from privMsgChan_entries [OF wf ty assms(2)] consider "entry d' = entry d"
    | m where "entry d' = post d (keyChanMsg ch) m"
    by (auto split: option.splits if_splits)
  then show ?thesis
    by cases (auto intro: net_inv_same [OF assms(1) wf'] net_inv_post [OF assms(1) wf'])
qed

lemma privMsgUser_puts:
  assumes "wf_etcd d" "typed d" "run_pure (privMsgUser_body ec target msg x) d [] g = ((x', None), ws, g')"
  shows "ws = [] \<or> (\<exists>n m. written d ws = post d (keyUserMsg n) m \<and>
    map_of ws (keyUserMsg n) = Some (GMessage m, OpPut (keyUserMsg n) (GMessage m) 0 True False))"
proof (cases "user_at d target")
  case None
  with assms show ?thesis by (auto simp: privMsgUser_body_def user_missing Let_def)
next
  case (Some tv)
  then have c: "entry d (keyUserCtl target) = Some (GUser tv, uLease tv)" using assms(2) by (simp add: typed_user)
  from assms Some c show ?thesis
    by (cases "user_at d (ec_nick ec)")
       (auto simp: privMsgUser_body_def body_simps post_def split: if_splits)
qed

lemma net_inv_privMsgUser:
  assumes "net_inv d" "atomically (privMsgUser_body ec target msg x) d g x' d'"
  shows "net_inv d'"
proof -
  have wf: "wf_etcd d" and ty: "typed d" using assms(1) by (auto simp: net_inv_def)
  show ?thesis
    using assms(2) wf
  proof (rule atomically_cases)
    fix ws g'
    assume run: "run_pure (privMsgUser_body ec target msg x) d [] g = ((x', None), ws, g')"
      and e: "entry d' = written d ws" and wf': "wf_etcd d'" "leases d' = leases d"
      and ok: "\<And>k v l ign. map_of ws k = Some (v, OpPut k v l ign False) \<Longrightarrow>
         (ign \<longrightarrow> lookup d k \<noteq> None) \<and> (l = 0 \<or> l \<in> set (leases d))"
    from privMsgUser_puts [OF wf ty run] show ?thesis
    proof (elim disjE exE conjE)
      assume "ws = []"
      with e net_inv_same [OF assms(1) wf'] show ?thesis by simp
    next
      fix n m
      assume "written d ws = post d (keyUserMsg n) m"
        "map_of ws (keyUserMsg n) = Some (GMessage m, OpPut (keyUserMsg n) (GMessage m) 0 True False)"
      with e ok net_inv_post [OF assms(1) wf', of "keyUserMsg n" m n] show ?thesis
        by (auto simp: entry_def)
    qed
  qed
qed

section \<open>QUIT, registration, sessions\<close>

definition roster_of :: "(string \<Rightarrow> (gob \<times> int) option) \<Rightarrow> string \<Rightarrow> int \<Rightarrow> ChannelNicks" where
  "roster_of E ch l = (case E (keyChanNicks ch l) of Some (GNicks cns, _) \<Rightarrow> cns | _ \<Rightarrow> [])"

lemma nicks_at_roster: "nicks_at d = roster_of (entry d)"
  by (simp add: nicks_at_def roster_of_def fun_eq_iff)

lemma roster_leave_one:
  "roster_of (leave_one n lid m ch E) ch' l' =
     (if ch' = ch \<and> l' = lid then fst (del_nick (roster_of E ch lid) n) else roster_of E ch' l')"
proof (cases "E (keyChanNicks ch lid)")
  case (Some p)
  then show ?thesis
    by (cases p; cases "fst p") (auto simp: roster_of_def leave_one_def key_simps)
qed (auto simp: roster_of_def leave_one_def)

lemma roster_leave_all:
  "count_list (nicks (roster_of (fold (leave_one n lid m) chs E) ch l)) y =
     count_list (nicks (roster_of E ch l)) y - (if y = n \<and> l = lid then count_list chs ch else 0)"
  by (induction chs arbitrary: E) (auto simp: roster_leave_one del_nick_nicks count_list_remove1)

lemma leave_one_users: "leave_one n lid m ch E (keyUserCtl u) = E (keyUserCtl u)"
  by (simp add: leave_one_def key_simps split: option.split gob.split)

lemma leave_all_users: "fold (leave_one n lid m) chs E (keyUserCtl u) = E (keyUserCtl u)"
  by (induction chs arbitrary: E) (simp_all add: leave_one_users)

lemma typed_map_leave_all: "typed_map E \<Longrightarrow> typed_map (fold (leave_one n lid m) chs E)"
  by (induction chs arbitrary: E) (auto intro: typed_map_leave)

lemma net_inv_quit:
  assumes "net_inv d" "owns d (ec_nick ec) lid" "fst (Session g) = Inr lid"
    and "atomically (quit_body ec msg x) d g x' d'"
  shows "net_inv d'"
proof -
  have wf: "wf_etcd d" and ty: "typed d" and co: "consistent (view d)" using assms(1) by (auto simp: net_inv_def)
  from atomically_cases [OF assms(4) wf] have wf': "wf_etcd d'" "leases d' = leases d" by blast+
  from quit_entries [OF wf ty assms(4)] assms(3) obtain uv where uv: "user_at d (ec_nick ec) = Some uv" and
    e: "entry d' = (fold (leave_one (ec_nick ec) lid (quit_msg ec msg)) (uChannels uv) (entry d))
      (keyUserCtl (ec_nick ec) := None, keyUserMsg (ec_nick ec) := None)" by auto
  have l: "uLease uv = lid" using assms(2) uv by (simp add: owns_def)
  have "typed d'"
    using ty wf'(2) unfolding typed_iff e by (auto intro!: typed_map_upd typed_map_leave_all)
  moreover have u: "user_at d' = (user_at d)(ec_nick ec := None)"
    by (auto simp: user_at_def e leave_all_users key_simps fun_eq_iff)
  have "nicks_at d' ch i = roster_of (fold (leave_one (ec_nick ec) lid (quit_msg ec msg)) (uChannels uv) (entry d)) ch i" for ch i
    by (simp add: nicks_at_roster e roster_of_def key_simps)
  then have "consistent (view d')"
    using co uv l unfolding consistent_def
    by (auto simp: u roster_leave_all nicks_at_roster split: option.splits)
  ultimately show ?thesis using wf' by (simp add: net_inv_def)
qed

end
