(* ===== verification/Preservation.thy ===== *)
theory Preservation
  imports Client_Do
begin

text \<open>
  Which actions preserve an invariant of the store, when the other parties do: sends and
  reads always, hence every command that only reads; a transaction when its body does.
\<close>

section \<open>Preservation\<close>

definition holds :: "(gob etcd \<Rightarrow> bool) \<Rightarrow> (genv \<Rightarrow> bool) \<Rightarrow> world \<Rightarrow> bool" where
  "holds I P w \<longleftrightarrow> keeps I w \<and> P (env w)"

definition preserves :: "(world \<Rightarrow> bool) \<Rightarrow> 'a io \<Rightarrow> bool" where
  "preserves S m \<longleftrightarrow> (\<forall>w. S w \<longrightarrow> S (snd (m w)))"

named_theorems preserve \<open>actions that preserve an invariant\<close>

lemma preservesI: "(\<And>w. S w \<Longrightarrow> S (snd (m w))) \<Longrightarrow> preserves S m"
  by (simp add: preserves_def)

lemma preservesD: "preserves S m \<Longrightarrow> S w \<Longrightarrow> S (snd (m w))"
  by (simp add: preserves_def)

lemma preserves_ret [preserve]: "preserves S (ret a)" "preserves S (panic s)" "preserves S (exit n)"
  "preserves S (lift r)" "preserves S (index xs i)"
  by (simp_all add: preserves_def ret_def panic_def exit_def lift_def index_def)

lemma preserves_bnd_result:
  assumes "preserves S m" "\<And>a w w'. S w \<Longrightarrow> m w = (Ok a, w') \<Longrightarrow> preserves S (f a)"
  shows "preserves S (bnd m f)"
proof (rule preservesI)
  fix w
  assume w: "S w"
  obtain r w' where m: "m w = (r, w')" by fastforce
  with preservesD [OF assms(1) w] have "S w'" by simp
  with m w assms(2) show "S (snd (bnd m f w))"
    by (cases r) (auto simp: bnd_def preserves_def)
qed

lemma preserves_bnd [preserve]: "preserves S m \<Longrightarrow> (\<And>a. preserves S (f a)) \<Longrightarrow> preserves S (bnd m f)"
  by (rule preserves_bnd_result)

lemma preserves_bndE_result:
  assumes "preserves S m" "\<And>a w w'. S w \<Longrightarrow> m w = (Ok (Inr a), w') \<Longrightarrow> preserves S (f a)"
  shows "preserves S (bndE m f)"
  unfolding bndE_def
  by (rule preserves_bnd_result [OF assms(1)]) (auto split: sum.split intro: preserves_ret assms(2))

lemma preserves_bndE [preserve]: "preserves S m \<Longrightarrow> (\<And>a. preserves S (f a)) \<Longrightarrow> preserves S (bndE m f)"
  by (rule preserves_bndE_result)

lemma preserves_if [preserve]:
  "(b \<Longrightarrow> preserves S m) \<Longrightarrow> (\<not> b \<Longrightarrow> preserves S m') \<Longrightarrow> preserves S (if b then m else m')"
  by simp

lemma preserves_case_list [preserve]:
  "preserves S m \<Longrightarrow> (\<And>x xs. preserves S (f x xs)) \<Longrightarrow> preserves S (case l of [] \<Rightarrow> m | x # xs \<Rightarrow> f x xs)"
  by (simp split: list.split)

lemma preserves_case_option [preserve]:
  "preserves S m \<Longrightarrow> (\<And>x. preserves S (f x)) \<Longrightarrow> preserves S (case l of None \<Rightarrow> m | Some x \<Rightarrow> f x)"
  by (simp split: option.split)

lemma preserves_case_prod [preserve]:
  "(\<And>x y. preserves S (f x y)) \<Longrightarrow> preserves S (case p of (x, y) \<Rightarrow> f x y)"
  by (simp split: prod.split)

section \<open>Sends and the session\<close>

lemma holds_upd [simp]:
  "holds I P (w\<lparr>ctxs := cs\<rparr>) = holds I P w"
  "holds I P (w\<lparr>out := ms\<rparr>) = holds I P w"
  "holds I P (w\<lparr>chCancel := cc, watches := ws\<rparr>) = holds I P w"
  "holds I P (w\<lparr>watches := ws\<rparr>) = holds I P w"
  by (simp_all add: holds_def)

lemma preserves_ctx_Err [preserve]: "preserves (holds I P) ctx_Err"
  by (rule preservesI) (simp add: ctx_Err_def split: list.split option.split)

lemma preserves_SendMsg [preserve]: "preserves (holds I P) (SendMsg m)"
  by (rule preservesI)
     (simp add: SendMsg_def bndE_def bnd_def ret_def ctx_Err_def split: list.split option.split)

lemma preserves_sendHostMsg [preserve]: "preserves (holds I P) (sendHostMsg ec cmd ps)"
  unfolding sendHostMsg_def by (rule preserve)

lemma preserves_replies [preserve]:
  "preserves (holds I P) (needMoreParams ec)" "preserves (holds I P) (badChanMask ec ch)"
  "preserves (holds I P) (noSuchChannel ec ch)" "preserves (holds I P) (noSuchNick ec n)"
  "preserves (holds I P) (not_on_channel ec ch)" "preserves (holds I P) (not_chan_op ec ch)"
  unfolding needMoreParams_def badChanMask_def noSuchChannel_def noSuchNick_def
    not_on_channel_def not_chan_op_def by (rule preserve)+

lemma preserves_get_session [preserve]: "env_closed P \<Longrightarrow> preserves (holds I P) get_session"
  by (intro preservesI) (simp add: get_session_def holds_def case_prod_beta env_closed_def)

lemma preserves_get_now [preserve]: "env_closed P \<Longrightarrow> preserves (holds I P) get_now"
  by (intro preservesI) (simp add: get_now_def holds_def case_prod_beta env_closed_def)

lemma preserves_last_lease [preserve]: "preserves (holds I P) last_lease"
  by (rule preservesI) (simp add: last_lease_def)

section \<open>Reads\<close>

fun is_get :: "gob op \<Rightarrow> bool" where
  "is_get (OpGet k e r) = True"
| "is_get _ = False"

lemma applyUnions_reads: "list_all is_get reqs \<Longrightarrow> fst (applyUnions d tx reqs) = tx"
proof (induction reqs arbitrary: tx)
  case (Cons req reqs)
  then show ?case by (cases req) (simp_all only: fst_applyUnions_Cons applyUnion.simps is_get.simps list.pred_inject fst_conv simp_thms)
qed simp

lemma Txn_reads: "list_all is_get reqs \<Longrightarrow> Txn d [] reqs [] = Inr (resp, d') \<Longrightarrow> d' = d"
  using applyUnions_reads [of reqs d "(current d, [])"]
  by (auto simp: Txn_def compareToOps_def tx_end_def Let_def split: option.splits prod.splits)

lemma rpc_env: "env (snd (rpc f w)) = env w"
  using rpc_frame [of f w] by simp

lemma preserves_etcd_reads [preserve]:
  assumes "list_all is_get reqs"
  shows "preserves (holds I P) (etcd_txn [] reqs [])"
proof (rule preservesI)
  fix w
  assume "holds I P w"
  then have "keeps I (snd (rpc (\<lambda>d. Txn d [] reqs []) w))"
    using keeps_read [of I w "\<lambda>d. Txn d [] reqs []"] Txn_reads [OF assms] by (auto simp: holds_def)
  with \<open>holds I P w\<close> show "holds I P (snd (etcd_txn [] reqs [] w))"
    by (simp add: etcd_txn_def holds_def rpc_env)
qed

lemma DoOp_reads: "is_get req \<Longrightarrow> DoOp d req = Inr (resp, d') \<Longrightarrow> d' = d"
  by (cases req) (auto simp: DoOp_def tx_end_def split: if_splits)

lemma preserves_etcd_read [preserve]:
  assumes "is_get req"
  shows "preserves (holds I P) (etcd_do req)"
proof (rule preservesI)
  fix w
  assume "holds I P w"
  then have "keeps I (snd (rpc (\<lambda>d. DoOp d req) w))"
    using keeps_read [of I w "\<lambda>d. DoOp d req"] DoOp_reads [OF assms] by (auto simp: holds_def)
  with \<open>holds I P w\<close> show "holds I P (snd (etcd_do req w))"
    by (simp add: etcd_do_def holds_def rpc_env)
qed

lemma is_get_prefix [simp]: "is_get (get_prefix key r)"
  by (simp add: get_prefix_def WithPrefix_def)

lemma is_get_List_ops [simp]: "list_all is_get (List_ops ec chs)"
  by (simp add: List_ops_def list_all_iff)

section \<open>Commands that only read\<close>

lemma preserves_deref_users [preserve]: "preserves S (deref_users kvs)"
  by (induction kvs rule: deref_users.induct) (auto intro!: preserve)

lemma preserves_usersFromNicks [preserve]: "preserves (holds I P) (usersFromNicks ec ns r)"
  unfolding usersFromNicks_def userKeysFromNicks_def
  by (intro preserve) (simp add: list_all_iff)

lemma preserves_usersFromMask [preserve]: "preserves (holds I P) (usersFromMask ec msk r)"
  unfolding usersFromMask_def usersFromChannel_def users_def
  by (intro preserve) simp_all

lemma preserves_nameModes [preserve]: "preserves (holds I P) (nameModes ec ch r)"
  unfolding nameModes_def by (intro preserve) simp

lemma preserves_names [preserve]: "preserves (holds I P) (names ec ch r)"
  unfolding names_def by (intro preserve)

lemma preserves_who_replies [preserve]: "preserves (holds I P) (who_replies ec msk mm us)"
  by (induction us) (auto intro!: preserve)

lemma preserves_send_repls [preserve]: "preserves (holds I P) (send_repls ec rs)"
  by (induction rs) (auto intro!: preserve)

lemma preserves_queries [preserve]:
  "preserves (holds I P) (Names ec ch)" "preserves (holds I P) (Who ec args)"
  "preserves (holds I P) (Whois ec n)" "preserves (holds I P) (List_cmd ec chs)"
  "preserves (holds I P) (Ping ec msg)" "preserves (holds I P) (Die ec)"
  unfolding Names_def Who_def Whois_def List_cmd_def Ping_def Die_def Let_def
  by (intro preserve; simp)+

section \<open>Transactions\<close>

lemma doSTM_env:
  assumes P: "env_closed P" "P (env w)"
  shows "P (env (snd (doSTM body pre x w)))"
proof -
  have "P (env (snd (runSTM n pre body x s w)))" if "P (env w)" for n s w x
    using that
  proof (induction n arbitrary: x s w)
    case (Suc n)
    obtain q s1 w1 where a: "attempt pre body x s w = (q, s1, w1)" by (metis surj_pair)
    with attempt_frame [OF P(1) Suc.prems a] Suc.IH show ?case by (cases q) auto
  qed simp
  from this [OF P(2), of "Suc (length (sched w))" x new_stm] show ?thesis
    by (auto simp: doSTM_def split: prod.splits outcome.splits sum.splits)
qed

lemma preserves_doSTM:
  assumes "env_closed P" "\<And>d. I d \<Longrightarrow> wf_etcd d"
    and "\<And>d x0 g ws x' g' resp d'. I d \<Longrightarrow> P g \<Longrightarrow>
      run_pure (body x0) d [] g = ((x', None), ws, g') \<Longrightarrow> apply_writes d ws = Inr (resp, d') \<Longrightarrow> I d'"
  shows "preserves (holds I P) (doSTM body pre x)"
proof (rule preservesI)
  fix w
  assume "holds I P w"
  then have w: "keeps I w" "P (env w)" by (auto simp: holds_def)
  show "holds I P (snd (doSTM body pre x w))"
    unfolding holds_def
  proof
    show "keeps I (snd (doSTM body pre x w))"
      by (rule doSTM_keeps [OF w(1) assms(2) assms(1) w(2)]) (auto intro: assms(3))
    show "P (env (snd (doSTM body pre x w)))" by (rule doSTM_env [OF assms(1) w(2)])
  qed
qed

end
