(* ===== verification/Ircdctl.thy ===== *)
theory Ircdctl
  imports Client_Queries
begin

text \<open>
  The administration tool under \<^verbatim>\<open>cmd/ircdctl\<close>: operator logins (\<^verbatim>\<open>oper mk\<close>, \<^verbatim>\<open>oper rm\<close>,
  \<^verbatim>\<open>oper ls\<close>) and notices to a user, a channel or everybody.  A command returns the lines that it
  prints; an error ends the process with status 1, and the lines printed before it are not kept.  The notices to everybody are sent by one
  goroutine per user; the model sends them one after the other, and what the goroutines do to each
  other in between is what other parties do.
\<close>

definition exitOnErr :: "error + 'a \<Rightarrow> ('a \<Rightarrow> 'b io) \<Rightarrow> 'b io" where
  "exitOnErr r f = (case r of Inl e \<Rightarrow> exit 1 | Inr a \<Rightarrow> f a)"

section \<open>Operators\<close>

definition oper_put :: "string \<Rightarrow> OperValue \<Rightarrow> gob op" where
  "oper_put login ov = OpPut (keyOperCtl login) (encodeOperValue ov) 0 False False"

definition runOperMk :: "bool \<Rightarrow> string list \<Rightarrow> string list io" where
  "runOperMk flagOperGlobal args =
     (case args of
        [login, pass] \<Rightarrow>
          bnd (etcd_do (oper_put login \<lparr> oPass = pass, oGlobal = flagOperGlobal \<rparr>)) (\<lambda>r.
          exitOnErr r (\<lambda>_. ret []))
      | _ \<Rightarrow> exit 1)"

definition oper_del :: "string \<Rightarrow> gob op" where
  "oper_del login = OpDelete (keyOperCtl login) None False"

definition runOperRm :: "string list \<Rightarrow> string list io" where
  "runOperRm args =
     (case args of
        [login] \<Rightarrow> bnd (etcd_do (oper_del login)) (\<lambda>r. exitOnErr r (\<lambda>_. ret []))
      | _ \<Rightarrow> exit 1)"

definition oper_line :: "string \<Rightarrow> OperValue \<Rightarrow> string" where
  "oper_line k ov = k @ '': &{Pass:'' @ oPass ov @ '' Global:'' @ (if oGlobal ov then ''true'' else ''false'') @ ''}''"

fun print_opers :: "(string \<times> gob KeyValue) list \<Rightarrow> string list io" where
  "print_opers [] = ret []"
| "print_opers (kv # kvs) =
     exitOnErr (decodeOperValue (kv_Value (snd kv))) (\<lambda>ov.
       bnd (print_opers kvs) (\<lambda>ls. ret (oper_line (fst kv) ov # ls)))"

definition runOperLs :: "string list io" where
  "runOperLs = bnd (etcd_do (get_prefix (keyOperCtl []) 0)) (\<lambda>r.
     exitOnErr r (\<lambda>resp. print_opers (kvs_of_resp resp)))"

section \<open>Notices\<close>

definition notice_msg :: "string \<Rightarrow> string \<Rightarrow> Message" where
  "notice_msg k text =
     \<lparr> mPrefix = Some \<lparr> pName = ''ircdctl'', pUser = [], pHost = [] \<rparr>, mCommand = ''NOTICE'',
       mParams = [last (Split k (CHR ''/'')), text] \<rparr>"

definition msgf :: "string \<Rightarrow> string \<Rightarrow> string list io" where
  "msgf text k =
     bnd (etcd_txn [CmpVersion k CGt 0] [OpPut k (encodeMessage (notice_msg k text)) 0 True False] []) (\<lambda>r.
     exitOnErr r (\<lambda>resp. ret (if tr_Succeeded resp then [] else [k @ '' does not exist''])))"

fun msgfs :: "string \<Rightarrow> string list \<Rightarrow> string list io" where
  "msgfs text [] = ret []"
| "msgfs text (k # ks) = bnd (msgf text k) (\<lambda>ls. bnd (msgfs text ks) (\<lambda>ls'. ret (ls @ ls')))"

definition runNotice :: "string \<Rightarrow> string list \<Rightarrow> string list io" where
  "runNotice flagTarget args =
     (case args of
        [text] \<Rightarrow>
          if flagTarget \<noteq> [] then
            msgf text (if isChan flagTarget then keyChanMsg flagTarget else keyUserMsg flagTarget)
          else bnd (etcd_do (get_prefix (keyUserMsg []) 0)) (\<lambda>r.
            exitOnErr r (\<lambda>resp. msgfs text (map fst (kvs_of_resp resp))))
      | _ \<Rightarrow> exit 1)"

end
