(* ===== verification/Net_System.thy ===== *)
theory Net_System
  imports Net_Invariant Preservation Ircdctl
begin

text \<open>
  The whole system.  \<open>net_step\<close> is one atomic step of any party; \<open>reachable\<close> are the stores that
  steps lead to from the empty store.  Every reachable store satisfies the invariant, and every
  message handled by \<^verbatim>\<open>ClientDo\<close> moves the store along such steps, under every interleaving with
  other parties and every request failure.
\<close>

section \<open>Steps\<close>

abbreviation register_txn :: "UserValue \<Rightarrow> int \<Rightarrow> gob etcd \<Rightarrow> error + gob TxnResponse \<times> gob etcd" where
  "register_txn uv lid \<equiv> (\<lambda>d. Txn d [CmpVersion (keyUserCtl (uNick uv)) CEq 0]
     [OpPut (keyUserCtl (uNick uv)) (encodeUserValue uv) lid False False,
      OpPut (keyUserMsg (uNick uv)) (Raw []) lid False False] [])"

abbreviation reap_txn :: "string \<Rightarrow> nat \<Rightarrow> gob etcd \<Rightarrow> error + gob TxnResponse \<times> gob etcd" where
  "reap_txn k m \<equiv> (\<lambda>d. Txn d [CmpModRevision k CEq m] [OpDelete k None False] [])"

abbreviation notice_txn :: "string \<Rightarrow> Message \<Rightarrow> gob etcd \<Rightarrow> error + gob TxnResponse \<times> gob etcd" where
  "notice_txn k m \<equiv> (\<lambda>d. Txn d [CmpVersion k CGt 0] [OpPut k (encodeMessage m) 0 True False] [])"

inductive net_step :: "gob etcd \<Rightarrow> gob etcd \<Rightarrow> bool" where
  step_grant: "LeaseGrant d i = Inr d' \<Longrightarrow> net_step d d'"
| step_revoke: "LeaseRevoke d i = Inr d' \<Longrightarrow> net_step d d'"
| step_register: "lid \<noteq> 0 \<Longrightarrow> uLease uv = lid \<Longrightarrow> uChannels uv = [] \<Longrightarrow>
    register_txn uv lid d = Inr (resp, d') \<Longrightarrow> net_step d d'"
| step_join: "owns d (ec_nick ec) lid \<Longrightarrow> atomically (join_body ec ch lid topic) d g x d' \<Longrightarrow> net_step d d'"
| step_part: "owns d (ec_nick ec) lid \<Longrightarrow> atomically (part_body ec ch msg lid onChannel) d g x d' \<Longrightarrow> net_step d d'"
| step_kick: "atomically (kick_body ec ch nick msg lid kv) d g x d' \<Longrightarrow> net_step d d'"
| step_quit: "owns d (ec_nick ec) lid \<Longrightarrow> fst (Session g) = Inr lid \<Longrightarrow>
    atomically (quit_body ec msg u) d g x d' \<Longrightarrow> net_step d d'"
| step_topic: "atomically (topic_body ec ch t lid cv) d g x d' \<Longrightarrow> net_step d d'"
| step_chanMode: "atomically (chanMode_body ec ch m lid cv) d g x d' \<Longrightarrow> net_step d d'"
| step_userMode: "atomically (userMode_body ec m mv) d g x d' \<Longrightarrow> net_step d d'"
| step_away: "atomically (away_body ec msg u) d g x d' \<Longrightarrow> net_step d d'"
| step_oper: "atomically (oper_body ec login pass loggedIn) d g x d' \<Longrightarrow> net_step d d'"
| step_privMsgUser: "atomically (privMsgUser_body ec target msg pv) d g x d' \<Longrightarrow> net_step d d'"
| step_privMsgChan: "atomically (privMsgChan_body ec ch msg pv) d g x d' \<Longrightarrow> net_step d d'"
| step_reap: "k = keyChanNicks ch i \<Longrightarrow>
    (\<And>kv. lookup d k = Some kv \<Longrightarrow> kv_ModRevision kv = m \<Longrightarrow> kv_Value kv = encodeChannelNicks []) \<Longrightarrow>
    reap_txn k m d = Inr (resp, d') \<Longrightarrow> net_step d d'"
| step_operMk: "DoOp d (oper_put login ov) = Inr (q, d') \<Longrightarrow> net_step d d'"
| step_operRm: "DoOp d (oper_del login) = Inr (q, d') \<Longrightarrow> net_step d d'"
| step_notice: "k = keyUserMsg n \<or> k = keyChanMsg n \<Longrightarrow> notice_txn k m d = Inr (resp, d') \<Longrightarrow> net_step d d'"

inductive reachable :: "gob etcd \<Rightarrow> bool" where
  reach_init: "reachable init_etcd"
| reach_step: "reachable d \<Longrightarrow> net_step d d' \<Longrightarrow> reachable d'"

section \<open>The remaining steps keep the invariant\<close>

lemma Txn_no_ops:
  "Txn d cmps succ [] = Inr (resp, d') \<Longrightarrow> \<not> tr_Succeeded resp \<Longrightarrow> d' = d"
  using Txn_failed [of d cmps succ "[]" resp d'] by simp

lemma Txn_writes:
  assumes "Txn d cmps (puts ws) [] = Inr (resp, d')" "tr_Succeeded resp" "good_ws ws" "wf_etcd d"
  shows "list_all (applyCompare d) cmps \<and> entry d' = written d ws \<and> wf_etcd d' \<and> leases d' = leases d"
proof -
  from Txn_succeeded [OF assms(1,2)] have *: "list_all (applyCompare d) cmps" "apply_writes d ws = Inr (resp, d')"
    by (auto simp: apply_writes_def)
  from apply_writes_entry [OF *(2) assms(3)] have "entry d' = written d ws"
    by (simp add: written_def fun_eq_iff)
  with * apply_writes_ok [OF *(2) assms(4)] show ?thesis by blast
qed

lemma register_entries:
  assumes "wf_etcd d" "register_txn uv lid d = Inr (resp, d')"
  shows "if tr_Succeeded resp
    then entry d (keyUserCtl (uNick uv)) = None \<and> wf_etcd d' \<and> leases d' = leases d \<and>
      entry d' = (entry d)(keyUserCtl (uNick uv) \<mapsto> (GUser uv, lid), keyUserMsg (uNick uv) \<mapsto> (Raw [], lid))
    else d' = d"
proof (cases "tr_Succeeded resp")
  case True
  let ?ws = "[(keyUserCtl (uNick uv), GUser uv, OpPut (keyUserCtl (uNick uv)) (GUser uv) lid False False),
    (keyUserMsg (uNick uv), Raw [], OpPut (keyUserMsg (uNick uv)) (Raw []) lid False False)]"
  have "good_ws ?ws"
    by (auto simp: good_ws_def write_op_def snap_sorted_def keyUserCtl_def keyUserMsg_def less_char_def)
  with Txn_writes [of d "[CmpVersion (keyUserCtl (uNick uv)) CEq 0]" ?ws resp d'] assms True
  have "list_all (applyCompare d) [CmpVersion (keyUserCtl (uNick uv)) CEq 0]" "entry d' = written d ?ws"
    "wf_etcd d'" "leases d' = leases d"
    by (auto simp: puts_def encode_defs)
  moreover from this(1) version_pos [OF assms(1), of "keyUserCtl (uNick uv)"] have "entry d (keyUserCtl (uNick uv)) = None"
    by (cases "lookup d (keyUserCtl (uNick uv))") (auto simp: entry_def)
  ultimately show ?thesis using True
    by (auto simp: written_def fun_eq_iff key_simps)
next
  case False
  with Txn_no_ops [OF assms(2)] show ?thesis by simp
qed

lemma net_inv_register:
  assumes "net_inv d" "lid \<noteq> 0" "uLease uv = lid" "uChannels uv = []" "register_txn uv lid d = Inr (resp, d')"
  shows "net_inv d'"
proof -
  have wf: "wf_etcd d" and ty: "typed d" and co: "consistent (view d)" using assms(1) by (auto simp: net_inv_def)
  note reg = register_entries [OF wf assms(5)]
  show ?thesis
  proof (cases "tr_Succeeded resp")
    case True
    with reg have e: "entry d' = (entry d)(keyUserCtl (uNick uv) \<mapsto> (GUser uv, lid), keyUserMsg (uNick uv) \<mapsto> (Raw [], lid))"
      and new: "user_at d (uNick uv) = None" and wf': "wf_etcd d'" "leases d' = leases d"
      by (auto simp: user_at_def)
    have "typed d'" using ty wf'(2) assms(2,3) unfolding typed_iff e by (auto intro!: typed_map_upd)
    moreover have "user_at d' = (user_at d)(uNick uv \<mapsto> uv)" "nicks_at d' = nicks_at d"
      by (auto simp: user_at_def nicks_at_def e key_simps fun_eq_iff)
    ultimately show ?thesis
      using wf' co new assms(4) by (auto simp: net_inv_def consistent_def split: option.splits)
  next
    case False
    with reg assms(1) show ?thesis by simp
  qed
qed

lemma revoke_view:
  assumes ty: "typed d" and wf: "wf_etcd d" and r: "LeaseRevoke d i = Inr d'"
  shows "user_at d' n = (case user_at d n of None \<Rightarrow> None | Some uv \<Rightarrow> if uLease uv = i then None else Some uv)"
    and "nicks_at d' ch l = (if l = i then [] else nicks_at d ch l)"
proof -
  note e = LeaseRevoke_entry [OF r wf]
  show "user_at d' n = (case user_at d n of None \<Rightarrow> None | Some uv \<Rightarrow> if uLease uv = i then None else Some uv)"
    using typed_user(1) [OF ty, of n] by (simp add: user_at_def [of d'] e split: option.split)
  show "nicks_at d' ch l = (if l = i then [] else nicks_at d ch l)"
    using typed_nicks [OF ty, of ch l]
    by (cases "entry d (keyChanNicks ch l)") (auto simp: nicks_at_def e)
qed

lemma net_inv_revoke:
  assumes "net_inv d" "LeaseRevoke d i = Inr d'"
  shows "net_inv d'"
proof -
  have wf: "wf_etcd d" and ty: "typed d" and co: "consistent (view d)" using assms(1) by (auto simp: net_inv_def)
  note e = LeaseRevoke_entry [OF assms(2) wf]
  have "wf_etcd d'" using LeaseRevoke_extends [OF wf assms(2)] by (simp add: extends_def)
  moreover have "leases d' = removeAll i (leases d)"
    using assms(2) by (auto simp: LeaseRevoke_def Let_def split: if_splits)
  then have "typed d'"
    using ty unfolding typed_iff typed_map_def e
    by (auto split: option.split prod.split) (metis option.pred_inject(2))
  moreover have "consistent (view d')"
    using co unfolding consistent_def by (auto simp: revoke_view [OF ty wf assms(2)] split: option.splits)
  ultimately show ?thesis by (simp add: net_inv_def)
qed

lemma net_inv_grant: "net_inv d \<Longrightarrow> LeaseGrant d i = Inr d' \<Longrightarrow> net_inv d'"
  by (auto simp: LeaseGrant_def net_inv_def wf_etcd_def typed_def consistent_def view_def user_at_def
      nicks_at_def entry_def lookup_def current_def split: if_splits)

lemma reap_entries:
  assumes "wf_etcd d" "reap_txn k m d = Inr (resp, d')"
  shows "if tr_Succeeded resp
    then modrev (lookup d k) = m \<and> entry d' = (entry d)(k := None) \<and> wf_etcd d' \<and> leases d' = leases d
    else d' = d"
proof (cases "tr_Succeeded resp")
  case True
  let ?ws = "[(k, Raw [], OpDelete k None False)]"
  have "good_ws ?ws" by (simp add: good_ws_def write_op_def snap_sorted_def)
  with Txn_writes [of d "[CmpModRevision k CEq m]" ?ws resp d'] assms True
  have "list_all (applyCompare d) [CmpModRevision k CEq m]" "entry d' = written d ?ws"
    "wf_etcd d'" "leases d' = leases d" by (auto simp: puts_def)
  with True show ?thesis by (auto simp: modrev_def written_def fun_eq_iff split: option.splits)
next
  case False
  with Txn_no_ops [OF assms(2)] show ?thesis by simp
qed

lemma net_inv_reap:
  assumes "net_inv d" and k: "k = keyChanNicks ch i"
    and "\<And>kv. lookup d k = Some kv \<Longrightarrow> kv_ModRevision kv = m \<Longrightarrow> kv_Value kv = encodeChannelNicks []"
    and txn: "reap_txn k m d = Inr (resp, d')"
  shows "net_inv d'"
proof (cases "tr_Succeeded resp")
  case True
  have wf: "wf_etcd d" and ty: "typed d" and co: "consistent (view d)" using assms(1) by (auto simp: net_inv_def)
  from reap_entries [OF wf txn] True have m: "modrev (lookup d k) = m"
    and e: "entry d' = (entry d)(k := None)" and wf': "wf_etcd d'" "leases d' = leases d" by auto
  have empty: "nicks_at d ch i = []"
    using m assms(3) by (cases "lookup d k") (auto simp: nicks_at_def entry_def k modrev_def encode_defs)
  have "typed d'" using ty wf'(2) unfolding typed_iff e by (auto intro!: typed_map_upd)
  moreover have "user_at d' = user_at d" "nicks_at d' = nicks_at d"
    using empty by (auto simp: user_at_def nicks_at_def e k key_simps fun_eq_iff)
  ultimately show ?thesis using wf' co by (simp add: net_inv_def consistent_def)
next
  case False
  with Txn_no_ops [OF txn] assms(1) show ?thesis by simp
qed

lemma oper_entries_ctl:
  assumes "wf_etcd d"
  shows "DoOp d (oper_put login ov) = Inr (q, d') \<Longrightarrow>
      entry d' = (entry d)(keyOperCtl login \<mapsto> (GOper ov, 0)) \<and> wf_etcd d' \<and> leases d' = leases d"
    and "DoOp d (oper_del login) = Inr (q, d') \<Longrightarrow>
      entry d' = (entry d)(keyOperCtl login := None) \<and> wf_etcd d' \<and> leases d' = leases d"
proof -
  assume "DoOp d (oper_put login ov) = Inr (q, d')"
  from DoOp_write [OF this, of "keyOperCtl login" "GOper ov"] assms
  show "entry d' = (entry d)(keyOperCtl login \<mapsto> (GOper ov, 0)) \<and> wf_etcd d' \<and> leases d' = leases d"
    by (auto simp: oper_put_def write_op_def encode_defs)
next
  assume "DoOp d (oper_del login) = Inr (q, d')"
  from DoOp_write [OF this, of "keyOperCtl login" "Raw []"] assms
  show "entry d' = (entry d)(keyOperCtl login := None) \<and> wf_etcd d' \<and> leases d' = leases d"
    by (auto simp: oper_del_def write_op_def)
qed

lemma net_inv_operCtl:
  assumes "net_inv d" "entry d' = (entry d)(keyOperCtl login := e)" "wf_etcd d'" "leases d' = leases d"
  shows "net_inv d'"
proof (rule net_inv_other [OF assms(1,3,4)])
  have "typed_map (entry d)" using assms(1) by (simp add: net_inv_def typed_iff)
  then show "typed_map (entry d')" unfolding assms(2) by (rule typed_map_upd) (cases e; simp add: key_ok_def key_simps)
qed (simp_all add: assms(2) key_simps)

lemma net_inv_oper_commands:
  assumes "net_inv d"
  shows "DoOp d (oper_put login ov) = Inr (q, d') \<Longrightarrow> net_inv d'"
    and "DoOp d (oper_del login) = Inr (q, d') \<Longrightarrow> net_inv d'"
proof -
  have wf: "wf_etcd d" using assms by (simp add: net_inv_def)
  show "net_inv d'" if "DoOp d (oper_put login ov) = Inr (q, d')"
    using oper_entries_ctl(1) [OF wf that] by (intro net_inv_operCtl [OF assms]) simp_all
  show "net_inv d'" if "DoOp d (oper_del login) = Inr (q, d')"
    using oper_entries_ctl(2) [OF wf that] by (intro net_inv_operCtl [OF assms]) simp_all
qed

lemma notice_entries:
  assumes "wf_etcd d" "notice_txn k m d = Inr (resp, d')"
  shows "if tr_Succeeded resp
    then entry d k \<noteq> None \<and> entry d' = post d k m \<and> wf_etcd d' \<and> leases d' = leases d
    else d' = d"
proof (cases "tr_Succeeded resp")
  case True
  let ?ws = "[(k, GMessage m, OpPut k (GMessage m) 0 True False)]"
  have "good_ws ?ws" by (auto simp: good_ws_def write_op_def snap_sorted_def)
  with Txn_writes [of d "[CmpVersion k CGt 0]" ?ws resp d'] assms True
  have "list_all (applyCompare d) [CmpVersion k CGt 0]" "entry d' = written d ?ws"
    "wf_etcd d'" "leases d' = leases d" by (auto simp: puts_def encode_defs)
  with True show ?thesis
    by (auto simp: entry_def written_def post_def fun_eq_iff split: option.splits)
next
  case False
  with Txn_no_ops [OF assms(2)] show ?thesis by simp
qed

lemma net_inv_notice:
  assumes "net_inv d" "k = keyUserMsg n \<or> k = keyChanMsg n" "notice_txn k m d = Inr (resp, d')"
  shows "net_inv d'"
proof -
  have "wf_etcd d" using assms(1) by (simp add: net_inv_def)
  from notice_entries [OF this assms(3)] assms show ?thesis
    by (cases "tr_Succeeded resp") (auto intro: net_inv_post)
qed

lemma net_step_inv: "net_step d d' \<Longrightarrow> net_inv d \<Longrightarrow> net_inv d'"
  by (induction rule: net_step.induct)
     (blast intro: net_inv_grant net_inv_revoke net_inv_register net_inv_join net_inv_part net_inv_kick
       net_inv_quit net_inv_topic net_inv_chanMode net_inv_userMode net_inv_away net_inv_oper
       net_inv_privMsgUser net_inv_privMsgChan net_inv_reap net_inv_oper_commands net_inv_notice)+

lemma net_inv_init: "net_inv init_etcd"
proof -
  have "entry init_etcd k = None" for k by (simp add: entry_def lookup_def current_def init_etcd_def)
  then show ?thesis
    by (simp add: net_inv_def wf_init typed_def consistent_def user_at_def nicks_at_def)
       (simp add: init_etcd_def)
qed

lemma reachable_inv: "reachable d \<Longrightarrow> net_inv d"
  by (induction rule: reachable.induct) (auto intro: net_inv_init net_step_inv)

section \<open>The leases of users\<close>

text \<open>No command moves a user to another lease.\<close>

definition lease_stable :: "gob etcd \<Rightarrow> gob etcd \<Rightarrow> bool" where
  "lease_stable d d' \<longleftrightarrow>
     (\<forall>n uv'. user_at d' n = Some uv' \<longrightarrow> (\<exists>uv. user_at d n = Some uv \<and> uLease uv' = uLease uv))"

lemma owns_stable: "owns d n lid \<Longrightarrow> lease_stable d d' \<Longrightarrow> owns d' n lid"
  by (fastforce simp: owns_def lease_stable_def)

lemma lease_stable_upd:
  assumes "\<And>n. entry d' (keyUserCtl n) = entry d (keyUserCtl n) \<or> entry d' (keyUserCtl n) = None \<or>
    (\<exists>uv uv' l. user_at d n = Some uv \<and> entry d' (keyUserCtl n) = Some (GUser uv', l) \<and> uLease uv' = uLease uv)"
  shows "lease_stable d d'"
  unfolding lease_stable_def
proof (intro allI impI)
  fix n uv'
  assume u: "user_at d' n = Some uv'"
  from assms [of n] show "\<exists>uv. user_at d n = Some uv \<and> uLease uv' = uLease uv"
  proof (elim disjE exE conjE)
    assume "entry d' (keyUserCtl n) = entry d (keyUserCtl n)"
    with u show ?thesis by (simp add: user_at_def)
  qed (use u in \<open>auto simp: user_at_def\<close>)
qed

text \<open>One command of a client, as a body and the lease it acts under.\<close>

lemma command_stable:
  assumes "wf_etcd d" "typed d"
  shows "atomically (join_body ec ch lid topic) d g x d' \<Longrightarrow> lease_stable d d'"
    and "atomically (part_body ec ch msg lid b) d g b' d' \<Longrightarrow> lease_stable d d'"
    and "atomically (kick_body ec ch nick msg lid kv) d g kv' d' \<Longrightarrow> lease_stable d d'"
    and "atomically (quit_body ec msg u) d g u' d' \<Longrightarrow> lease_stable d d'"
    and "atomically (topic_body ec ch t lid cv) d g cv' d' \<Longrightarrow> lease_stable d d'"
    and "atomically (chanMode_body ec ch m lid cv) d g cv' d' \<Longrightarrow> lease_stable d d'"
    and "atomically (userMode_body ec m mv) d g mv' d' \<Longrightarrow> lease_stable d d'"
    and "atomically (away_body ec msg u) d g u' d' \<Longrightarrow> lease_stable d d'"
    and "atomically (oper_body ec login pass b) d g b' d' \<Longrightarrow> lease_stable d d'"
    and "atomically (privMsgUser_body ec target msg pv) d g pv' d' \<Longrightarrow> lease_stable d d'"
    and "atomically (privMsgChan_body ec ch msg pv) d g pv' d' \<Longrightarrow> lease_stable d d'"
proof -
  show "lease_stable d d'" if "atomically (join_body ec ch lid topic) d g x d'"
    using join_entries [OF assms that] by (intro lease_stable_upd) (auto simp: key_simps)
  show "lease_stable d d'" if "atomically (part_body ec ch msg lid b) d g b' d'"
    using part_entries [OF assms that] by (intro lease_stable_upd) (auto simp: key_simps)
  show "lease_stable d d'" if "atomically (kick_body ec ch nick msg lid kv) d g kv' d'"
    using kick_entries [OF assms that] by (intro lease_stable_upd) (auto simp: key_simps)
  show "lease_stable d d'" if "atomically (quit_body ec msg u) d g u' d'"
    using quit_entries [OF assms that] by (intro lease_stable_upd) (auto simp: key_simps leave_all_users)
  show "lease_stable d d'" if "atomically (topic_body ec ch t lid cv) d g cv' d'"
    using topic_entries [OF assms that]
    by (intro lease_stable_upd) (auto simp: key_simps Let_def split: option.splits if_splits)
  show "lease_stable d d'" if "atomically (chanMode_body ec ch m lid cv) d g cv' d'"
    using chanMode_entries [OF assms that]
    by (intro lease_stable_upd) (auto simp: key_simps split: option.splits if_splits prod.splits)
  show "lease_stable d d'" if "atomically (userMode_body ec m mv) d g mv' d'"
    using userMode_entries [OF assms that]
    by (intro lease_stable_upd) (auto simp: key_simps split: if_splits prod.splits)
  show "lease_stable d d'" if "atomically (away_body ec msg u) d g u' d'"
    using away_entries [OF assms that] by (intro lease_stable_upd) (auto simp: key_simps)
  show "lease_stable d d'" if "atomically (oper_body ec login pass b) d g b' d'"
    using oper_entries [OF assms that]
    by (intro lease_stable_upd) (auto simp: key_simps split: option.splits if_splits)
  show "lease_stable d d'" if "atomically (privMsgUser_body ec target msg pv) d g pv' d'"
    using privMsgUser_entries [OF assms that]
    by (intro lease_stable_upd) (auto simp: key_simps post_def split: option.splits if_splits)
  show "lease_stable d d'" if "atomically (privMsgChan_body ec ch msg pv) d g pv' d'"
    using privMsgChan_entries [OF assms that]
    by (intro lease_stable_upd) (auto simp: key_simps post_def split: option.splits if_splits)
qed

section \<open>Every command moves along steps\<close>

text \<open>
  The server's session: whenever \<^verbatim>\<open>Session()\<close> answers, it answers the lease under which the client
  registered.  (A lost session that is replaced by a new one is not covered: the code then
  writes the client's channels under the new lease.)
\<close>

definition ses_is :: "int \<Rightarrow> genv \<Rightarrow> bool" where
  "ses_is lid g \<longleftrightarrow> ge_last g = lid \<and> (\<forall>s \<in> set (ge_ses g # ge_next g). case s of Inl e \<Rightarrow> True | Inr l \<Rightarrow> l = lid)"

lemma env_closed_ses_is: "env_closed (ses_is lid)"
  unfolding env_closed_def
proof (intro allI impI)
  fix g
  assume "ses_is lid g"
  then show "ses_is lid (snd (Session g)) \<and> ses_is lid (snd (Now g))"
    by (cases "ge_next g") (auto simp: ses_is_def Session_def Now_def split: sum.splits)
qed

lemma Session_ses_is: "ses_is lid g \<Longrightarrow> fst (Session g) = Inr l \<Longrightarrow> l = lid"
  by (auto simp: ses_is_def Session_def split: list.splits)

text \<open>The invariant of a client with a nick and a lease.\<close>

definition net_ok :: "string \<Rightarrow> int \<Rightarrow> gob etcd \<Rightarrow> bool" where
  "net_ok n lid d \<longleftrightarrow> reachable d \<and> owns d n lid"

abbreviation system :: "string \<Rightarrow> int \<Rightarrow> world \<Rightarrow> bool" where
  "system n lid \<equiv> holds (net_ok n lid) (ses_is lid)"

lemma net_ok_wf: "net_ok n lid d \<Longrightarrow> wf_etcd d \<and> typed d"
  using reachable_inv by (auto simp: net_ok_def net_inv_def)

lemma preserves_body:
  assumes "\<And>d x0 g x' d'. net_ok n lid d \<Longrightarrow> ses_is lid g \<Longrightarrow> atomically (body x0) d g x' d' \<Longrightarrow>
    net_step d d' \<and> lease_stable d d'"
  shows "preserves (system n lid) (doSTM body pre x)"
proof (rule preserves_doSTM [OF env_closed_ses_is])
  fix d x0 g ws x' g' resp d'
  assume ok: "net_ok n lid d" and "ses_is lid g"
    and "run_pure (body x0) d [] g = ((x', None), ws, g')" "apply_writes d ws = Inr (resp, d')"
  then have "atomically (body x0) d g x' d'" unfolding atomically_def by blast
  from assms [OF ok \<open>ses_is lid g\<close> this] have "net_step d d'" "lease_stable d d'" by auto
  with ok show "net_ok n lid d'" by (auto simp: net_ok_def intro: reach_step owns_stable)
qed (simp add: net_ok_wf)

lemma preserves_session_lease:
  assumes "preserves (system n lid) (f lid)"
  shows "preserves (system n lid) (bndE get_session f)"
proof (rule preserves_bndE_result)
  show "preserves (system n lid) get_session" by (rule preserves_get_session [OF env_closed_ses_is])
  fix l w w'
  assume "system n lid w" "get_session w = (Ok (Inr l), w')"
  then have "l = lid"
    using Session_ses_is [of lid "env w" l] by (simp add: get_session_def holds_def case_prod_beta)
  with assms show "preserves (system n lid) (f l)" by simp
qed

lemma preserves_last_lease_result:
  assumes "preserves (system n lid) (f lid)"
  shows "preserves (system n lid) (bnd last_lease f)"
proof (rule preserves_bnd_result)
  show "preserves (system n lid) last_lease" by (rule preserves_last_lease)
  fix l w w'
  assume "system n lid w" "last_lease w = (Ok l, w')"
  with assms show "preserves (system n lid) (f l)" by (simp add: last_lease_def holds_def ses_is_def)
qed

lemma preserves_monitorChannel [preserve]: "preserves (holds I P) (monitorChannel ch r)"
  by (rule preservesI) (simp add: monitorChannel_def holds_def)

text \<open>The transactions of the commands.\<close>

lemma preserves_join_body [preserve]:
  "preserves (system (ec_nick ec) lid) (doSTM (join_body ec ch lid) pre topic)"
  using command_stable(1) step_join net_ok_wf
  by (intro preserves_body) (auto simp: net_ok_def)

lemma preserves_part_body [preserve]:
  "preserves (system (ec_nick ec) lid) (doSTM (part_body ec ch msg lid) pre b)"
  using command_stable(2) step_part net_ok_wf
  by (intro preserves_body) (auto simp: net_ok_def)

lemma preserves_kick_body [preserve]:
  "preserves (system (ec_nick ec) lid) (doSTM (kick_body ec ch nick msg lid) pre kv)"
  using command_stable(3) step_kick net_ok_wf
  by (intro preserves_body) (auto simp: net_ok_def)

lemma preserves_topic_body [preserve]:
  "preserves (system (ec_nick ec) lid) (doSTM (topic_body ec ch t lid) pre cv)"
  using command_stable(5) step_topic net_ok_wf
  by (intro preserves_body) (auto simp: net_ok_def)

lemma preserves_chanMode_body [preserve]:
  "preserves (system (ec_nick ec) lid) (doSTM (chanMode_body ec ch m lid) pre cv)"
  using command_stable(6) step_chanMode net_ok_wf
  by (intro preserves_body) (auto simp: net_ok_def)

lemma preserves_userMode_body [preserve]:
  "preserves (system (ec_nick ec) lid) (doSTM (userMode_body ec m) pre mv)"
  using command_stable(7) step_userMode net_ok_wf
  by (intro preserves_body) (auto simp: net_ok_def)

lemma preserves_away_body [preserve]:
  "preserves (system (ec_nick ec) lid) (doSTM (away_body ec msg) pre u)"
  using command_stable(8) step_away net_ok_wf
  by (intro preserves_body) (auto simp: net_ok_def)

lemma preserves_oper_body [preserve]:
  "preserves (system (ec_nick ec) lid) (doSTM (oper_body ec login pass) pre b)"
  using command_stable(9) step_oper net_ok_wf
  by (intro preserves_body) (auto simp: net_ok_def)

lemma preserves_privMsgUser_body [preserve]:
  "preserves (system (ec_nick ec) lid) (doSTM (privMsgUser_body ec target msg) pre pv)"
  using command_stable(10) step_privMsgUser net_ok_wf
  by (intro preserves_body) (auto simp: net_ok_def)

lemma preserves_privMsgChan_body [preserve]:
  "preserves (system (ec_nick ec) lid) (doSTM (privMsgChan_body ec ch msg) pre pv)"
  using command_stable(11) step_privMsgChan net_ok_wf
  by (intro preserves_body) (auto simp: net_ok_def)

lemma preserves_quit_body [preserve]: "preserves (system (ec_nick ec) lid) (doSTM (quit_body ec msg) pre u)"
proof (rule preserves_body)
  fix d x0 g x' d'
  assume ok: "net_ok (ec_nick ec) lid d" and s: "ses_is lid g" and a: "atomically (quit_body ec msg x0) d g x' d'"
  note wf = net_ok_wf [OF ok]
  from quit_entries [OF _ _ a] wf Session_ses_is [OF s] have "fst (Session g) = Inr lid" by auto
  with ok a wf step_quit command_stable(4) show "net_step d d' \<and> lease_stable d d'"
    unfolding net_ok_def by blast
qed

section \<open>The commands\<close>

lemma preserves_commands [preserve]:
  "preserves (system (ec_nick ec) lid) (Join_cmd ec ch)"
  "preserves (system (ec_nick ec) lid) (Part ec ch msg)"
  "preserves (system (ec_nick ec) lid) (kick ec ch nick msg)"
  "preserves (system (ec_nick ec) lid) (Quit ec msg)"
  "preserves (system (ec_nick ec) lid) (Topic ec ch t)"
  "preserves (system (ec_nick ec) lid) (chanMode ec ch m)"
  "preserves (system (ec_nick ec) lid) (Away ec msg)"
  "preserves (system (ec_nick ec) lid) (Oper ec login pass)"
  "preserves (system (ec_nick ec) lid) (PrivMsg ec target msg)"
  unfolding Join_cmd_def Part_def kick_def Quit_def Topic_def chanMode_def Away_def Oper_def
    PrivMsg_def privMsgUser_def privMsgChan_def
  by (intro preserve preserves_session_lease preserves_last_lease_result)+

lemma preserves_bad_modes [preserve]: "preserves (holds I P) (bad_modes ec ms)"
  by (induction ms) (auto intro!: preserve)

lemma preserves_Mode [preserve]: "preserves (system (ec_nick ec) lid) (Mode ec m)"
  unfolding Mode_def userMode_def by (intro preserve)

lemma preserves_Kick [preserve]: "preserves (system (ec_nick ec) lid) (Kick ec ch ns msg)"
  by (induction ns) (auto intro!: preserve)

lemma preserves_joins [preserve]: "preserves (system (ec_nick ec) lid) (joins ec chs)"
  by (induction chs) (auto intro!: preserve)

lemma preserves_ClientDo: "preserves (system (ec_nick ec) lid) (ClientDo ec msg)"
  unfolding ClientDo_def Let_def by (intro preserve)

end
