(* ===== verification/Server_System.thy ===== *)
theory Server_System
  imports Irc_Server Net_System
begin

text \<open>
  A whole connection of the server, from its first line to its end: whatever the client sends,
  and however other parties and request failures interleave, the store stays reachable.
\<close>

section \<open>The world of a server\<close>

text \<open>
  The other parties keep the store reachable, and do not move a nick away from the lease of this
  server.
\<close>

definition fair_turns :: "int \<Rightarrow> world \<Rightarrow> bool" where
  "fair_turns lid w \<longleftrightarrow>
     (\<forall>t \<in> set (sched w). \<forall>d n. net_ok n lid d \<longrightarrow> net_ok n lid (fold serve (fst t) d))"

definition server_world :: "int \<Rightarrow> world \<Rightarrow> bool" where
  "server_world lid w \<longleftrightarrow> holds reachable (ses_is lid) w \<and> fair_turns lid w"

lemma fair_turns_upd [simp]:
  "fair_turns lid (w\<lparr>out := ms\<rparr>) = fair_turns lid w"
  "fair_turns lid (w\<lparr>ctxs := cs\<rparr>) = fair_turns lid w"
  "fair_turns lid (w\<lparr>env := g\<rparr>) = fair_turns lid w"
  "fair_turns lid (w\<lparr>watches := ws\<rparr>) = fair_turns lid w"
  by (simp_all add: fair_turns_def)

lemma fair_turns_rpc: "fair_turns lid w \<Longrightarrow> fair_turns lid (snd (rpc f w))"
proof -
  have "set (tl (sched w)) \<subseteq> set (sched w)" by (cases "sched w") auto
  moreover have "sched (snd (rpc f w)) = tl (sched w)"
    by (auto simp: rpc_def Let_def split: prod.split fault.split sum.split)
  ultimately show "fair_turns lid w \<Longrightarrow> fair_turns lid (snd (rpc f w))"
    unfolding fair_turns_def by (metis subsetD)
qed

lemma system_of_server:
  "server_world lid w \<Longrightarrow> owns (db w) n lid \<Longrightarrow> system n lid w"
  by (auto simp: server_world_def fair_turns_def holds_def keeps_def net_ok_def)

lemma system_reachable: "system n lid w \<Longrightarrow> reachable (db w)"
  by (simp add: holds_def keeps_def net_ok_def)

section \<open>Registration\<close>

lemma server_world_send [preserve]: "preserves (server_world lid) (SendMsg m)"
  by (rule preservesI)
     (simp add: server_world_def SendMsg_def bndE_def bnd_def ret_def ctx_Err_def split: list.split option.split)

lemma server_world_session [preserve]: "preserves (server_world lid) get_session"
  using preservesD [OF preserves_get_session [OF env_closed_ses_is, of reachable lid]]
  by (intro preservesI) (auto simp: server_world_def get_session_def case_prod_beta)

lemma server_world_now [preserve]: "preserves (server_world lid) get_now"
  using preservesD [OF preserves_get_now [OF env_closed_ses_is, of reachable lid]]
  by (intro preservesI) (auto simp: server_world_def get_now_def case_prod_beta)

lemma register_reachable:
  assumes "lid \<noteq> 0" "uLease uv = lid" "uChannels uv = []" "server_world lid w"
  shows "server_world lid (snd (rpc (register_txn uv lid) w))"
    and "fst (rpc (register_txn uv lid) w) = Inr resp \<Longrightarrow> tr_Succeeded resp \<Longrightarrow>
      owns (db (snd (rpc (register_txn uv lid) w))) (uNick uv) lid"
proof -
  let ?f = "register_txn uv lid"
  have k: "keeps reachable w" and e: "ses_is lid (env w)" and f: "fair_turns lid w"
    using assms(4) by (auto simp: server_world_def holds_def)
  have "keeps reachable (snd (rpc ?f w))"
    using k by (rule keeps_rpc) (blast intro: reach_step step_register [OF assms(1,2,3)])
  with e f show "server_world lid (snd (rpc ?f w))"
    by (simp add: server_world_def holds_def rpc_env fair_turns_rpc)
  assume r: "fst (rpc ?f w) = Inr resp" "tr_Succeeded resp"
  then obtain d' where d': "?f (arrival w) = Inr (resp, d')" "db (snd (rpc ?f w)) = d'"
    by (auto simp: rpc_def arrival_def Let_def split: prod.splits fault.splits sum.splits)
  have "wf_etcd (arrival w)" using reachable_inv [OF keeps_arrival [OF k]] by (simp add: net_inv_def)
  from register_entries [OF this d'(1)] r(2) d'(2) assms(2)
  show "owns (db (snd (rpc ?f w))) (uNick uv) lid"
    by (simp add: owns_def user_at_def key_simps)
qed

lemma newEtcdClient_server:
  assumes "lid \<noteq> 0" "server_world lid w"
  shows "server_world lid (snd (newEtcdClient spare cfg cr w)) \<and>
    (\<forall>ec. fst (newEtcdClient spare cfg cr w) = Ok (Inr (Some ec)) \<longrightarrow>
       system (ec_nick ec) lid (snd (newEtcdClient spare cfg cr w)))"
proof -
  obtain s w1 where 1: "get_session w = (Ok s, w1)" by (simp add: get_session_def case_prod_beta)
  obtain t w2 where 2: "get_now w1 = (Ok t, w2)" by (simp add: get_now_def case_prod_beta)
  have w1: "server_world lid w1" using preservesD [OF server_world_session assms(2)] 1 by simp
  have w2: "server_world lid w2" using preservesD [OF server_world_now w1] 2 by simp
  show ?thesis
  proof (cases s)
    case (Inl e)
    with 1 w1 show ?thesis by (simp add: newEtcdClient_def bndE_Err)
  next
    case (Inr l)
    with 1 assms(2) have "l = lid"
      using Session_ses_is [of lid "env w" l]
      by (simp add: get_session_def server_world_def holds_def case_prod_beta)
    let ?uv = "new_user cfg cr lid t"
    have uv: "uLease ?uv = lid" "uChannels ?uv = []" by (simp_all add: new_user_def zeroUser_def)
    obtain q w3 where 3: "rpc (register_txn ?uv lid) w2 = (q, w3)" by fastforce
    note reg = register_reachable [OF assms(1) uv w2, unfolded 3, simplified]
    have "server_world lid (w3\<lparr>watches := ws\<rparr>)" for ws using reg(1) by (simp add: server_world_def)
    with 1 2 3 Inr \<open>l = lid\<close> reg system_of_server [of lid _ "uNick ?uv"] show ?thesis
      by (cases q)
         (auto simp: newEtcdClient_def etcd_txn_def bndE_def bnd_def ret_def index_def panic_def Let_def)
  qed
qed

section \<open>The connection\<close>

lemma preserves_index [preserve]: "preserves S (index xs i)"
  by (simp add: preserves_def index_def ret_def panic_def)

lemma preserves_motd [preserve]: "preserves (holds I P) (motd s nick)"
  unfolding motd_def Let_def by (intro preserve)

lemma preserves_greet [preserve]: "preserves (holds I P) (greet s cr ec)"
  unfolding greet_def Let_def by (intro preserve)

lemma preserves_conn_loop [preserve]:
  "preserves (system (ec_nick ec) lid) (conn_loop ins s nick ec)"
proof (induction ins)
  case (Cons i ins)
  have "preserves (system (ec_nick ec) lid) (case i of
            InMsg None \<Rightarrow> panic ''nil pointer dereference''
          | InMsg (Some msg) \<Rightarrow> if mCommand msg = ''MOTD'' then motd s nick else ClientDo ec msg
          | InErr e \<Rightarrow> ret (Inl e)
          | InDone e \<Rightarrow> ret (Inl e))"
    by (auto split: input.split option.split intro!: preserve preserves_ClientDo)
  with Cons.IH show ?case
    by (auto intro!: preserves_bnd split: sum.split intro: preserve)
qed (simp add: preserve)

lemma preserves_readConnRequest [preserve]: "preserves (server_world lid) (readConnRequest ins st)"
proof (induction ins arbitrary: st)
  case (Cons i ins)
  have "preserves (server_world lid) (read_one msg st)" for msg
    unfolding read_one_def by (auto intro!: preserve split: prod.split)
  moreover have "server_world lid (w\<lparr>out := ms\<rparr>) = server_world lid w" for w ms
    by (simp add: server_world_def)
  ultimately show ?case using Cons.IH
    by (cases st, auto split: input.split option.split prod.split intro!: preserve)
       (auto simp: preserves_def)
qed (simp add: preserve)

text \<open>What the handshake leaves behind: a client acts under its own nick and the server's lease.\<close>

definition shaken :: "int \<Rightarrow> handshake_result outcome \<times> world \<Rightarrow> bool" where
  "shaken lid q \<longleftrightarrow> reachable (db (snd q)) \<and>
     (\<forall>ec cr ins. fst q = Ok (Some (Inr ec, cr, ins)) \<longrightarrow> system (ec_nick ec) lid (snd q))"

abbreviation shakes :: "int \<Rightarrow> handshake_result io \<Rightarrow> bool" where
  "shakes lid m \<equiv> \<forall>w. server_world lid w \<longrightarrow> shaken lid (m w)"

lemma server_world_reachable: "server_world lid w \<Longrightarrow> reachable (db w)"
  by (simp add: server_world_def holds_def keeps_def)

lemma shakes_ret: "shakes lid (ret None)" "shakes lid (ret (Some (Inl e, cr, ins)))" "shakes lid (panic p)"
  by (simp_all add: shaken_def ret_def panic_def server_world_reachable)

lemma shakes_bnd:
  assumes m: "preserves (server_world lid) m" and f: "\<And>a. shakes lid (f a)"
  shows "shakes lid (bnd m f)"
proof (intro allI impI)
  fix w
  assume w: "server_world lid w"
  obtain r w' where r: "m w = (r, w')" by fastforce
  with preservesD [OF m w] have "server_world lid w'" by simp
  with r f show "shaken lid (bnd m f w)"
    by (cases r) (simp_all add: bnd_def shaken_def server_world_reachable)
qed

lemma shakes_queue:
  assumes "shakes lid m"
  shows "shakes lid (bnd m (\<lambda>r. ret (map_option (apsnd (apsnd (Cons i))) r)))"
proof (intro allI impI)
  fix w
  assume "server_world lid w"
  with assms have "shaken lid (m w)" by blast
  then show "shaken lid (bnd m (\<lambda>r. ret (map_option (apsnd (apsnd (Cons i))) r)) w)"
    by (cases "m w", cases "fst (m w)") (auto simp: shaken_def bnd_def ret_def apsnd_def map_prod_def split: prod.splits)
qed

lemma greet_client: "fst (greet s cr ec w) = Ok (Inr ec') \<Longrightarrow> ec' = ec"
  by (auto simp: greet_def bnd_def bndE_def ret_def Let_def split: prod.splits outcome.splits sum.splits)

lemma shakes_try_nick:
  assumes "lid \<noteq> 0" "shakes lid taken"
  shows "shakes lid (try_nick s cr ins taken)"
proof (intro allI impI)
  fix w
  assume w: "server_world lid w"
  obtain r w1 where 1: "newEtcdClient (s_spare s) (s_cfg s) cr w = (r, w1)" by fastforce
  from newEtcdClient_server [OF assms(1) w, of "s_spare s" "s_cfg s" cr] 1
  have w1: "server_world lid w1" "\<And>ec. r = Ok (Inr (Some ec)) \<Longrightarrow> system (ec_nick ec) lid w1" by auto
  consider (client) ec where "r = Ok (Inr (Some ec))" | (taken) "r = Ok (Inr None)"
    | (other) "\<And>ec. r \<noteq> Ok (Inr (Some ec))" "r \<noteq> Ok (Inr None)" by blast
  then show "shaken lid (try_nick s cr ins taken w)"
  proof cases
    case client
    obtain r2 w2 where 2: "greet s cr ec w1 = (r2, w2)" by fastforce
    have "system (ec_nick ec) lid w2" using preservesD [OF preserves_greet w1(2) [OF client], of s cr ec] 2 by simp
    with 1 2 client greet_client [of s cr ec w1] show ?thesis
      by (cases r2) (auto simp: shaken_def try_nick_def bnd_def ret_def dest: system_reachable)
  next
    case taken
    from shakes_bnd [OF server_world_send assms(2)] w1(1)
    have "shaken lid (bnd (SendMsg (nick_in_use s (cr_nick cr))) (\<lambda>_. taken) w1)" by blast
    with 1 taken show ?thesis by (simp add: try_nick_def bnd_Ok)
  next
    case other
    with 1 server_world_reachable [OF w1(1)] show ?thesis
      by (cases r) (auto simp: shaken_def try_nick_def bnd_def ret_def split: sum.split option.split)
  qed
qed

lemma shakes_handshake: "lid \<noteq> 0 \<Longrightarrow> shakes lid (handshake ins s cr waiting)"
proof (induction ins arbitrary: cr waiting)
  case Nil
  then show ?case by (simp add: shakes_ret shakes_try_nick)
next
  case (Cons i ins)
  have "shakes lid (case i of
           InMsg None \<Rightarrow> panic ''nil pointer dereference''
         | InMsg (Some m) \<Rightarrow>
             if mCommand m = ''CAP'' then handshake ins s cr False
             else if mCommand m = ''NICK'' then
               bnd (index (mParams m) 0) (\<lambda>p. handshake ins s (cr\<lparr>cr_nick := p\<rparr>) False)
             else ret (Some (Inl ErrHandshake, cr, ins))
         | InDone e \<Rightarrow> ret (Some (Inl e, cr, ins))
         | InErr e \<Rightarrow> bnd (handshake ins s cr True) (\<lambda>r. ret (map_option (apsnd (apsnd (Cons i))) r)))"
  proof (cases i)
    case (InMsg mo)
    have nick: "shakes lid (bnd (index (mParams m) 0) (\<lambda>p. handshake ins s (cr\<lparr>cr_nick := p\<rparr>) False))" for m
      by (rule shakes_bnd [OF preserves_index Cons.IH [OF Cons.prems]])
    show ?thesis
    proof (cases mo)
      case (Some m)
      with InMsg nick [of m] Cons.IH [OF Cons.prems] show ?thesis by (simp add: shakes_ret)
    qed (simp add: InMsg shakes_ret)
  next
    case (InErr e)
    with shakes_queue [OF Cons.IH [OF Cons.prems], of cr True i] show ?thesis by simp
  next
    case (InDone e)
    with shakes_ret(2) [of lid e cr ins] show ?thesis by simp
  qed
  from this shakes_try_nick [OF Cons.prems this, of s cr "i # ins"] show ?case
    unfolding handshake.simps Let_def by (cases waiting) (simp_all only: if_True if_False)
qed

lemma handleConn_reachable:
  assumes "lid \<noteq> 0" "server_world lid w"
  shows "reachable (db (snd (handleConn s ins w)))"
proof -
  have loop: "reachable (db (snd (conn_loop i s n ec w)))" if "system (ec_nick ec) lid w" for i n ec w
    using preservesD [OF preserves_conn_loop that] by (rule system_reachable)
  obtain r w1 where 1: "readConnRequest ins ([], None, False) w = (r, w1)" by fastforce
  have w1: "server_world lid w1"
    using preservesD [OF preserves_readConnRequest assms(2), of ins "([], None, False)"] 1 by simp
  show ?thesis
  proof (cases "\<exists>cr ins'. r = Ok (Some (cr, ins'))")
    case True
    then obtain cr ins' where r: "r = Ok (Some (cr, ins'))" by blast
    obtain h w2 where 2: "handshake ins' s cr False w1 = (h, w2)" by fastforce
    from shakes_handshake [OF assms(1), of ins' s cr False] w1 2 have "shaken lid (h, w2)" by metis
    with 1 2 r loop show ?thesis
      by (cases h) (auto simp: shaken_def handleConn_def bnd_def ret_def split: option.split sum.split)
  next
    case False
    with 1 server_world_reachable [OF w1] show ?thesis
      by (cases r) (auto simp: handleConn_def bnd_def ret_def split: option.splits)
  qed
qed

end
