(* ===== verification/Client_Monitor.thy ===== *)
theory Client_Monitor
  imports Net_System
begin

text \<open>
  The watchers of \<^verbatim>\<open>etcd_client.go\<close>: \<^verbatim>\<open>monitorMsg\<close> delivers the messages posted to a user or a
  channel, \<^verbatim>\<open>monitorPart\<close> reports users whose session is lost and deletes empty nick lists.  A
  watch channel is the list of its responses; its end is the channel being closed.
\<close>

section \<open>Watch responses\<close>

datatype WatchResponse = WatchErr error | WatchEvents "gob event list"

text \<open>
  The result of an event or of a response: \<^const>\<open>None\<close> goes on with the loop, \<^const>\<open>Some\<close> returns.
\<close>

type_synonym loop_result = "(error + unit) option"

primrec each :: "('a \<Rightarrow> loop_result io) \<Rightarrow> 'a list \<Rightarrow> loop_result io" where
  "each f [] = ret None"
| "each f (x # xs) = bnd (f x) (\<lambda>r. case r of None \<Rightarrow> each f xs | Some e \<Rightarrow> ret (Some e))"

definition monitor_loop :: "(gob event list \<Rightarrow> loop_result io) \<Rightarrow> WatchResponse list \<Rightarrow> (error + unit) io" where
  "monitor_loop f resps =
     bnd (each (\<lambda>resp. case resp of WatchErr e \<Rightarrow> ret (Some (Inl e)) | WatchEvents evs \<Rightarrow> f evs) resps)
       (\<lambda>r. case r of None \<Rightarrow> ctx_Err | Some e \<Rightarrow> ret e)"

section \<open>Delivering messages\<close>

text \<open>\<^verbatim>\<open>SendMsgSync\<close> writes to the connection past the context.\<close>

definition SendMsgSync :: "Message \<Rightarrow> (error + unit) io" where
  "SendMsgSync m w = (Ok (Inr ()), w\<lparr>out := out w @ [m]\<rparr>)"

definition error_msg :: "etcdClient \<Rightarrow> Message" where
  "error_msg ec = \<lparr> mPrefix = Some (hostPfx ec), mCommand = ''ERROR'', mParams = [] \<rparr>"

definition own_privmsg :: "etcdClient \<Rightarrow> Message \<Rightarrow> bool" where
  "own_privmsg ec m \<longleftrightarrow>
     (case mPrefix m of None \<Rightarrow> False | Some p \<Rightarrow> pName p = ec_nick ec) \<and> mCommand m = ''PRIVMSG''"

definition chan_cancel :: "string \<Rightarrow> unit io" where
  "chan_cancel ch w =
     (Ok (), case map_of (chCancel w) ch of
               None \<Rightarrow> w
             | Some i \<Rightarrow> w\<lparr>cancelled := cancelled w @ [i], chCancel := snap_del ch (chCancel w)\<rparr>)"

text \<open>Whether the message is this client's own \<^verbatim>\<open>PART\<close>, or a \<^verbatim>\<open>KICK\<close> of this client.\<close>

definition leaves :: "etcdClient \<Rightarrow> Message \<Rightarrow> bool io" where
  "leaves ec m =
     bnd (if mCommand m = ''PART''
          then (case mPrefix m of None \<Rightarrow> panic ''nil pointer dereference'' | Some p \<Rightarrow> ret (pName p = ec_nick ec))
          else ret False) (\<lambda>b.
     if b then ret True
     else if mCommand m = ''KICK'' then bnd (index (mParams m) 1) (\<lambda>n. ret (n = ec_nick ec))
     else ret False)"

definition monitorMsg_event :: "etcdClient \<Rightarrow> gob event \<Rightarrow> loop_result io" where
  "monitorMsg_event ec ev =
     (case ev of
        DeleteEvent k r prev \<Rightarrow> bnd (SendMsgSync (error_msg ec)) (\<lambda>r. ret (Some r))
      | PutEvent k kv prev \<Rightarrow>
          (case decodeMessage (kv_Value kv) of
             Inl e \<Rightarrow> ret None
           | Inr m \<Rightarrow>
               if own_privmsg ec m then ret None
               else bnd (SendMsg m) (\<lambda>r. case r of
                   Inl e \<Rightarrow> ret (Some (Inl e))
                 | Inr _ \<Rightarrow> bnd (leaves ec m) (\<lambda>b.
                     if \<not> b then ret None
                     else bnd (index (mParams m) 0) (\<lambda>ch.
                          bnd (chan_cancel ch) (\<lambda>_. ret (Some (Inr ()))))))))"

definition monitorMsg :: "etcdClient \<Rightarrow> WatchResponse list \<Rightarrow> (error + unit) io" where
  "monitorMsg ec = monitor_loop (each (monitorMsg_event ec))"

section \<open>Lost users and empty nick lists\<close>

definition lost_msg :: "string \<Rightarrow> UserValue \<Rightarrow> string \<Rightarrow> Message" where
  "lost_msg ch u usr =
     \<lparr> mPrefix = Some \<lparr> pName = uNick u, pUser = usr, pHost = uHost u \<rparr>, mCommand = ''PART'',
       mParams = [ch, ''session lost''] \<rparr>"

fun send_losts :: "string \<Rightarrow> UserValue list \<Rightarrow> (error + unit) io" where
  "send_losts ch [] = ret (Inr ())"
| "send_losts ch (u # us) =
     bnd (index (uUser u) 1) (\<lambda>usr. bndE (SendMsg (lost_msg ch u usr)) (\<lambda>_. send_losts ch us))"

definition sendParts :: "etcdClient \<Rightarrow> string \<Rightarrow> ChannelNicks \<Rightarrow> nat \<Rightarrow> (error + unit) io" where
  "sendParts ec ch cns r = bndE (usersFromNicks ec (nicks cns) r) (send_losts ch)"

definition monitorPart_event :: "etcdClient \<Rightarrow> string \<Rightarrow> int \<Rightarrow> gob event \<Rightarrow> loop_result io" where
  "monitorPart_event ec ch lid ev =
     (case ev of
        PutEvent k kv prev \<Rightarrow>
          (case decodeChannelNicks (kv_Value kv) of
             Inl e \<Rightarrow> ret None
           | Inr cns \<Rightarrow>
               if cns \<noteq> [] \<or> kv_Lease kv \<noteq> lid then ret None
               else bnd (etcd_txn [CmpModRevision k CEq (kv_ModRevision kv)] [OpDelete k None False] [])
                      (\<lambda>_. ret None))
      | DeleteEvent k r None \<Rightarrow> panic ''nil pointer dereference''
      | DeleteEvent k r (Some prev) \<Rightarrow>
          (case decodeChannelNicks (kv_Value prev) of
             Inl e \<Rightarrow> ret None
           | Inr cns \<Rightarrow>
               bnd (sendParts ec ch cns (r - 1)) (\<lambda>e. ret (case e of Inl e \<Rightarrow> Some (Inl e) | Inr _ \<Rightarrow> None))))"

definition monitorPart :: "etcdClient \<Rightarrow> string \<Rightarrow> WatchResponse list \<Rightarrow> (error + unit) io" where
  "monitorPart ec ch = monitor_loop (\<lambda>evs.
     bnd get_session (\<lambda>s. case s of
       Inl e \<Rightarrow> ret (Some (Inl e))
     | Inr lid \<Rightarrow> each (monitorPart_event ec ch lid) evs))"

section \<open>What is delivered\<close>

lemma each_append:
  "each f (xs @ ys) = bnd (each f xs) (\<lambda>r. case r of None \<Rightarrow> each f ys | Some e \<Rightarrow> ret (Some e))"
proof (induction xs)
  case (Cons x xs)
  then show ?case
    by (auto simp: bnd_def ret_def fun_eq_iff split: prod.split outcome.split option.split)
qed (simp add: bnd_def ret_def fun_eq_iff)

text \<open>The messages of put events, in order; values that are no messages are skipped.\<close>

fun message_of :: "gob event \<Rightarrow> Message list" where
  "message_of (PutEvent k kv prev) = (case decodeMessage (kv_Value kv) of Inl e \<Rightarrow> [] | Inr m \<Rightarrow> [m])"
| "message_of (DeleteEvent k r prev) = []"

fun is_put :: "gob event \<Rightarrow> bool" where
  "is_put (PutEvent k kv prev) = True"
| "is_put (DeleteEvent k r prev) = False"

text \<open>A message as the servers post them that does not end the membership of this client.\<close>

definition stays :: "etcdClient \<Rightarrow> Message \<Rightarrow> bool" where
  "stays ec m \<longleftrightarrow>
     (mCommand m = ''PART'' \<longrightarrow> (\<exists>p. mPrefix m = Some p \<and> pName p \<noteq> ec_nick ec)) \<and>
     (mCommand m = ''KICK'' \<longrightarrow> (\<exists>ch n ps. mParams m = ch # n # ps \<and> n \<noteq> ec_nick ec))"

definition ends :: "etcdClient \<Rightarrow> string \<Rightarrow> Message \<Rightarrow> bool" where
  "ends ec ch m \<longleftrightarrow>
     (\<exists>ps. mParams m = ch # ps \<and>
       (mCommand m = ''PART'' \<and> (\<exists>p. mPrefix m = Some p \<and> pName p = ec_nick ec) \<or>
        mCommand m = ''KICK'' \<and> (\<exists>qs. ps = ec_nick ec # qs)))"

lemma leaves_stays: "stays ec m \<Longrightarrow> leaves ec m = ret False"
  by (auto simp: stays_def leaves_def index_def)

lemma leaves_ends: "ends ec ch m \<Longrightarrow> leaves ec m = ret True"
  by (auto simp: ends_def leaves_def index_def)

lemma SendMsg_live: "ctxs w = [] \<Longrightarrow> SendMsg m w = (Ok (Inr ()), w\<lparr>out := out w @ [m]\<rparr>)"
  by (simp add: SendMsg_def ctx_Err_def bndE_def bnd_def)

abbreviation deliverable :: "etcdClient \<Rightarrow> gob event list \<Rightarrow> Message list" where
  "deliverable ec evs \<equiv> filter (\<lambda>m. \<not> own_privmsg ec m) (concat (map message_of evs))"

lemma monitorMsg_event_stays:
  assumes "ctxs w = []" "is_put ev" "\<forall>m \<in> set (message_of ev). stays ec m"
  shows "monitorMsg_event ec ev w = (Ok None, w\<lparr>out := out w @ deliverable ec [ev]\<rparr>)"
proof -
  obtain k kv prev where ev: "ev = PutEvent k kv prev" using assms(2) by (cases ev) auto
  then show ?thesis
    using assms(3) SendMsg_live [OF assms(1)] leaves_stays [of ec]
    by (cases "decodeMessage (kv_Value kv)") (auto simp: monitorMsg_event_def ret_def bnd_def)
qed

lemma monitorMsg_events_stay:
  assumes "ctxs w = []" "\<forall>ev \<in> set evs. is_put ev" "\<forall>ev \<in> set evs. \<forall>m \<in> set (message_of ev). stays ec m"
  shows "each (monitorMsg_event ec) evs w = (Ok None, w\<lparr>out := out w @ deliverable ec evs\<rparr>)"
  using assms
proof (induction evs arbitrary: w)
  case (Cons ev evs)
  let ?w = "w\<lparr>out := out w @ deliverable ec [ev]\<rparr>"
  have "each (monitorMsg_event ec) evs ?w = (Ok None, ?w\<lparr>out := out ?w @ deliverable ec evs\<rparr>)"
    using Cons.prems by (intro Cons.IH) auto
  with Cons.prems monitorMsg_event_stays [of w ev ec] show ?case by (simp add: bnd_def)
qed (simp add: ret_def)

lemma monitorMsg_event_ends:
  assumes "ctxs w = []" "message_of ev = [m]" "ends ec ch m"
  shows "monitorMsg_event ec ev w =
    (Ok (Some (Inr ())), snd (chan_cancel ch (w\<lparr>out := out w @ [m]\<rparr>)))"
proof -
  obtain k kv prev where ev: "ev = PutEvent k kv prev" using assms(2) by (cases ev) auto
  with assms(2) have m: "decodeMessage (kv_Value kv) = Inr m" by (auto split: sum.splits)
  from assms(3) have "\<not> own_privmsg ec m" "index (mParams m) 0 = ret ch"
    by (auto simp: ends_def own_privmsg_def index_def)
  with ev m leaves_ends [OF assms(3)] SendMsg_live [OF assms(1)] show ?thesis
    by (simp add: monitorMsg_event_def ret_def bnd_def chan_cancel_def)
qed

text \<open>Whether events arrive in one response or in several makes no difference.\<close>

lemma monitorMsg_flat:
  "monitorMsg ec (map WatchEvents evss) =
     bnd (each (monitorMsg_event ec) (concat evss)) (\<lambda>r. case r of None \<Rightarrow> ctx_Err | Some e \<Rightarrow> ret e)"
proof -
  have "each (\<lambda>resp. case resp of WatchErr e \<Rightarrow> ret (Some (Inl e)) | WatchEvents evs \<Rightarrow> each (monitorMsg_event ec) evs)
      (map WatchEvents evss) = each (monitorMsg_event ec) (concat evss)"
    by (induction evss) (simp_all add: each_append cong: option.case_cong)
  then show ?thesis by (simp add: monitorMsg_def monitor_loop_def)
qed

lemma monitorMsg_stop_at:
  assumes "concat evss = pre @ ev # suf" "ctxs w = []"
    and "\<forall>ev \<in> set pre. is_put ev" "\<forall>ev \<in> set pre. \<forall>m \<in> set (message_of ev). stays ec m"
    and "monitorMsg_event ec ev (w\<lparr>out := out w @ deliverable ec pre\<rparr>) = (Ok (Some r), w')"
  shows "monitorMsg ec (map WatchEvents evss) w = (Ok r, w')"
  using assms(5) monitorMsg_events_stay [OF assms(2-4)] unfolding monitorMsg_flat assms(1) each_append
  by (simp add: bnd_def ret_def)

section \<open>The watchers keep the network\<close>

lemma preserves_SendMsgSync [preserve]: "preserves (holds I P) (SendMsgSync m)"
  by (simp add: preserves_def SendMsgSync_def)

lemma preserves_chan_cancel [preserve]: "preserves (holds I P) (chan_cancel ch)"
  by (simp add: preserves_def chan_cancel_def holds_def split: option.split)

lemma preserves_leaves [preserve]: "preserves (holds I P) (leaves ec m)"
  unfolding leaves_def by (intro preserve)

lemma preserves_each: "(\<And>x. x \<in> set xs \<Longrightarrow> preserves S (f x)) \<Longrightarrow> preserves S (each f xs)"
  by (induction xs) (auto intro!: preserve)

lemma preserves_monitor_loop:
  assumes "\<And>evs. WatchEvents evs \<in> set resps \<Longrightarrow> preserves (holds I P) (f evs)"
  shows "preserves (holds I P) (monitor_loop f resps)"
  unfolding monitor_loop_def
  by (intro preserves_bnd preserves_each) (auto split: WatchResponse.split option.split intro: preserve assms)

lemma preserves_monitorMsg [preserve]: "preserves (holds I P) (monitorMsg ec resps)"
  unfolding monitorMsg_def
proof (intro preserves_monitor_loop preserves_each)
  fix ev
  show "preserves (holds I P) (monitorMsg_event ec ev)"
    unfolding monitorMsg_event_def
    by (auto split: event.split sum.split intro!: preserve)
qed

lemma preserves_sendParts [preserve]: "preserves (holds I P) (sendParts ec ch cns r)"
proof -
  have "preserves (holds I P) (send_losts ch us)" for us by (induction us) (auto intro!: preserve)
  then show ?thesis unfolding sendParts_def by (intro preserve)
qed

text \<open>
  The events of a watch are events of the store: the value that a put event carries is the one
  that the store had at some revision.
\<close>

fun genuine :: "string \<Rightarrow> gob etcd \<Rightarrow> gob event \<Rightarrow> bool" where
  "genuine ch d (PutEvent k kv prev) \<longleftrightarrow>
     (\<exists>i. k = keyChanNicks ch i) \<and> (\<exists>r. 0 < r \<and> r \<le> revision d \<and> get_at d r k = Some kv)"
| "genuine ch d (DeleteEvent k r prev) \<longleftrightarrow> True"

lemma genuine_extends:
  assumes "genuine ch d ev" "extends d d'"
  shows "genuine ch d' ev"
proof (cases ev)
  case (PutEvent k kv prev)
  with assms(1) obtain r where "\<exists>i. k = keyChanNicks ch i" "0 < r" "r \<le> revision d" "get_at d r k = Some kv"
    by auto
  with PutEvent etcd_versions.at_stable [OF assms(2), of r k] etcd_versions.ext_now [OF assms(2)]
  show ?thesis by (auto intro!: exI [of _ r])
qed simp

lemma genuine_current:
  assumes "wf_etcd d" "genuine ch d (PutEvent k kv prev)" "lookup d k = Some kv'"
    "kv_ModRevision kv' = kv_ModRevision kv"
  shows "kv' = kv"
proof -
  from assms(2) obtain r where r: "0 < r" "r \<le> revision d" "get_at d r k = Some kv" by auto
  with etcd_versions.validated [OF assms(1) r(1,2), of k] assms(3,4) show ?thesis by (simp add: modrev_def)
qed

text \<open>The invariant while a response is being processed.\<close>

definition watching :: "string \<Rightarrow> int \<Rightarrow> string \<Rightarrow> gob event set \<Rightarrow> gob etcd \<Rightarrow> bool" where
  "watching n lid ch E d \<longleftrightarrow> net_ok n lid d \<and> (\<forall>ev \<in> E. genuine ch d ev)"

lemma watching_system:
  "holds (watching n lid ch E) (ses_is lid) w \<longleftrightarrow> system n lid w \<and> (\<forall>ev \<in> E. genuine ch (db w) ev)"
  if "\<forall>t \<in> set (sched w). \<forall>d. net_ok n lid d \<longrightarrow> net_ok n lid (fold serve (fst t) d)"
proof -
  have "genuine ch (fold serve qs d) ev" if "net_ok n lid d" "genuine ch d ev" for d qs ev
    using that net_ok_wf [of n lid d] serves_extends [of d qs] genuine_extends by blast
  with that show ?thesis by (auto simp: holds_def keeps_def watching_def)
qed

lemma reap_keeps:
  assumes w: "holds (watching n lid ch E) P w" and ev: "PutEvent k kv prev \<in> E"
    and empty: "decodeChannelNicks (kv_Value kv) = Inr []"
  shows "holds (watching n lid ch E) P
    (snd (etcd_txn [CmpModRevision k CEq (kv_ModRevision kv)] [OpDelete k None False] [] w))"
proof -
  let ?f = "reap_txn k (kv_ModRevision kv)"
  have k: "keeps (watching n lid ch E) w" using w by (simp add: holds_def)
  have "keeps (watching n lid ch E) (snd (rpc ?f w))"
  proof (rule keeps_rpc [OF k])
    fix resp d'
    let ?d = "arrival w"
    assume txn: "?f ?d = Inr (resp, d')" and "watching n lid ch E ?d"
    then have ok: "net_ok n lid ?d" and gen: "\<And>ev. ev \<in> E \<Longrightarrow> genuine ch ?d ev" by (auto simp: watching_def)
    note wf = net_ok_wf [OF ok]
    obtain i where i: "k = keyChanNicks ch i" using gen [OF ev] by auto
    have "kv_Value kv = encodeChannelNicks []" using empty by (simp add: decodeChannelNicks_Inr encode_defs)
    then have step: "net_step ?d d'"
      using genuine_current [OF _ gen [OF ev]] wf by (intro step_reap [OF i _ txn]) auto
    have "entry d' (keyUserCtl m) = entry ?d (keyUserCtl m)" for m
      using reap_entries [OF _ txn] wf by (cases "tr_Succeeded resp") (auto simp: i key_simps)
    then have "lease_stable ?d d'" by (intro lease_stable_upd) auto
    moreover have "extends ?d d'" using wf txn by (auto intro: Txn_extends)
    ultimately show "watching n lid ch E d'"
      using ok step gen by (auto simp: watching_def net_ok_def intro: reach_step owns_stable genuine_extends)
  qed
  with w show ?thesis by (simp add: etcd_txn_def holds_def rpc_env)
qed

lemma preserves_monitorPart:
  assumes "E = \<Union> (set ` {evs. WatchEvents evs \<in> set resps})"
  shows "preserves (holds (watching n lid ch E) (ses_is lid)) (monitorPart ec ch resps)"
proof -
  let ?S = "holds (watching n lid ch E) (ses_is lid)"
  have "preserves ?S (monitorPart_event ec ch l ev)" if "ev \<in> E" for ev l
  proof (cases ev)
    case (PutEvent k kv prev)
    show ?thesis
    proof (cases "decodeChannelNicks (kv_Value kv) = Inr [] \<and> kv_Lease kv = l")
      case True
      have "preserves ?S (etcd_txn [CmpModRevision k CEq (kv_ModRevision kv)] [OpDelete k None False] [])"
        using that PutEvent True by (intro preservesI reap_keeps) auto
      with True PutEvent show ?thesis by (simp add: monitorPart_event_def preserve)
    next
      case False
      with PutEvent show ?thesis
        by (auto simp: monitorPart_event_def split: sum.split intro: preserve)
    qed
  next
    case (DeleteEvent k r prev)
    then show ?thesis
      by (auto simp: monitorPart_event_def split: option.split sum.split intro!: preserve)
  qed
  then show ?thesis
    unfolding monitorPart_def assms
    by (intro preserves_monitor_loop preserves_bnd preserves_get_session env_closed_ses_is)
       (auto split: sum.split intro!: preserve preserves_each)
qed

lemma monitorPart_system:
  assumes "system n lid w" "\<And>evs ev. WatchEvents evs \<in> set resps \<Longrightarrow> ev \<in> set evs \<Longrightarrow> genuine ch (db w) ev"
  shows "reachable (db (snd (monitorPart ec ch resps w)))"
proof -
  let ?E = "\<Union> (set ` {evs. WatchEvents evs \<in> set resps})"
  have "holds (watching n lid ch ?E) (ses_is lid) w"
    using assms by (subst watching_system) (auto simp: holds_def keeps_def)
  from preservesD [OF preserves_monitorPart [OF refl] this, of ec]
  show ?thesis by (simp add: holds_def keeps_def watching_def net_ok_def)
qed

end
