(* ===== verification/Admin_System.thy ===== *)
theory Admin_System
  imports Net_System
begin

text \<open>The administration tool keeps the network, under every interleaving and request failure.\<close>

lemma preserves_rpc_step:
  assumes "\<And>d a d'. f d = Inr (a, d') \<Longrightarrow> reachable d \<Longrightarrow> reachable d'"
    "\<And>w. snd (m w) = snd (rpc f w)"
  shows "preserves (holds reachable P) m"
proof (rule preservesI)
  fix w
  assume "holds reachable P w"
  then show "holds reachable P (snd (m w))"
    using keeps_rpc [of reachable w f] assms by (simp add: holds_def rpc_env)
qed

lemma preserves_exitOnErr [preserve]:
  "(\<And>a. preserves S (f a)) \<Longrightarrow> preserves S (exitOnErr r f)"
  by (auto simp: exitOnErr_def split: sum.split intro: preserve)

lemma preserves_oper_ops [preserve]:
  "preserves (holds reachable P) (etcd_do (oper_put login ov))"
  "preserves (holds reachable P) (etcd_do (oper_del login))"
proof -
  show "preserves (holds reachable P) (etcd_do (oper_put login ov))"
    by (rule preserves_rpc_step [of "\<lambda>d. DoOp d (oper_put login ov)"])
       (auto simp: etcd_do_def intro: reach_step step_operMk)
  show "preserves (holds reachable P) (etcd_do (oper_del login))"
    by (rule preserves_rpc_step [of "\<lambda>d. DoOp d (oper_del login)"])
       (auto simp: etcd_do_def intro: reach_step step_operRm)
qed

lemma preserves_msgf:
  assumes "k = keyUserMsg n \<or> k = keyChanMsg n"
  shows "preserves (holds reachable P) (msgf text k)"
proof -
  have "preserves (holds reachable P)
      (etcd_txn [CmpVersion k CGt 0] [OpPut k (encodeMessage (notice_msg k text)) 0 True False] [])"
    by (rule preserves_rpc_step [of "notice_txn k (notice_msg k text)"])
       (auto simp: etcd_txn_def intro: reach_step step_notice [OF assms])
  then show ?thesis unfolding msgf_def by (intro preserve)
qed

text \<open>The keys that a read of the message prefix returns are message keys of users.\<close>

lemma prefix_keys:
  assumes "etcd_do (get_prefix (keyUserMsg []) 0) w = (Ok (Inr resp), w')" "k \<in> fst ` set (kvs_of_resp resp)"
  shows "\<exists>n. k = keyUserMsg n"
proof -
  have "keyUserMsg [] \<noteq> []" by (simp add: keyUserMsg_def)
  then have "in_range (keyUserMsg []) (Some (getPrefix (keyUserMsg []))) k"
    using assms
    by (auto simp: etcd_do_def get_prefix_def WithPrefix_def rpc_def DoOp_def tx_range_def Let_def
        split: prod.splits fault.splits sum.splits option.splits if_splits)
  then have "prefix (keyUserMsg []) k" using in_range_prefix \<open>keyUserMsg [] \<noteq> []\<close> by blast
  then show ?thesis by (auto simp: prefix_def keyUserMsg_def)
qed

lemma preserves_admin:
  "preserves (holds reachable P) (runOperMk g args)"
  "preserves (holds reachable P) (runOperRm args)"
  "preserves (holds reachable P) (runNotice target args)"
  "preserves (holds I Q) runOperLs"
proof -
  show "preserves (holds reachable P) (runOperMk g args)" "preserves (holds reachable P) (runOperRm args)"
    unfolding runOperMk_def runOperRm_def by (intro preserve)+
  have "preserves (holds I Q) (print_opers kvs)" for kvs by (induction kvs) (auto intro!: preserve)
  then show "preserves (holds I Q) runOperLs" unfolding runOperLs_def by (intro preserve) simp
  have many: "preserves (holds reachable P) (msgfs t ks)" if "\<forall>k \<in> set ks. \<exists>n. k = keyUserMsg n" for t ks
    using that
  proof (induction ks)
    case (Cons k ks)
    then obtain n where "k = keyUserMsg n" by auto
    then have "preserves (holds reachable P) (msgf t k)" by (intro preserves_msgf [of k n]) simp
    with Cons show ?case by (simp add: preserve)
  qed (simp add: preserve)
  have "preserves (holds reachable P) (bnd (etcd_do (get_prefix (keyUserMsg []) 0)) (\<lambda>r.
      exitOnErr r (\<lambda>resp. msgfs t (map fst (kvs_of_resp resp)))))" for t
  proof (rule preserves_bnd_result [OF preserves_etcd_read])
    fix r w w'
    assume "etcd_do (get_prefix (keyUserMsg []) 0) w = (Ok r, w')"
    with prefix_keys show "preserves (holds reachable P) (exitOnErr r (\<lambda>resp. msgfs t (map fst (kvs_of_resp resp))))"
      by (cases r) (auto simp: exitOnErr_def intro!: preserve many)
  qed simp
  then show "preserves (holds reachable P) (runNotice target args)"
    unfolding runNotice_def by (auto split: list.split intro!: preserve preserves_msgf)
qed

end
