(* ===== verification/Demo_Net.thy ===== *)
theory Demo_Net
  imports Server_System Client_Monitor Admin_System
begin

text \<open>
  A small network on which the theorems are exercised: one server session with lease 7, whose
  users \<^verbatim>\<open>al\<close> and \<^verbatim>\<open>bo\<close> register and join the channel \<^verbatim>\<open>#c\<close> (\<^verbatim>\<open>al\<close> first, as its operator).  Every
  store is the result of running the commands.
\<close>

definition world_of :: "gob etcd \<Rightarrow> int \<Rightarrow> world" where
  "world_of d lid =
     \<lparr> db = d, sched = [], env = \<lparr> ge_ses = Inr lid, ge_next = [], ge_last = lid, ge_clock = 100 \<rparr>,
       ctxs = [], out = [], chCancel = [], watches = [], cancelled = [] \<rparr>"

definition client :: "string \<Rightarrow> etcdClient" where
  "client n = \<lparr> ec_cfg = NewConfig, ec_crev = 2, ec_nick = n,
     ec_prefix = \<lparr> pName = n, pUser = ''u'', pHost = ''host'' \<rparr>, ec_spare = (\<lambda>_. 0) \<rparr>"

definition request :: "string \<Rightarrow> connectRequest" where
  "request n = \<lparr> cr_nick = n, cr_user = [''u'', ''u''] \<rparr>"

definition demo_server :: Server where
  "demo_server = NewServer NewConfig ''Mon Jan 2'' (\<lambda>_. 0)"

definition registers :: "string \<Rightarrow> gob etcd \<Rightarrow> gob etcd" where
  "registers n d = db (snd (newEtcdClient (\<lambda>_. 0) NewConfig (request n) (world_of d 7)))"

definition joins_c :: "string \<Rightarrow> gob etcd \<Rightarrow> gob etcd" where
  "joins_c n d = db (snd (Join_cmd (client n) ''#c'' (world_of d 7)))"

definition net1 :: "gob etcd" where "net1 = serve (ReqGrant 7) init_etcd"
definition net2 :: "gob etcd" where "net2 = registers ''al'' net1"
definition net3 :: "gob etcd" where "net3 = joins_c ''al'' net2"
definition net4 :: "gob etcd" where "net4 = registers ''bo'' net3"
definition net5 :: "gob etcd" where "net5 = joins_c ''bo'' net4"

text \<open>The login \<^verbatim>\<open>root\<close> of a global operator; then \<^verbatim>\<open>al\<close> logs in with it.\<close>

definition net6 :: "gob etcd" where
  "net6 = db (snd (runOperMk True [''root'', ''pw''] (world_of net5 7)))"

lemma client_nick [simp]: "ec_nick (client n) = n"
  by (simp add: client_def)

lemma world_of_simps [simp]:
  "db (world_of d lid) = d" "sched (world_of d lid) = []" "ctxs (world_of d lid) = []" "out (world_of d lid) = []"
  by (simp_all add: world_of_def)

lemma ses_is_world_of: "ses_is lid (env (world_of d lid))"
  by (simp add: world_of_def ses_is_def)

lemma server_world_of: "reachable d \<Longrightarrow> server_world lid (world_of d lid)"
  by (simp add: server_world_def fair_turns_def holds_def keeps_def ses_is_world_of)

lemma system_world_of: "reachable d \<Longrightarrow> owns d n lid \<Longrightarrow> system n lid (world_of d lid)"
  by (simp add: holds_def keeps_def net_ok_def ses_is_world_of)

lemma registers_reachable: "reachable d \<Longrightarrow> reachable (registers n d)"
  using newEtcdClient_server [OF _ server_world_of, of 7 d "\<lambda>_. 0" NewConfig "request n"]
  by (auto simp: registers_def intro: server_world_reachable)

lemma joins_c_reachable: "reachable d \<Longrightarrow> owns d n 7 \<Longrightarrow> reachable (joins_c n d)"
  using preservesD [OF preserves_commands(1) [of "client n" 7 "''#c''"], of "world_of d 7"] system_world_of [of d n 7]
  by (auto simp: joins_c_def intro: system_reachable)

text \<open>An owner, executably.\<close>

definition owner_is :: "gob etcd \<Rightarrow> string \<Rightarrow> int \<Rightarrow> bool" where
  "owner_is d n lid = (case user_at d n of None \<Rightarrow> True | Some uv \<Rightarrow> uLease uv = lid)"

lemma owns_exec: "owns d n lid \<longleftrightarrow> owner_is d n lid"
  by (simp add: owns_def owner_is_def split: option.split)

lemma demo_owners:
  "owner_is net2 ''al'' 7" "owner_is net3 ''al'' 7" "owner_is net4 ''bo'' 7" "owner_is net5 ''al'' 7" "owner_is net5 ''bo'' 7"
  "owner_is net6 ''al'' 7"
  by code_simp+

lemma net1_reachable: "reachable net1"
proof -
  have "LeaseGrant init_etcd 7 = Inr net1"
    by (simp add: net1_def LeaseGrant_def init_etcd_def)
  from reach_step [OF reach_init step_grant [OF this]] show ?thesis .
qed

lemma demo_reachable:
  "reachable net2" "reachable net3" "reachable net4" "reachable net5" "reachable net6"
proof -
  show 2: "reachable net2" by (simp add: net2_def registers_reachable net1_reachable)
  show 3: "reachable net3" using joins_c_reachable [OF 2] demo_owners by (simp add: net3_def owns_exec)
  show 4: "reachable net4" by (simp add: net4_def registers_reachable 3)
  show 5: "reachable net5" using joins_c_reachable [OF 4] demo_owners by (simp add: net5_def owns_exec)
  have "holds reachable (\<lambda>_. True) (world_of net5 7)" using 5 by (simp add: holds_def keeps_def)
  from preservesD [OF preserves_admin(1) this] show "reachable net6"
    by (simp add: net6_def holds_def keeps_def)
qed

lemma demo_systems:
  "system ''al'' 7 (world_of net2 7)" "system ''al'' 7 (world_of net3 7)" "system ''bo'' 7 (world_of net4 7)"
  "system ''al'' 7 (world_of net5 7)" "system ''bo'' 7 (world_of net5 7)"
  "system ''al'' 7 (world_of net6 7)"
  using demo_reachable demo_owners by (auto intro!: system_world_of simp: owns_exec)

end
