(* ===== verification/Command_Specs.thy ===== *)
theory Command_Specs
  imports Demo_Net
begin

text \<open>
  What each command of a client does to the network, as the client sees it: when the command
  returns without an error, there is a reachable store at which its transaction took effect
  at once, whatever other parties did before and in between, and the reply matches.
\<close>

section \<open>From a transaction to its effect\<close>

definition host_msg :: "etcdClient \<Rightarrow> string \<Rightarrow> string list \<Rightarrow> Message" where
  "host_msg ec cmd ps = \<lparr> mPrefix = Some (hostPfx ec), mCommand = cmd, mParams = ec_nick ec # ps \<rparr>"

lemma SendMsg_Ok: "SendMsg m w = (Ok (Inr v), w') \<Longrightarrow> db w' = db w \<and> out w' = out w @ [m]"
  by (auto simp: SendMsg_def bndE_def bnd_def ret_def ctx_Err_def split: list.splits option.splits)

lemma sendHostMsg_Ok:
  "sendHostMsg ec c ps w = (Ok (Inr v), w') \<Longrightarrow> db w' = db w \<and> out w' = out w @ [host_msg ec c ps]"
  unfolding sendHostMsg_def host_msg_def by (rule SendMsg_Ok)

lemma ret_Ok [simp]: "ret a w = (Ok b, w') \<longleftrightarrow> a = b \<and> w' = w"
  by (auto simp: ret_def)

lemma bndE_OkD:
  assumes "bndE m f w = (Ok (Inr v), w')"
  obtains a w1 where "m w = (Ok (Inr a), w1)" "f a w1 = (Ok (Inr v), w')"
  using assms by (auto simp: bndE_def bnd_def ret_def split: prod.splits outcome.splits sum.splits)

text \<open>A committed transaction of a client: what it saw, and the store it left.\<close>

definition committed :: "string \<Rightarrow> int \<Rightarrow> ('x \<Rightarrow> 'x prog) \<Rightarrow> gob etcd \<Rightarrow> gob etcd \<Rightarrow> 'x \<Rightarrow> gob etcd \<Rightarrow> bool" where
  "committed n lid body d0 d x d' \<longleftrightarrow>
     net_ok n lid d \<and> extends d0 d \<and> (\<exists>x0 g. ses_is lid g \<and> atomically (body x0) d g x d')"

lemma run_command:
  assumes sys: "system n lid w" and run: "bndE (doSTM body pre x) f w = (Ok (Inr v), w')"
  obtains d x1 r w1 where "committed n lid body (db w) d x1 (db w1)" "out w1 = out w"
    "f (r, x1) w1 = (Ok (Inr v), w')"
proof -
  from run obtain a w1 where a: "doSTM body pre x w = (Ok (Inr a), w1)" "f a w1 = (Ok (Inr v), w')"
    by (rule bndE_OkD)
  obtain r x1 where rx: "a = (r, x1)" by fastforce
  have k: "keeps (net_ok n lid) w" and e: "ses_is lid (env w)" using sys by (auto simp: holds_def)
  have "wf_etcd (db w)" using k net_ok_wf by (auto simp: keeps_def)
  from doSTM_committed [OF env_closed_ses_is e this a(1) [unfolded rx]]
  obtain d x0 g ws resp where "extends (db w) d" "ses_is lid g"
    "run_pure (body x0) d [] g = ((x1, None), ws, env w1)" "apply_writes d ws = Inr (resp, db w1)"
    "same_io w w1" and keep: "\<forall>I. keeps I w \<longrightarrow> I d" by (elim exE conjE)
  moreover have "net_ok n lid d" using keep k by blast
  ultimately have "committed n lid body (db w) d x1 (db w1)" "out w1 = out w"
    by (auto simp: committed_def atomically_def same_io_def)
  with a(2) rx that show thesis by blast
qed

lemma session_lease:
  assumes "system n lid w" "bndE get_session f w = (Ok (Inr v), w')"
  obtains w1 where "system n lid w1" "db w1 = db w" "out w1 = out w" "f lid w1 = (Ok (Inr v), w')"
proof -
  from assms(2) obtain l w1 where s: "get_session w = (Ok (Inr l), w1)" "f l w1 = (Ok (Inr v), w')"
    by (rule bndE_OkD)
  have "system n lid w1" using preservesD [OF preserves_get_session [OF env_closed_ses_is] assms(1)] s(1) by simp
  moreover have "l = lid" "db w1 = db w" "out w1 = out w"
    using s(1) assms(1) Session_ses_is [of lid "env w" l]
    by (auto simp: get_session_def holds_def case_prod_beta)
  ultimately show thesis using that s(2) by simp
qed

lemma committed_wf: "committed n lid body d0 d x d' \<Longrightarrow> wf_etcd d \<and> typed d"
  by (auto simp: committed_def dest: net_ok_wf)

lemma committed_reachable: "committed n lid body d0 d x d' \<Longrightarrow> reachable d \<and> extends d0 d"
  by (auto simp: committed_def net_ok_def)

lemma committed_atomically:
  assumes "committed n lid body d0 d x d'"
  obtains x0 g where "ses_is lid g" "atomically (body x0) d g x d'"
  using assms by (auto simp: committed_def)

lemma with_result: "fst p = a \<Longrightarrow> p = (a, snd p)"
  by (simp add: prod_eq_iff)

text \<open>The command of a client at work: the lease of the session, and then one transaction.\<close>

lemma run_session_command:
  assumes "system n lid w" "bndE get_session (\<lambda>l. bndE (doSTM (body l) (pre l) x) (f l)) w = (Ok (Inr v), w')"
  obtains d x1 r w1 where "committed n lid (body lid) (db w) d x1 (db w1)" "out w1 = out w"
    "f lid (r, x1) w1 = (Ok (Inr v), w')"
proof -
  from session_lease [OF assms] obtain w1 where w1: "system n lid w1" "db w1 = db w" "out w1 = out w"
    and f: "bndE (doSTM (body lid) (pre lid) x) (f lid) w1 = (Ok (Inr v), w')" by metis
  from run_command [OF w1(1) f] w1 that show thesis by metis
qed

lemma run_last_command:
  assumes "system n lid w" "bnd last_lease (\<lambda>l. bndE (doSTM (body l) (pre l) x) (f l)) w = (Ok (Inr v), w')"
  obtains d x1 r w1 where "committed n lid (body lid) (db w) d x1 (db w1)" "out w1 = out w"
    "f lid (r, x1) w1 = (Ok (Inr v), w')"
proof -
  have "ge_last (env w) = lid" using assms(1) by (simp add: holds_def ses_is_def)
  with assms(2) have "bndE (doSTM (body lid) (pre lid) x) (f lid) w = (Ok (Inr v), w')"
    by (simp add: bnd_def last_lease_def)
  from run_command [OF assms(1) this] that show thesis by metis
qed

lemma view_post:
  assumes "entry d' = post d k m"
  shows "k = keyUserMsg n \<Longrightarrow> view d' = (view d)\<lparr>nt_userMsg := (nt_userMsg (view d))(n \<mapsto> GMessage m)\<rparr>"
    and "k = keyChanMsg n \<Longrightarrow> view d' = (view d)\<lparr>nt_chanMsg := (nt_chanMsg (view d))(n \<mapsto> GMessage m)\<rparr>"
  by (simp_all add: view_defs assms post_def key_simps fun_eq_iff)

lemma view_chan:
  "entry d' = (entry d)(keyChanCtl ch \<mapsto> (GChannel c, l), keyChanMsg ch \<mapsto> (m, l')) \<Longrightarrow>
    view d' = (view d)\<lparr>nt_chans := (chan_at d)(ch \<mapsto> c), nt_chanMsg := (nt_chanMsg (view d))(ch \<mapsto> m)\<rparr>"
  "entry d' = (entry d)(keyChanCtl ch \<mapsto> (GChannel c, l)) \<Longrightarrow>
    view d' = (view d)\<lparr>nt_chans := (chan_at d)(ch \<mapsto> c)\<rparr>"
  by (simp_all add: view_defs key_simps fun_eq_iff)

lemma view_user:
  "entry d' = (entry d)(keyUserCtl n \<mapsto> (GUser uv, l)) \<Longrightarrow>
    view d' = (view d)\<lparr>nt_users := (user_at d)(n \<mapsto> uv)\<rparr>"
  by (simp add: view_defs key_simps fun_eq_iff)

section \<open>The network that each command leaves\<close>

definition has_op :: "net \<Rightarrow> string \<Rightarrow> int \<Rightarrow> string \<Rightarrow> bool" where
  "has_op nt ch l n = (case find_nick (nt_nicks nt ch l) n of None \<Rightarrow> False
     | Some cn \<Rightarrow> CHR ''o'' \<in> set (nMode cn) \<or> CHR ''O'' \<in> set (nMode cn))"

lemma is_op_iff: "is_op cn \<longleftrightarrow> CHR ''o'' \<in> set (nMode cn) \<or> CHR ''O'' \<in> set (nMode cn)"
  by (simp add: is_op_def)

definition spec_part :: "etcdClient \<Rightarrow> string \<Rightarrow> string \<Rightarrow> int \<Rightarrow> net \<Rightarrow> net" where
  "spec_part ec ch msg lid nt =
     (case nt_users nt (ec_nick ec) of
        Some uv \<Rightarrow> if ch \<in> set (uChannels uv) then spec_leave (ec_nick ec) ch lid (part_msg ec ch msg) uv nt else nt
      | None \<Rightarrow> nt)"

definition spec_kick :: "etcdClient \<Rightarrow> string \<Rightarrow> string \<Rightarrow> string \<Rightarrow> int \<Rightarrow> net \<Rightarrow> net" where
  "spec_kick ec ch nick msg lid nt =
     (case nt_users nt nick of
        Some uv \<Rightarrow>
          if has_op nt ch lid (ec_nick ec) \<and> ch \<in> set (uChannels uv)
          then spec_leave nick ch (uLease uv) (kick_msg ec ch nick msg) uv nt else nt
      | None \<Rightarrow> nt)"

text \<open>A client that quits disappears from every roster, and the channels it was on hear of it.\<close>

definition spec_quit :: "etcdClient \<Rightarrow> string \<Rightarrow> net \<Rightarrow> net" where
  "spec_quit ec msg nt = nt\<lparr>
     nt_users := (nt_users nt)(ec_nick ec := None),
     nt_userMsg := (nt_userMsg nt)(ec_nick ec := None),
     nt_nicks := (\<lambda>ch l. filter (\<lambda>cn. nNick cn \<noteq> ec_nick ec) (nt_nicks nt ch l)),
     nt_chanMsg := (\<lambda>ch. case nt_users nt (ec_nick ec) of
         Some uv \<Rightarrow> if ch \<in> set (uChannels uv) then Some (GMessage (quit_msg ec msg)) else nt_chanMsg nt ch
       | None \<Rightarrow> nt_chanMsg nt ch)\<rparr>"

definition spec_topic :: "etcdClient \<Rightarrow> string \<Rightarrow> string option \<Rightarrow> int \<Rightarrow> net \<Rightarrow> net" where
  "spec_topic ec ch msg lid nt =
     (case (nt_chans nt ch, msg) of
        (Some c, Some t) \<Rightarrow>
          if CHR ''t'' \<in> set (cMode c) \<and> \<not> has_op nt ch lid (ec_nick ec) then nt
          else nt\<lparr>nt_chans := (nt_chans nt)(ch \<mapsto> c\<lparr>cTopic := t\<rparr>),
                  nt_chanMsg := (nt_chanMsg nt)(ch \<mapsto> GMessage (topic_msg ec ch t))\<rparr>
      | _ \<Rightarrow> nt)"

text \<open>The new mode of \<^verbatim>\<open>updateSlice\<close> is stored only when it is reported as a change.\<close>

definition new_mode :: "etcdClient \<Rightarrow> ModeValue \<Rightarrow> string list \<Rightarrow> modePerms \<Rightarrow> ModeValue" where
  "new_mode ec mv m mp = (case updateSlice (ec_spare ec) mv m mp of (mv', bad, upd) \<Rightarrow> if upd then mv' else mv)"

definition spec_chanMode :: "etcdClient \<Rightarrow> string \<Rightarrow> string list \<Rightarrow> int \<Rightarrow> net \<Rightarrow> net" where
  "spec_chanMode ec ch m lid nt =
     (case (nt_chans nt ch, find_nick (nt_nicks nt ch lid) (ec_nick ec)) of
        (Some c, Some cn) \<Rightarrow>
          if m = [] \<or> CHR ''o'' \<notin> set (nMode cn) then nt
          else nt\<lparr>nt_chans := (nt_chans nt)(ch \<mapsto> c\<lparr>cMode := new_mode ec (cMode c) m chanModePerms\<rparr>)\<rparr>
      | _ \<Rightarrow> nt)"

definition on_user :: "(UserValue \<Rightarrow> UserValue) \<Rightarrow> string \<Rightarrow> net \<Rightarrow> net" where
  "on_user f n nt = nt\<lparr>nt_users := (nt_users nt)(n := map_option f (nt_users nt n))\<rparr>"

definition spec_userMode :: "etcdClient \<Rightarrow> string list \<Rightarrow> net \<Rightarrow> net" where
  "spec_userMode ec m = on_user (\<lambda>uv. uv\<lparr>uMode := new_mode ec (uMode uv) m userModePerms\<rparr>) (ec_nick ec)"

definition spec_away :: "etcdClient \<Rightarrow> string \<Rightarrow> net \<Rightarrow> net" where
  "spec_away ec msg = on_user (\<lambda>uv. uv\<lparr>
     uMode := (if msg = [] then mode_del (uMode uv) (CHR ''a'') else mode_add (uMode uv) (CHR ''a'')),
     uAwayMsg := msg\<rparr>) (ec_nick ec)"

definition spec_oper :: "etcdClient \<Rightarrow> string \<Rightarrow> string \<Rightarrow> net \<Rightarrow> net" where
  "spec_oper ec login pass nt =
     (case nt_opers nt login of
        Some ov \<Rightarrow>
          if oPass ov = pass
          then on_user (\<lambda>uv. uv\<lparr>uMode := mode_add (uMode uv) (if oGlobal ov then CHR ''O'' else CHR ''o'')\<rparr>)
                 (ec_nick ec) nt
          else nt
      | None \<Rightarrow> nt)"

definition spec_privMsgUser :: "etcdClient \<Rightarrow> string \<Rightarrow> string \<Rightarrow> net \<Rightarrow> net" where
  "spec_privMsgUser ec target msg nt =
     (case (nt_users nt (ec_nick ec), nt_users nt target) of
        (Some uv, Some tv) \<Rightarrow>
          if CHR ''a'' \<in> set (uMode tv)
          then nt\<lparr>nt_userMsg := (nt_userMsg nt)(ec_nick ec \<mapsto> GMessage (away_reply ec target (uAwayMsg tv)))\<rparr>
          else if prefix ''?OTR'' msg \<or> CHR ''E'' \<notin> set (uMode uv) \<and> CHR ''E'' \<notin> set (uMode tv)
          then nt\<lparr>nt_userMsg := (nt_userMsg nt)(target \<mapsto> GMessage (privmsg ec target msg))\<rparr>
          else nt
      | _ \<Rightarrow> nt)"

definition spec_privMsgChan :: "etcdClient \<Rightarrow> string \<Rightarrow> string \<Rightarrow> net \<Rightarrow> net" where
  "spec_privMsgChan ec ch msg nt =
     (case (nt_users nt (ec_nick ec), nt_chans nt ch) of
        (Some uv, Some c) \<Rightarrow>
          if CHR ''m'' \<notin> set (cMode c) \<or>
             (case find_nick (nt_nicks nt ch (uLease uv)) (ec_nick ec) of None \<Rightarrow> False |
              Some cn \<Rightarrow> CHR ''o'' \<in> set (nMode cn) \<or> CHR ''O'' \<in> set (nMode cn) \<or> CHR ''v'' \<in> set (nMode cn))
          then nt\<lparr>nt_chanMsg := (nt_chanMsg nt)(ch \<mapsto> GMessage (privmsg ec ch msg))\<rparr>
          else nt
      | _ \<Rightarrow> nt)"

section \<open>The transactions refine them\<close>

lemma part_spec:
  assumes "wf_etcd d" "typed d" "atomically (part_body ec ch msg lid x) d g x' d'"
  shows "view d' = spec_part ec ch msg lid (view d) \<and>
    (x' \<longleftrightarrow> (\<exists>uv. user_at d (ec_nick ec) = Some uv \<and> ch \<in> set (uChannels uv)))"
proof -
  from part_entries [OF assms] obtain uv where uv: "user_at d (ec_nick ec) = Some uv" "x' = (ch \<in> set (uChannels uv))"
    and e: "entry d' = (if ch \<in> set (uChannels uv) then (entry d)(
      keyUserCtl (ec_nick ec) \<mapsto> (GUser (uv\<lparr>uChannels := remove1 ch (uChannels uv)\<rparr>), uLease uv),
      keyChanNicks ch lid := left_entry d ch lid (ec_nick ec),
      keyChanMsg ch \<mapsto> (GMessage (part_msg ec ch msg), 0)) else entry d)" by blast
  show ?thesis
  proof (cases x')
    case True
    with uv(2) e view_leave [of d' d "ec_nick ec" ch uv "uLease uv" lid "part_msg ec ch msg" 0] uv(1) show ?thesis
      by (simp add: spec_part_def)
  next
    case False
    with uv e view_cong [of d' d] show ?thesis by (simp add: spec_part_def)
  qed
qed

lemma kick_spec:
  assumes "wf_etcd d" "typed d" "atomically (kick_body ec ch nick msg lid x) d g x' d'"
  shows "view d' = spec_kick ec ch nick msg lid (view d) \<and>
    ((\<exists>uv. user_at d nick = Some uv \<and> has_op (view d) ch lid (ec_nick ec) \<and> ch \<in> set (uChannels uv)) \<longleftrightarrow>
       \<not> (k_notOnChan x' \<or> k_notOp x' \<or> k_userNotOnChan x'))"
  using kick_entries [OF assms]
proof (elim disjE)
  assume *: "entry d' = entry d \<and> (k_notOnChan x' \<or> k_notOp x' \<or> k_userNotOnChan x') \<and>
      (\<forall>n uv. find_nick (nicks_at d ch lid) (ec_nick ec) = Some n \<and> user_at d nick = Some uv \<longrightarrow>
         \<not> (is_op n \<and> ch \<in> set (uChannels uv)))"
  then have "view d' = view d" by (auto intro: view_cong)
  with * show ?thesis by (auto simp: spec_kick_def has_op_def is_op_iff split: option.splits)
next
  assume "\<exists>n uv. find_nick (nicks_at d ch lid) (ec_nick ec) = Some n \<and> is_op n \<and>
       user_at d nick = Some uv \<and> ch \<in> set (uChannels uv) \<and>
       x' = \<lparr> k_notOp = False, k_notOnChan = False, k_userNotOnChan = False \<rparr> \<and>
       entry d (keyChanNicks ch (uLease uv)) \<noteq> None \<and>
       entry d' = (entry d)(
         keyUserCtl nick \<mapsto> (GUser (uv\<lparr>uChannels := remove1 ch (uChannels uv)\<rparr>), uLease uv),
         keyChanNicks ch (uLease uv) := left_entry d ch (uLease uv) nick,
         keyChanMsg ch \<mapsto> (GMessage (kick_msg ec ch nick msg), 0))"
  then obtain n uv where n: "find_nick (nicks_at d ch lid) (ec_nick ec) = Some n" "is_op n"
    "user_at d nick = Some uv" "ch \<in> set (uChannels uv)"
    "x' = \<lparr> k_notOp = False, k_notOnChan = False, k_userNotOnChan = False \<rparr>"
    and e: "entry d' = (entry d)(
         keyUserCtl nick \<mapsto> (GUser (uv\<lparr>uChannels := remove1 ch (uChannels uv)\<rparr>), uLease uv),
         keyChanNicks ch (uLease uv) := left_entry d ch (uLease uv) nick,
         keyChanMsg ch \<mapsto> (GMessage (kick_msg ec ch nick msg), 0))" by blast
  from view_leave [OF e] n show ?thesis by (auto simp: spec_kick_def has_op_def is_op_iff)
qed

lemma topic_spec:
  assumes "wf_etcd d" "typed d" "atomically (topic_body ec ch msg lid x) d g x' d'"
  shows "view d' = spec_topic ec ch msg lid (view d)"
  using topic_entries [OF assms] view_cong [of d' d] view_chan(1) [of d' d ch]
  by (cases "chan_at d ch"; cases msg) (auto simp: spec_topic_def has_op_def is_op_iff Let_def split: if_splits option.splits)

lemma chanMode_spec:
  assumes "wf_etcd d" "typed d" "atomically (chanMode_body ec ch m lid x) d g x' d'"
  shows "view d' = spec_chanMode ec ch m lid (view d)"
proof -
  have same: "view d = (view d)\<lparr>nt_chans := (chan_at d)(ch \<mapsto> c)\<rparr>" if "chan_at d ch = Some c" for c
    using that by (simp add: view_def fun_upd_idem)
  show ?thesis
    using chanMode_entries [OF assms] view_cong [of d' d] view_chan(2) [of d' d ch] same
    by (cases "chan_at d ch"; cases "find_nick (nicks_at d ch lid) (ec_nick ec)")
       (auto simp: spec_chanMode_def new_mode_def split: if_splits prod.splits)
qed

lemma on_user_same: "user_at d n = Some uv \<Longrightarrow> f uv = uv \<Longrightarrow> on_user f n (view d) = view d"
  by (simp add: on_user_def view_def fun_upd_idem)

lemma on_user_upd:
  "user_at d n = Some uv \<Longrightarrow> entry d' = (entry d)(keyUserCtl n \<mapsto> (GUser (f uv), l)) \<Longrightarrow> view d' = on_user f n (view d)"
  by (simp add: on_user_def view_user)

lemma userMode_spec:
  assumes "wf_etcd d" "typed d" "atomically (userMode_body ec m x) d g x' d'"
  shows "view d' = spec_userMode ec m (view d)"
proof -
  from userMode_entries [OF assms] obtain uv where uv: "user_at d (ec_nick ec) = Some uv"
    and c: "case updateSlice (ec_spare ec) (uMode uv) m userModePerms of (mv, bad, upd) \<Rightarrow>
       x' = \<lparr> m_mode = mv, m_bad = bad \<rparr> \<and>
       entry d' = (if upd then (entry d)(keyUserCtl (ec_nick ec) \<mapsto> (GUser (uv\<lparr>uMode := mv\<rparr>), uLease uv))
                   else entry d)" by (elim exE conjE)
  obtain mv bad upd where u: "updateSlice (ec_spare ec) (uMode uv) m userModePerms = (mv, bad, upd)"
    by (metis surj_pair)
  with c have e: "entry d' = (if upd then (entry d)(keyUserCtl (ec_nick ec) \<mapsto> (GUser (uv\<lparr>uMode := mv\<rparr>), uLease uv))
      else entry d)" by simp
  show ?thesis
  proof (cases upd)
    case True
    with e u show ?thesis
      unfolding spec_userMode_def by (intro on_user_upd [OF uv]) (simp add: new_mode_def)
  next
    case False
    with e u view_cong [of d' d] show ?thesis
      by (simp add: spec_userMode_def on_user_same [OF uv] new_mode_def)
  qed
qed

lemma away_spec:
  assumes "wf_etcd d" "typed d" "atomically (away_body ec msg x) d g x' d'"
  shows "view d' = spec_away ec msg (view d)"
  using away_entries [OF assms] on_user_upd [of d "ec_nick ec" _ d'] unfolding spec_away_def by auto

lemma oper_spec:
  assumes "wf_etcd d" "typed d" "atomically (oper_body ec login pass x) d g x' d'"
  shows "view d' = spec_oper ec login pass (view d) \<and>
    ((\<exists>ov. oper_at d login = Some ov \<and> oPass ov = pass) \<longrightarrow> x')"
  using oper_entries [OF assms] on_user_upd [of d "ec_nick ec" _ d'] view_cong [of d' d]
  by (cases "oper_at d login") (auto simp: spec_oper_def split: if_splits)

lemma privMsgUser_spec:
  assumes "wf_etcd d" "typed d" "atomically (privMsgUser_body ec target msg x) d g x' d'"
  shows "view d' = spec_privMsgUser ec target msg (view d)"
  using privMsgUser_entries [OF assms] view_cong [of d' d] view_post(1) [of d' d _ _ target] view_post(1) [of d' d _ _ "ec_nick ec"]
  by (cases "user_at d target") (auto simp: spec_privMsgUser_def split: if_splits option.splits)

lemma privMsgChan_spec:
  assumes "wf_etcd d" "typed d" "atomically (privMsgChan_body ec ch msg x) d g x' d'"
  shows "view d' = spec_privMsgChan ec ch msg (view d)"
  using privMsgChan_entries [OF assms] view_cong [of d' d] view_post(2) [of d' d _ _ ch]
  by (cases "chan_at d ch") (auto simp: spec_privMsgChan_def may_speak_def is_op_iff split: if_splits option.splits)

section \<open>QUIT empties the rosters\<close>

definition drop_nick :: "string \<Rightarrow> ChannelNicks \<Rightarrow> ChannelNicks" where
  "drop_nick n cns = fst (del_nick cns n)"

lemma del_nick_all:
  "count_list (nicks cns) n = k \<Longrightarrow> (drop_nick n ^^ k) cns = filter (\<lambda>cn. nNick cn \<noteq> n) cns"
proof (induction k arbitrary: cns)
  case 0
  then have "\<forall>cn \<in> set cns. nNick cn \<noteq> n" by (auto simp: nicks_def count_list_0_iff)
  then show ?case by (simp add: filter_True)
next
  case (Suc k)
  have "filter (\<lambda>cn. nNick cn \<noteq> n) (drop_nick n cns) = filter (\<lambda>cn. nNick cn \<noteq> n) cns"
    by (induction cns) (auto simp: drop_nick_def)
  moreover have "count_list (nicks (drop_nick n cns)) n = k"
    using Suc.prems by (simp add: drop_nick_def del_nick_nicks count_list_remove1)
  ultimately show ?case using Suc.IH [of "drop_nick n cns"] by (simp add: funpow_swap1)
qed

lemma roster_fold:
  "roster_of (fold (leave_one n lid m) chs E) ch l =
     (if l = lid then (drop_nick n ^^ count_list chs ch) (roster_of E ch l) else roster_of E ch l)"
  by (induction chs arbitrary: E) (auto simp: roster_leave_one drop_nick_def [symmetric] funpow_swap1)

lemma leave_one_other:
  "leave_one n lid m ch E (keyChanCtl c) = E (keyChanCtl c)"
  "leave_one n lid m ch E (keyUserMsg c) = E (keyUserMsg c)"
  "leave_one n lid m ch E (keyOperCtl c) = E (keyOperCtl c)"
  by (simp_all add: leave_one_def key_simps split: option.split gob.split)

lemma leave_all_other:
  "fold (leave_one n lid m) chs E (keyChanCtl c) = E (keyChanCtl c)"
  "fold (leave_one n lid m) chs E (keyUserMsg c) = E (keyUserMsg c)"
  "fold (leave_one n lid m) chs E (keyOperCtl c) = E (keyOperCtl c)"
  by (induction chs arbitrary: E) (simp_all add: leave_one_other)

definition has_roster :: "int \<Rightarrow> (string \<Rightarrow> (gob \<times> int) option) \<Rightarrow> string \<Rightarrow> bool" where
  "has_roster lid E ch \<longleftrightarrow> (\<exists>cns l. E (keyChanNicks ch lid) = Some (GNicks cns, l))"

lemma has_roster_leave: "has_roster lid E ch \<Longrightarrow> has_roster lid (leave_one n lid m ch' E) ch"
  by (auto simp: has_roster_def leave_one_def key_simps split: option.split gob.split)

lemma leave_all_msgs:
  "\<forall>c \<in> set chs. has_roster lid E c \<Longrightarrow>
     fold (leave_one n lid m) chs E (keyChanMsg ch) = (if ch \<in> set chs then Some (GMessage m, 0) else E (keyChanMsg ch))"
proof (induction chs arbitrary: E)
  case (Cons c chs)
  have "leave_one n lid m c E (keyChanMsg ch) = (if ch = c then Some (GMessage m, 0) else E (keyChanMsg ch))"
    using Cons.prems by (auto simp: leave_one_def has_roster_def key_simps)
  moreover have "\<forall>c' \<in> set chs. has_roster lid (leave_one n lid m c E) c'"
    using Cons.prems has_roster_leave by auto
  ultimately show ?case using Cons.IH by (cases "ch = c") auto
qed simp

lemma quit_spec:
  assumes "net_ok (ec_nick ec) lid d" "ses_is lid g" "atomically (quit_body ec msg x) d g x' d'"
  shows "view d' = spec_quit ec msg (view d)"
proof -
  let ?n = "ec_nick ec" and ?m = "quit_msg ec msg"
  have inv: "net_inv d" and own: "owns d ?n lid" using assms(1) reachable_inv by (auto simp: net_ok_def)
  then have wf: "wf_etcd d" and ty: "typed d" and co: "consistent (view d)" by (auto simp: net_inv_def)
  from quit_entries [OF wf ty assms(3)] obtain uv l0 where "fst (Session g) = Inr l0" and
    q: "user_at d ?n = Some uv" "entry d' = (fold (leave_one ?n l0 ?m) (uChannels uv) (entry d))
      (keyUserCtl ?n := None, keyUserMsg ?n := None)" by (elim exE conjE)
  moreover from this have "l0 = lid" using Session_ses_is [OF assms(2)] by simp
  ultimately obtain uv where uv: "user_at d ?n = Some uv" and
    e: "entry d' = (fold (leave_one ?n lid ?m) (uChannels uv) (entry d))(keyUserCtl ?n := None, keyUserMsg ?n := None)"
    by simp
  have l: "uLease uv = lid" using own uv by (simp add: owns_def)
  have cnt: "count_list (nicks (nicks_at d ch l)) ?n = (if l = lid then count_list (uChannels uv) ch else 0)" for ch l
    using consistentD [OF co, of ch l ?n] uv \<open>uLease uv = lid\<close> by simp
  have ros: "nicks_at d' ch l = filter (\<lambda>cn. nNick cn \<noteq> ?n) (nicks_at d ch l)" for ch l
  proof -
    have "nicks_at d' ch l = roster_of (fold (leave_one ?n lid ?m) (uChannels uv) (entry d)) ch l"
      by (simp add: nicks_at_roster e roster_of_def key_simps)
    also have "\<dots> = (drop_nick ?n ^^ count_list (nicks (nicks_at d ch l)) ?n) (nicks_at d ch l)"
      using cnt [of ch l] by (simp add: roster_fold nicks_at_roster)
    finally show ?thesis by (simp add: del_nick_all)
  qed
  have "has_roster lid (entry d) ch" if "ch \<in> set (uChannels uv)" for ch
  proof -
    have "0 < count_list (uChannels uv) ch" using that count_list_0_iff [of "uChannels uv" ch] by blast
    then have "nicks_at d ch lid \<noteq> []" using cnt [of ch lid] by (auto simp: nicks_def)
    then obtain p where "entry d (keyChanNicks ch lid) = Some p" by (auto simp: nicks_at_def split: option.splits)
    with typed_nicks [OF ty this] show ?thesis by (auto simp: has_roster_def)
  qed
  then have "fold (leave_one ?n lid ?m) (uChannels uv) (entry d) (keyChanMsg ch) =
      (if ch \<in> set (uChannels uv) then Some (GMessage ?m, 0) else entry d (keyChanMsg ch))" for ch
    by (intro leave_all_msgs) blast
  then have "nt_chanMsg (view d') = (\<lambda>ch. if ch \<in> set (uChannels uv) then Some (GMessage ?m) else nt_chanMsg (view d) ch)"
    by (auto simp: view_def e key_simps)
  moreover have "user_at d' = (user_at d)(?n := None)" "chan_at d' = chan_at d" "oper_at d' = oper_at d"
    by (auto simp: user_at_def chan_at_def oper_at_def e leave_all_users leave_all_other key_simps fun_eq_iff)
  moreover have "nt_userMsg (view d') = (nt_userMsg (view d))(?n := None)"
    by (auto simp: view_def e leave_all_other key_simps fun_eq_iff)
  ultimately show ?thesis
    using uv ros by (simp add: spec_quit_def view_def fun_eq_iff)
qed

end
