(* ===== verification/Join_Correct.thy ===== *)
theory Join_Correct
  imports Command_Specs
begin

text \<open>
  \<^verbatim>\<open>JOIN\<close> and the registration of a nick: the two operations that start watchers.  Each starts them
  right after its own revision, so that no message is missed and none is seen twice.
\<close>

section \<open>Revisions\<close>

lemma Txn_revision: "Txn d cmps succ fail = Inr (resp, d') \<Longrightarrow> tr_Revision resp = revision d'"
  by (auto simp: Txn_def Let_def tx_revision_def tx_end_def revision_def split: option.splits prod.splits)

lemma doSTM_revision:
  assumes "wf_etcd (db w)" "doSTM body pre x w = (Ok (Inr (r, x')), w')"
  shows "r = revision (db w')"
  using doSTM_committed [OF env_closed_True TrueI assms]
  by (auto simp: apply_writes_def dest: Txn_revision)

section \<open>Watchers stay what they are\<close>

definition watching_only :: "watch list \<Rightarrow> world \<Rightarrow> bool" where
  "watching_only ws w \<longleftrightarrow> watches w = ws"

lemma watching_only_sends [preserve]:
  "preserves (watching_only ws) ctx_Err" "preserves (watching_only ws) (SendMsg m)"
  "preserves (watching_only ws) (sendHostMsg ec c ps)"
  by (auto simp: preserves_def watching_only_def SendMsg_def sendHostMsg_def ctx_Err_def bndE_def bnd_def ret_def
      split: list.split option.split)

lemma watching_only_reads [preserve]:
  "preserves (watching_only ws) (etcd_txn cmps succ fail)" "preserves (watching_only ws) (etcd_do req)"
  using rpc_frame by (auto simp: preserves_def watching_only_def etcd_txn_def etcd_do_def same_io_def)

lemma watching_only_names [preserve]: "preserves (watching_only ws) (names ec ch r)"
  unfolding names_def usersFromMask_def usersFromChannel_def users_def usersFromNicks_def userKeysFromNicks_def nameModes_def
  by (intro preserve)

section \<open>JOIN\<close>

lemma extends_holds: "wf_etcd d \<Longrightarrow> db w = d \<Longrightarrow> holds (extends d) (\<lambda>_. True) w"
proof -
  have "extends d (fold serve qs d')" if "extends d d'" for d' qs
    using that serves_extends [of d' qs] extends_trans by (auto simp: extends_def)
  then show "wf_etcd d \<Longrightarrow> db w = d \<Longrightarrow> holds (extends d) (\<lambda>_. True) w"
    by (auto simp: holds_def keeps_def extends_refl)
qed

lemma join_spec:
  assumes "net_ok (ec_nick ec) lid d" "atomically (join_body ec ch lid x) d g x' d'"
  shows "reachable d' \<and> (\<exists>uv t. user_at d (ec_nick ec) = Some uv \<and> view d' = spec_join ec ch lid t uv (view d))"
  using net_ok_wf [OF assms(1)] join_refines [OF _ _ assms(2)] assms
  by (auto simp: net_ok_def intro: reach_step step_join)

text \<open>What \<^verbatim>\<open>JOIN\<close> does after its transaction.\<close>

definition join_tail :: "etcdClient \<Rightarrow> string \<Rightarrow> nat \<times> string \<Rightarrow> (error + unit) io" where
  "join_tail ec ch = (\<lambda>(r, topic).
     bnd (SendMsg (join_msg ec ch)) (\<lambda>_.
     bnd (if topic = [] then sendHostMsg ec RPL_NOTOPIC [ch, ''No topic is set'']
          else sendHostMsg ec RPL_TOPIC [ch, topic]) (\<lambda>_.
     bndE (names ec ch r) (\<lambda>_.
     bnd (monitorChannel ch (r + 1)) (\<lambda>_.
     ctx_Err)))))"

lemma bnd_OkD:
  assumes "bnd m f w = (Ok v, w')"
  obtains a w1 where "m w = (Ok a, w1)" "f a w1 = (Ok v, w')"
  using assms by (auto simp: bnd_def split: prod.splits outcome.splits)

lemma join_tail_effect:
  assumes "wf_etcd (db w)" "join_tail ec ch (r, topic) w = (Ok (Inr ()), w')"
  shows "extends (db w) (db w') \<and> watches w' = watches w @ [WatchChan ch (r + 1)]"
proof -
  let ?S = "holds (extends (db w)) (\<lambda>_. True)" and ?W = "watching_only (watches w)"
  from assms(2) obtain a w1 b w2 c w3 w4 where
    m: "SendMsg (join_msg ec ch) w = (Ok a, w1)"
    "(if topic = [] then sendHostMsg ec RPL_NOTOPIC [ch, ''No topic is set'']
      else sendHostMsg ec RPL_TOPIC [ch, topic]) w1 = (Ok b, w2)"
    "names ec ch r w2 = (Ok (Inr c), w3)" "monitorChannel ch (r + 1) w3 = (Ok (), w4)" "ctx_Err w4 = (Ok (Inr ()), w')"
    unfolding join_tail_def by (auto elim!: bnd_OkD bndE_OkD)
  have "preserves S (if topic = [] then sendHostMsg ec RPL_NOTOPIC [ch, ''No topic is set'']
      else sendHostMsg ec RPL_TOPIC [ch, topic])" if "\<And>c ps. preserves S (sendHostMsg ec c ps)" for S
    using that by (intro preserve)
  note topic = this [OF preserves_sendHostMsg] this [OF watching_only_sends(3)]
  have "?S w" "?W w" using extends_holds [OF assms(1) refl] by (simp_all add: watching_only_def)
  then have "?S w1" "?W w1" using m(1) preserves_SendMsg watching_only_sends(2) by (metis preservesD snd_conv)+
  then have "?S w2" "?W w2" using m(2) topic by (metis preservesD snd_conv)+
  then have "?S w3" "?W w3" using m(3) preserves_names watching_only_names by (metis preservesD snd_conv)+
  then show ?thesis
    using m(4,5) by (auto simp: monitorChannel_def ctx_Err_def holds_def keeps_def watching_only_def split: list.splits option.splits)
qed

text \<open>
  C7.  \<^verbatim>\<open>JOIN\<close> that returns without an error: at one moment after the call the user is appended to the
  roster of its session and the channel to the user's channels, a missing channel is created with the
  user as its operator and owner, the \<^verbatim>\<open>JOIN\<close> is posted, nothing else changes, and one watcher
  of the channel starts at the revision after the \<^verbatim>\<open>JOIN\<close>'s own.
\<close>

theorem join_command:
  assumes "system (ec_nick ec) lid w" "Join_cmd ec ch w = (Ok (Inr ()), w')"
  shows "\<exists>d d' uv t. reachable d \<and> extends (db w) d \<and> user_at d (ec_nick ec) = Some uv \<and>
    view d' = spec_join ec ch lid t uv (view d) \<and> reachable d' \<and> extends d' (db w') \<and>
    watches w' = watches w @ [WatchChan ch (revision d' + 1)]"
proof -
  from assms(2) [unfolded Join_cmd_def] obtain l w0 where s: "get_session w = (Ok (Inr l), w0)"
    and f0: "bndE (doSTM (join_body ec ch l) [keyUserCtl (ec_nick ec), keyChanCtl ch, keyChanNicks ch l] [])
       (join_tail ec ch) w0 = (Ok (Inr ()), w')" unfolding join_tail_def by (rule bndE_OkD)
  from s assms(1) Session_ses_is [of lid "env w" l] have l: "l = lid" and w0: "db w0 = db w" "watches w0 = watches w"
    by (auto simp: get_session_def holds_def case_prod_beta)
  have sys: "system (ec_nick ec) lid w0"
    using preservesD [OF preserves_get_session [OF env_closed_ses_is] assms(1)] s by simp
  from f0 obtain r topic w1 where a: "doSTM (join_body ec ch lid) [keyUserCtl (ec_nick ec), keyChanCtl ch, keyChanNicks ch lid] []
      w0 = (Ok (Inr (r, topic)), w1)" and f1: "join_tail ec ch (r, topic) w1 = (Ok (Inr ()), w')"
    unfolding l by (metis bndE_OkD surj_pair)
  have k: "keeps (net_ok (ec_nick ec) lid) w0" "ses_is lid (env w0)" using sys by (auto simp: holds_def)
  then have wf: "wf_etcd (db w0)" using net_ok_wf by (auto simp: keeps_def)
  from doSTM_committed [OF env_closed_ses_is k(2) wf a] obtain d x0 g ws resp where
    d: "extends (db w0) d" "run_pure (join_body ec ch lid x0) d [] g = ((topic, None), ws, env w1)"
    "apply_writes d ws = Inr (resp, db w1)" "same_io w0 w1" and keep: "\<forall>I. keeps I w0 \<longrightarrow> I d" by (elim exE conjE)
  have ok: "net_ok (ec_nick ec) lid d" using keep k(1) by blast
  have "atomically (join_body ec ch lid x0) d g topic (db w1)" using d by (auto simp: atomically_def)
  from join_spec [OF ok this] obtain uv t where j: "reachable (db w1)" "user_at d (ec_nick ec) = Some uv"
    "view (db w1) = spec_join ec ch lid t uv (view d)" by blast
  have wf1: "wf_etcd (db w1)" using reachable_inv [OF j(1)] by (simp add: net_inv_def)
  from join_tail_effect [OF wf1 f1] doSTM_revision [OF wf a] d(4) w0
  have "extends (db w1) (db w')" "watches w' = watches w @ [WatchChan ch (revision (db w1) + 1)]"
    by (auto simp: same_io_def)
  with j d(1) w0 ok show ?thesis by (auto simp: net_ok_def)
qed

theorem join_command_witness:
  "\<exists>d d' uv t. reachable d \<and> extends net4 d \<and> user_at d ''bo'' = Some uv \<and>
    view d' = spec_join (client ''bo'') ''#c'' 7 t uv (view d) \<and>
    watches (snd (Join_cmd (client ''bo'') ''#c'' (world_of net4 7))) =
      watches (world_of net4 7) @ [WatchChan ''#c'' (revision d' + 1)]"
proof -
  have "fst (Join_cmd (client ''bo'') ''#c'' (world_of net4 7)) = Ok (Inr ())" by code_simp
  from join_command [OF _ with_result [OF this], of 7] demo_systems(3) show ?thesis by simp blast
qed

end
