(* ===== verification/Register_Correct.thy ===== *)
theory Register_Correct
  imports Join_Correct
begin

text \<open>The registration of a nick: nicks are unique, and a fresh user is exactly what is stored.\<close>

lemma Txn_refused:
  "Txn d cmps succ [] = Inr (resp, d') \<Longrightarrow> \<not> tr_Succeeded resp \<Longrightarrow> d' = d \<and> \<not> list_all (applyCompare d) cmps"
  by (auto simp: Txn_def compareToOps_def tx_end_def Let_def split: option.splits if_splits prod.splits)

lemma register_spec:
  assumes "net_inv d" "register_txn uv lid d = Inr (resp, d')"
  shows "if tr_Succeeded resp
    then user_at d (uNick uv) = None \<and> view d' = (view d)\<lparr>nt_users := (user_at d)(uNick uv \<mapsto> uv),
      nt_userMsg := (nt_userMsg (view d))(uNick uv \<mapsto> Raw [])\<rparr>
    else d' = d \<and> user_at d (uNick uv) \<noteq> None"
proof -
  have wf: "wf_etcd d" and ty: "typed d" using assms(1) by (auto simp: net_inv_def)
  show ?thesis
  proof (cases "tr_Succeeded resp")
    case True
    with register_entries [OF wf assms(2)] show ?thesis
      by (auto simp: view_defs key_simps fun_eq_iff)
  next
    case False
    from Txn_refused [OF assms(2) False] have "lookup d (keyUserCtl (uNick uv)) \<noteq> None" "d' = d"
      by (auto split: option.splits)
    with False typed_user(1) [OF ty, of "uNick uv"] show ?thesis
      by (auto simp: entry_def split: option.splits)
  qed
qed

text \<open>The parts of a run that returns no error.\<close>

lemma newEtcdClient_run:
  assumes "server_world lid w" "newEtcdClient spare cfg cr w = (Ok (Inr r), w')"
  obtains t resp w1 w2 where "keeps reachable w1" "db w1 = db w" "watches w1 = watches w"
    "rpc (register_txn (new_user cfg cr lid t) lid) w1 = (Inr resp, w2)"
    "case r of None \<Rightarrow> \<not> tr_Succeeded resp \<and> w' = w2
     | Some ec \<Rightarrow> tr_Succeeded resp \<and> ec_nick ec = cr_nick cr \<and>
         w' = w2\<lparr>watches := watches w2 @ [WatchUser (cr_nick cr) (tr_Revision resp + 1)]\<rparr>"
proof -
  obtain s w0 where 1: "get_session w = (Ok s, w0)" by (simp add: get_session_def case_prod_beta)
  obtain t w1 where 2: "get_now w0 = (Ok t, w1)" by (simp add: get_now_def case_prod_beta)
  have w1: "keeps reachable w1" "db w1 = db w" "watches w1 = watches w"
    using assms(1) 1 2 by (auto simp: get_session_def get_now_def server_world_def holds_def case_prod_beta)
  from 1 assms(2) obtain l where l: "s = Inr l" by (cases s) (auto simp: newEtcdClient_def bndE_Err)
  with 1 assms(1) Session_ses_is [of lid "env w" l] have s: "s = Inr lid"
    by (auto simp: get_session_def server_world_def holds_def case_prod_beta)
  let ?uv = "new_user cfg cr lid t"
  have nick: "uNick ?uv = cr_nick cr" by (simp add: new_user_def)
  obtain q w2 where 3: "rpc (register_txn ?uv lid) w1 = (q, w2)" by fastforce
  show thesis
  proof (cases q)
    case (Inl e)
    with assms(2) 1 2 3 s show thesis
      by (simp add: newEtcdClient_def etcd_txn_def bndE_def bnd_def ret_def Let_def)
  next
    case (Inr resp)
    with assms(2) 1 2 3 s nick that [OF w1, of t resp w2] show thesis
      by (auto simp: newEtcdClient_def etcd_txn_def bndE_def bnd_def ret_def index_def panic_def Let_def
          split: if_splits)
  qed
qed

text \<open>
  C6.  Registration: when \<^verbatim>\<open>newEtcdClient\<close> returns a client, the nick was free at the moment of the
  registration, the stored user is the one of the request under the server's lease, with the
  pinned modes and no channels, its message key is empty, nothing else changed, and the watcher of its messages starts right after; when it
  returns neither a client nor an error, the nick was taken at that moment and nothing changed.
\<close>

theorem register_command:
  assumes "lid \<noteq> 0" "server_world lid w" "newEtcdClient spare cfg cr w = (Ok (Inr r), w')"
  shows "\<exists>d. reachable d \<and> extends (db w) d \<and>
    (case r of
       None \<Rightarrow> user_at d (cr_nick cr) \<noteq> None \<and> db w' = d
     | Some ec \<Rightarrow> user_at d (cr_nick cr) = None \<and> ec_nick ec = cr_nick cr \<and>
         watches w' = watches w @ [WatchUser (cr_nick cr) (revision (db w') + 1)] \<and>
         (\<exists>uv. view (db w') = (view d)\<lparr>nt_users := (user_at d)(cr_nick cr \<mapsto> uv),
            nt_userMsg := (nt_userMsg (view d))(cr_nick cr \<mapsto> Raw [])\<rparr> \<and>
          uNick uv = cr_nick cr \<and> uUser uv = cr_user cr \<and> uChannels uv = [] \<and> uLease uv = lid \<and>
          uMode uv = cfg_PinnedUserModes cfg \<and> uAwayMsg uv = []))"
proof -
  obtain t resp w1 w2 where w1: "keeps reachable w1" "db w1 = db w" "watches w1 = watches w"
    and rpc: "rpc (register_txn (new_user cfg cr lid t) lid) w1 = (Inr resp, w2)"
    and r: "case r of None \<Rightarrow> \<not> tr_Succeeded resp \<and> w' = w2
     | Some ec \<Rightarrow> tr_Succeeded resp \<and> ec_nick ec = cr_nick cr \<and>
         w' = w2\<lparr>watches := watches w2 @ [WatchUser (cr_nick cr) (tr_Revision resp + 1)]\<rparr>"
    by (rule newEtcdClient_run [OF assms(2,3)])
  have nick: "uNick (new_user cfg cr lid t) = cr_nick cr" by (simp add: new_user_def)
  have new: "uUser (new_user cfg cr lid t) = cr_user cr" "uChannels (new_user cfg cr lid t) = []" "uLease (new_user cfg cr lid t) = lid"
    "uMode (new_user cfg cr lid t) = cfg_PinnedUserModes cfg" "uAwayMsg (new_user cfg cr lid t) = []"
    by (simp_all add: new_user_def zeroUser_def newModeValue_def)
  have txn: "register_txn (new_user cfg cr lid t) lid (arrival w1) = Inr (resp, db w2)" and ws: "watches w2 = watches w1"
    using rpc rpc_frame [of "register_txn (new_user cfg cr lid t) lid" w1]
    by (auto simp: arrival_def same_io_def elim: rpc_Inr)
  have reach: "reachable (arrival w1)" by (rule keeps_arrival [OF w1(1)])
  have ext: "extends (db w) (arrival w1)"
    using serves_extends [of "db w1"] reachable_inv [of "db w1"] w1 by (auto simp: arrival_def keeps_def net_inv_def)
  show ?thesis
    using r register_spec [OF reachable_inv [OF reach] txn, unfolded nick] Txn_revision [OF txn] ws w1(3) reach ext nick new
    by (intro exI [of _ "arrival w1"]) (auto split: option.splits)
qed

theorem register_command_witness:
  "\<exists>d. reachable d \<and> extends net1 d \<and>
    (\<exists>uv. view (db (snd (newEtcdClient (\<lambda>_. 0) NewConfig (request ''al'') (world_of net1 7)))) =
      (view d)\<lparr>nt_users := (user_at d)(''al'' \<mapsto> uv), nt_userMsg := (nt_userMsg (view d))(''al'' \<mapsto> Raw [])\<rparr> \<and>
     uNick uv = ''al'' \<and> uLease uv = 7)"
proof -
  let ?p = "newEtcdClient (\<lambda>_. 0) NewConfig (request ''al'') (world_of net1 7)"
  obtain ec where "fst ?p = Ok (Inr (Some ec))"
  proof -
    have "(case fst ?p of Ok (Inr (Some ec)) \<Rightarrow> True | _ \<Rightarrow> False)" by code_simp
    then show ?thesis using that by (auto split: outcome.splits sum.splits option.splits)
  qed
  from register_command [OF _ server_world_of [OF net1_reachable, of 7] with_result [OF this]] show ?thesis
    by (auto simp: request_def)
qed

end
