(* ===== verification/Network_Correct.thy ===== *)
theory Network_Correct
  imports Register_Correct
begin

text \<open>
  The network as a whole: the invariant of every reachable store, what keeps it, and what the loss of a
  session does.
\<close>






definition join_line :: Message where
  "join_line = \<lparr> mPrefix = None, mCommand = ''JOIN'', mParams = [''#d''] \<rparr>"



definition demo_lines :: "input list" where
  "demo_lines = map (\<lambda>(c, ps). InMsg (Some \<lparr> mPrefix = None, mCommand = c, mParams = ps \<rparr>))
     [(''NICK'', [''cy'']), (''USER'', [''cy'', ''cy'']), (''JOIN'', [''#c'']), (''QUIT'', [''bye''])]"


text \<open>
  C19.  The administration tool keeps the network too: creating and removing operator logins and
  sending notices leave rosters and users in agreement.
\<close>

theorem admin_keeps_network:
  assumes "keeps reachable w"
  shows "\<forall>w' \<in> {snd (runOperMk g args w), snd (runOperRm args w), snd (runNotice target args w), snd (runOperLs w)}.
    reachable (db w') \<and> consistent (view (db w'))"
proof
  fix w' assume w': "w' \<in> {snd (runOperMk g args w), snd (runOperRm args w), snd (runNotice target args w), snd (runOperLs w)}"
  have "holds reachable (\<lambda>_. True) w" using assms by (simp add: holds_def)
  with w' have "holds reachable (\<lambda>_. True) w'" by (auto intro: preservesD preserves_admin)
  then have "reachable (db w')" by (simp add: holds_def keeps_def)
  with reachable_inv show "reachable (db w') \<and> consistent (view (db w'))" by (auto simp: net_inv_def)
qed

theorem admin_keeps_network_witness:
  "consistent (view (db (snd (runNotice [] [''hello''] (world_of net5 7)))))"
proof -
  have "keeps reachable (world_of net5 7)" using demo_reachable(4) by (simp add: keeps_def)
  from admin_keeps_network [OF this, of False "[''hello'']" "[]"] show ?thesis by blast
qed

text \<open>
  C18.  When a session is lost (its lease is revoked or expires), exactly the users of that session
  disappear, with their message keys, and exactly its rosters become empty; channels, operators, the users
  and rosters of other sessions and the posted messages of channels stay.
\<close>

theorem session_loss:
  assumes "reachable d" "LeaseRevoke d i = Inr d'"
  shows "user_at d' n = (case user_at d n of None \<Rightarrow> None | Some uv \<Rightarrow> if uLease uv = i then None else Some uv) \<and>
    nicks_at d' ch l = (if l = i then [] else nicks_at d ch l) \<and>
    chan_at d' ch = chan_at d ch \<and> entry d' (keyChanMsg ch) = entry d (keyChanMsg ch)"
proof -
  have ty: "typed d" and wf: "wf_etcd d" using reachable_inv [OF assms(1)] by (auto simp: net_inv_def)
  note e = LeaseRevoke_entry [OF assms(2) wf]
  have "i \<in> set (leases d)" using assms(2) by (auto simp: LeaseRevoke_def split: if_splits)
  then have "i \<noteq> 0" using ty by (auto simp: typed_iff)
  then have "chan_at d' ch = chan_at d ch"
    using typed_chan(1) [OF ty, of ch] by (simp add: chan_at_def [of d'] e split: option.split)
  moreover have "pred_option (key_ok (keyChanMsg ch)) (entry d (keyChanMsg ch))"
    using ty unfolding typed_iff typed_map_def by blast
  with \<open>i \<noteq> 0\<close> have "entry d' (keyChanMsg ch) = entry d (keyChanMsg ch)"
    by (auto simp: e key_ok_def split: option.split)
  ultimately show ?thesis using revoke_view [OF ty wf assms(2)] by blast
qed

theorem session_loss_witness:
  "\<exists>d'. LeaseRevoke net5 7 = Inr d' \<and> user_at net5 ''bo'' \<noteq> None \<and> user_at d' ''bo'' = None \<and>
     nicks_at d' ''#c'' 7 = [] \<and> chan_at d' ''#c'' = chan_at net5 ''#c''"
proof -
  have b: "map_option uLease (user_at net5 ''bo'') = Some 7" by code_simp
  have "(case LeaseRevoke net5 7 of Inl _ \<Rightarrow> False | Inr _ \<Rightarrow> True)" by code_simp
  then obtain d' where r: "LeaseRevoke net5 7 = Inr d'" by (auto split: sum.splits)
  with session_loss [OF demo_reachable(4) r, of "''bo''" "''#c''" 7] b show ?thesis by auto
qed

end
