(* ===== verification/Commands_Correct.thy ===== *)
theory Commands_Correct
  imports Command_Specs
begin

text \<open>
  The commands of a client are atomic and do what their specifications say, whatever other parties
  do in between and whatever request fails before.
\<close>

section \<open>One command\<close>

lemma command_refines:
  assumes "committed n lid body d0 d x1 (db w1)" "db w' = db w1"
    and "\<And>x0 g. net_ok n lid d \<Longrightarrow> ses_is lid g \<Longrightarrow> atomically (body x0) d g x1 (db w1) \<Longrightarrow> view (db w1) = S (view d)"
  shows "\<exists>d. reachable d \<and> extends d0 d \<and> view (db w') = S (view d)"
  using assms by (auto simp: committed_def net_ok_def)

lemmas reply_defs = not_on_channel_def not_chan_op_def noSuchNick_def

text \<open>
  C8.  \<^verbatim>\<open>PART\<close> that returns without an error: at one moment after the call, in a reachable network,
  the user leaves the channel as specified (the channel goes once from the user, the nick once from
  the roster of its session, the \<^verbatim>\<open>PART\<close> is posted, nothing else changes) and gets no reply; or the
  user is not on the channel, nothing changes and the client is told so.
\<close>

theorem part_command:
  assumes "system (ec_nick ec) lid w" "Part ec ch msg w = (Ok (Inr ()), w')"
  shows "\<exists>d. reachable d \<and> extends (db w) d \<and> view (db w') = spec_part ec ch msg lid (view d) \<and>
    out w' = out w @ (if \<exists>uv. user_at d (ec_nick ec) = Some uv \<and> ch \<in> set (uChannels uv) then []
      else [host_msg ec ERR_NOTONCHANNEL [ch, ''You'' @ [CHR 0x27] @ ''re not on that channel'']])"
proof -
  obtain d x1 r w1 where c: "committed (ec_nick ec) lid (part_body ec ch msg lid) (db w) d x1 (db w1)"
    and o: "out w1 = out w" and f: "(if \<not> x1
      then sendHostMsg ec ERR_NOTONCHANNEL [ch, ''You'' @ [CHR 0x27] @ ''re not on that channel'']
      else ret (Inr ())) w1 = (Ok (Inr ()), w')"
    by (rule run_session_command [OF assms(1) assms(2) [unfolded Part_def]], rule that, simp_all only: prod.case)
  from c obtain x0 g where a: "atomically (part_body ec ch msg lid x0) d g x1 (db w1)" by (rule committed_atomically)
  note part_spec [OF _ _ a]
  with committed_wf [OF c] committed_reachable [OF c] f o sendHostMsg_Ok [of ec ERR_NOTONCHANNEL _ w1 "()" w']
  show ?thesis by (cases x1) auto
qed

theorem part_command_witness:
  "\<exists>d. reachable d \<and> extends net3 d \<and>
    view (db (snd (Part (client ''al'') ''#c'' ''bye'' (world_of net3 7)))) = spec_part (client ''al'') ''#c'' ''bye'' 7 (view d)"
proof -
  have "fst (Part (client ''al'') ''#c'' ''bye'' (world_of net3 7)) = Ok (Inr ())" by code_simp
  from part_command [OF _ with_result [OF this], of 7] demo_systems(2) show ?thesis by auto
qed

text \<open>
  C9.  \<^verbatim>\<open>KICK\<close> of one nick that returns without an error: at one moment after the call, if the client is
  an operator of the channel and the target is on it, exactly the target's membership is removed, in
  whatever session the target is, the \<^verbatim>\<open>KICK\<close> is posted and there is no reply; otherwise nothing
  changes and the client gets one of the three refusals.
\<close>

theorem kick_command:
  assumes "system (ec_nick ec) lid w" "kick ec ch nick msg w = (Ok (Inr ()), w')"
  shows "\<exists>d. reachable d \<and> extends (db w) d \<and> view (db w') = spec_kick ec ch nick msg lid (view d) \<and>
    (if \<exists>uv. user_at d nick = Some uv \<and> has_op (view d) ch lid (ec_nick ec) \<and> ch \<in> set (uChannels uv)
     then out w' = out w
     else \<exists>c ps. c \<in> {ERR_NOTONCHANNEL, ERR_USERNOTINCHANNEL, ERR_CHANOPRIVSNEEDED} \<and>
       out w' = out w @ [host_msg ec c ps])"
proof -
  obtain d x1 r w1 where c: "committed (ec_nick ec) lid (kick_body ec ch nick msg lid) (db w) d x1 (db w1)"
    and o: "out w1 = out w" and f: "(if k_notOnChan x1 then not_on_channel ec ch
      else if k_userNotOnChan x1 then sendHostMsg ec ERR_USERNOTINCHANNEL [nick, ch, ''User not in channel'']
      else if k_notOp x1 then not_chan_op ec ch else ret (Inr ())) w1 = (Ok (Inr ()), w')"
    by (rule run_session_command [OF assms(1) assms(2) [unfolded kick_def]], rule that, simp_all only: prod.case)
  from c obtain x0 g where a: "atomically (kick_body ec ch nick msg lid x0) d g x1 (db w1)" by (rule committed_atomically)
  have "db w' = db w1 \<and> (if k_notOnChan x1 \<or> k_notOp x1 \<or> k_userNotOnChan x1
     then \<exists>c ps. c \<in> {ERR_NOTONCHANNEL, ERR_USERNOTINCHANNEL, ERR_CHANOPRIVSNEEDED} \<and>
       out w' = out w @ [host_msg ec c ps]
     else out w' = out w)"
    using f o sendHostMsg_Ok [of ec _ _ w1 "()" w'] by (fastforce simp: reply_defs split: if_splits)
  with kick_spec [OF _ _ a] committed_wf [OF c] committed_reachable [OF c] show ?thesis
    by (metis (no_types, lifting))
qed

theorem kick_command_witness:
  "\<exists>d. reachable d \<and> extends net5 d \<and>
    view (db (snd (kick (client ''al'') ''#c'' ''bo'' ''out'' (world_of net5 7)))) =
      spec_kick (client ''al'') ''#c'' ''bo'' ''out'' 7 (view d)"
proof -
  have "fst (kick (client ''al'') ''#c'' ''bo'' ''out'' (world_of net5 7)) = Ok (Inr ())" by code_simp
  from kick_command [OF _ with_result [OF this], of 7] demo_systems(4) show ?thesis by auto
qed







section \<open>Users\<close>



text \<open>
  \<^verbatim>\<open>AWAY\<close> that returns without an error: at one moment after the call the away message is stored
  and the mode \<^verbatim>\<open>a\<close> is set exactly when it is not empty, and the reply says which.
\<close>

theorem away_command:
  assumes "system (ec_nick ec) lid w" "Away ec msg w = (Ok (Inr ()), w')"
  shows "\<exists>d. reachable d \<and> extends (db w) d \<and> view (db w') = spec_away ec msg (view d) \<and>
    out w' = out w @ [if msg = [] then host_msg ec RPL_UNAWAY [''You are no longer marked as being away'']
      else host_msg ec RPL_NOWAWAY [''You have been marked as being away'']]"
proof -
  obtain d x1 r w1 where c: "committed (ec_nick ec) lid (away_body ec msg) (db w) d x1 (db w1)"
    and o: "out w1 = out w"
    and f: "(if msg = [] then sendHostMsg ec RPL_UNAWAY [''You are no longer marked as being away'']
     else sendHostMsg ec RPL_NOWAWAY [''You have been marked as being away'']) w1 = (Ok (Inr ()), w')"
    by (rule run_command [OF assms(1) assms(2) [unfolded Away_def]], rule that, assumption, assumption, assumption)
  from c obtain x0 g where a: "atomically (away_body ec msg x0) d g x1 (db w1)" by (rule committed_atomically)
  from away_spec [OF _ _ a] committed_wf [OF c] have "view (db w1) = spec_away ec msg (view d)" by simp
  with f o sendHostMsg_Ok [of ec _ _ w1 "()" w'] committed_reachable [OF c] show ?thesis
    by (cases "msg = []") auto
qed

theorem away_command_witness:
  "\<exists>d. reachable d \<and> extends net3 d \<and>
    view (db (snd (Away (client ''al'') ''lunch'' (world_of net3 7)))) = spec_away (client ''al'') ''lunch'' (view d)"
proof -
  have "fst (Away (client ''al'') ''lunch'' (world_of net3 7)) = Ok (Inr ())" by code_simp
  from away_command [OF _ with_result [OF this], of 7] demo_systems(2) show ?thesis by auto
qed



section \<open>Messages\<close>





end
