(* ===== verification/Client_Correct.thy ===== *)
theory Client_Correct
  imports Command_Specs
begin

text \<open>
  What the commands rest on and what they show: transactions are serializable, queries change nothing, watchers
  deliver what was posted, secret channels and invisible users stay hidden; and the inputs on which a handler
  panics.
\<close>

section \<open>Transactions\<close>

text \<open>
  C20.  Transactions are serializable: a transaction that returns without an error had, at one moment after it was called,
  the effect of its body run alone on the store of that moment, all reads from that store and all writes in one revision, which is
  the revision that it returns; the moment satisfies every invariant that the other parties keep.  This holds for every body, every
  interleaving of other requests and every pattern of failed requests.
\<close>

theorem stm_serializable:
  assumes "wf_etcd (db w)" "doSTM body pre x w = (Ok (Inr (rv, x')), w')"
  shows "\<exists>d x0 g ws resp. extends (db w) d \<and> run_pure (body x0) d [] g = ((x', None), ws, env w') \<and>
    Txn d [] (puts ws) [] = Inr (resp, db w') \<and> tr_Revision resp = rv \<and> out w' = out w \<and> (\<forall>I. keeps I w \<longrightarrow> I d)"
proof -
  have "env_closed (\<lambda>_. True)" by (simp add: env_closed_def)
  from doSTM_committed [OF this TrueI assms] obtain d x0 g ws resp where c:
    "extends (db w) d" "run_pure (body x0) d [] g = ((x', None), ws, env w')" "apply_writes d ws = Inr (resp, db w')"
    "tr_Revision resp = rv" "same_io w w'" "\<forall>I. keeps I w \<longrightarrow> I d"
    by (elim exE conjE) (rule that, simp_all)
  show ?thesis
    by (intro exI [of _ d] exI [of _ x0] exI [of _ g] exI [of _ ws] exI [of _ resp])
       (use c in \<open>simp add: apply_writes_def same_io_def\<close>)
qed

definition busy_world :: world where
  "busy_world = (world_of net5 7)\<lparr>sched := [([], NoFault), ([ReqOp (OpPut (keyUserCtl ''al'') (GUser zeroUser) 0 False False)], NoFault)]\<rparr>"

theorem stm_serializable_witness:
  "\<exists>rv x' w'. doSTM (away_body (client ''al'') ''gone'') [] () busy_world = (Ok (Inr (rv, x')), w') \<and>
     (\<exists>d. extends net5 d \<and> (\<exists>x0 g ws. run_pure (away_body (client ''al'') ''gone'' x0) d [] g = ((x', None), ws, env w')))"
proof -
  let ?r = "doSTM (away_body (client ''al'') ''gone'') [] () busy_world"
  have "(case fst ?r of Ok (Inr _) \<Rightarrow> True | _ \<Rightarrow> False)" by code_simp
  then obtain rv x' w' where r: "?r = (Ok (Inr (rv, x')), w')" by (cases ?r) (auto split: outcome.splits sum.splits)
  have "wf_etcd (db busy_world)"
    using reachable_inv [OF demo_reachable(4)] by (simp add: net_inv_def busy_world_def world_of_def)
  from stm_serializable [OF this r] r show ?thesis by (auto simp: busy_world_def world_of_def)
qed

section \<open>Queries\<close>

text \<open>
  Queries change nothing: \<^verbatim>\<open>NAMES\<close>, \<^verbatim>\<open>WHO\<close>, \<^verbatim>\<open>WHOIS\<close>, \<^verbatim>\<open>LIST\<close> and \<^verbatim>\<open>PING\<close> leave the store as it is,
  so does \<^verbatim>\<open>DIE\<close>, whether they return, panic or end the process.
\<close>

lemma queries_change_nothing:
  assumes "sched w = []"
    and "m \<in> {Names ec ch, Who ec args, Whois ec n, List_cmd ec chs, Ping ec msg, Die ec}"
  shows "db (snd (m w)) = db w"
proof -
  let ?I = "\<lambda>d. d = db w"
  have "holds ?I (\<lambda>_. True) w" using assms(1) by (simp add: holds_def keeps_def)
  moreover have "preserves (holds ?I (\<lambda>_. True)) m" using assms(2) by (auto intro: preserves_queries)
  ultimately have "holds ?I (\<lambda>_. True) (snd (m w))" by (rule preservesD [rotated])
  then show ?thesis by (simp add: holds_def keeps_def)
qed

text \<open>
  C24.  Who sees whom: the users that \<^verbatim>\<open>WHO\<close> and \<^verbatim>\<open>NAMES\<close> show are those that are not invisible, those with a channel in
  common, of which only the common channels show, and, for operators, the users of the same server or all users.
\<close>

theorem pruneInvisible_shown:
  "pruneInvisible us me = List.map_filter (\<lambda>u.
     if CHR ''O'' \<in> set (uMode me) then Some u
     else if CHR ''i'' \<in> set (uMode u) then
       (if CHR ''o'' \<in> set (uMode me) \<and> uServerName u = uServerName me then Some u
        else if list_ex (\<lambda>ch. ch \<in> set (uChannels me)) (uChannels u)
        then Some (u\<lparr>uChannels := filter (\<lambda>ch. ch \<in> set (uChannels me)) (uChannels u)\<rparr>) else None)
     else Some u) us"
  unfolding pruneInvisible_map_filter
  by (rule arg_cong [where f = "\<lambda>f. List.map_filter f us"]) (auto simp: shown_def fun_eq_iff list_ex_iff)

section \<open>Delivery\<close>

text \<open>
  Delivery: while the client's context is live, a watcher sends the posted messages to the connection in
  the order in which they were posted, each once, except the client's own \<^verbatim>\<open>PRIVMSG\<close>s, up to and including the client's own
  \<^verbatim>\<open>PART\<close> or its \<^verbatim>\<open>KICK\<close>; then it cancels the watch of that channel and sends nothing more.
\<close>

theorem monitorMsg_delivers:
  assumes "ctxs w = []" "concat evss = pre @ ev # suf" "\<forall>e \<in> set pre. is_put e"
    and "\<forall>e \<in> set pre. \<forall>m \<in> set (message_of e). stays ec m" "message_of ev = [m]" "ends ec ch m"
  shows "monitorMsg ec (map WatchEvents evss) w = (Ok (Inr ()), snd (chan_cancel ch
    (w\<lparr>out := out w @ filter (\<lambda>m. \<not> own_privmsg ec m) (concat (map message_of pre)) @ [m]\<rparr>)))"
  using monitorMsg_stop_at [OF assms(2,1,3,4) monitorMsg_event_ends [OF _ assms(5,6)]] assms(1) by simp

definition posted :: "Message \<Rightarrow> gob event" where
  "posted m = PutEvent (keyChanMsg ''#c'') \<lparr> kv_Value = encodeMessage m, kv_CreateRevision = 2, kv_ModRevision = 3,
     kv_Version = 1, kv_Lease = 0 \<rparr> None"

definition said :: "string \<Rightarrow> string \<Rightarrow> string list \<Rightarrow> Message" where
  "said n cmd ps = \<lparr> mPrefix = Some \<lparr> pName = n, pUser = [], pHost = [] \<rparr>, mCommand = cmd, mParams = ps \<rparr>"

theorem monitorMsg_delivers_witness:
  "\<exists>w'. monitorMsg (client ''al'') (map WatchEvents
       [[posted (said ''bo'' ''PRIVMSG'' [''#c'', ''hi'']), posted (said ''al'' ''PRIVMSG'' [''#c'', ''ho''])],
        [posted (said ''al'' ''PART'' [''#c'']), posted (said ''bo'' ''PRIVMSG'' [''#c'', ''late''])]]) (world_of net5 7) = (Ok (Inr ()), w') \<and>
     out w' = [said ''bo'' ''PRIVMSG'' [''#c'', ''hi''], said ''al'' ''PART'' [''#c'']]"
proof -
  let ?m = "\<lambda>n t. posted (said n ''PRIVMSG'' [''#c'', t])" and ?p = "said ''al'' ''PART'' [''#c'']"
  have "concat [[?m ''bo'' ''hi'', ?m ''al'' ''ho''], [posted ?p, ?m ''bo'' ''late'']] =
      [?m ''bo'' ''hi'', ?m ''al'' ''ho''] @ posted ?p # [?m ''bo'' ''late'']" by simp
  from monitorMsg_delivers [OF _ this, of "world_of net5 7" "client ''al''" ?p "''#c''"]
  show ?thesis
    by (simp add: world_of_def posted_def said_def client_def stays_def Client_Monitor.ends_def own_privmsg_def chan_cancel_def)
qed

section \<open>Inputs that crash the server\<close>

text \<open>
  A \<^verbatim>\<open>NAMES\<close>, \<^verbatim>\<open>PING\<close> or \<^verbatim>\<open>QUIT\<close> without a parameter and a \<^verbatim>\<open>PRIVMSG\<close> with less than two panic with an
  index out of range, in every state: the dispatch checks the number of parameters of the other commands, but not of these.
\<close>

theorem short_commands_panic:
  assumes "mCommand msg \<in> {''NAMES'', ''PING'', ''QUIT''} \<and> mParams msg = [] \<or>
    mCommand msg = ''PRIVMSG'' \<and> length (mParams msg) < 2"
  shows "ClientDo ec msg w = (Panic ''index out of range'', w)"
  using assms by (cases "mParams msg") (auto simp: ClientDo_def index_def bnd_def panic_def ret_def)

theorem short_commands_panic_witness:
  "ClientDo (client ''al'') \<lparr> mPrefix = None, mCommand = ''QUIT'', mParams = [] \<rparr> (world_of net5 7) =
     (Panic ''index out of range'', world_of net5 7)"
  by (rule short_commands_panic) simp

text \<open>
  \<^verbatim>\<open>WHO\<close> and \<^verbatim>\<open>NAMES\<close> of a nick that is not registered panic with a nil dereference: the key lookup leaves a nil entry
  for a missing user, and the loop over the entries dereferences it.
\<close>

theorem unknown_nick_panics:
  assumes "sched w = []" "lookup (db w) (keyUserCtl n) = None" "\<not> isChan n" "n \<notin> {''*'', ''0''}"
  shows "Who ec [n] w = (Panic ''nil pointer dereference'', w) \<and> Names ec n w = (Panic ''nil pointer dereference'', w)"
proof -
  let ?ops = "map (\<lambda>n. OpGet (keyUserCtl n) None 0) [n, ec_nick ec] :: gob op list"
  have none: "filter (\<lambda>p. in_range (keyUserCtl n) None (fst p)) (current (db w)) = []"
    using assms(2) by (auto simp: lookup_def in_range_def filter_empty_conv map_of_eq_None_iff rev_image_eqI)
  have "\<exists>rv q. Txn (db w) [] ?ops [] = Inr (\<lparr> tr_Revision = rv, tr_Succeeded = True, tr_Responses = [RangeResp rv [], q] \<rparr>, db w)"
    using none by (simp add: Txn_def checkTxnRequest_def MaxOpsPerTxn_def checkRequestDupKeys_def compareToOps_def keyUserCtl_def
        tx_end_def tx_revision_def tx_range_def Let_def)
  then have "usersFromNicks ec [n] 0 w = (Panic ''nil pointer dereference'', w)"
    using assms(1) by (auto simp: usersFromNicks_def userKeysFromNicks_def etcd_txn_def quiet_rpc bndE_def bnd_def ret_def
        panic_def)
  with assms(3,4) show ?thesis
    by (auto simp: Who_def Names_def names_def usersFromMask_def bndE_def bnd_def)
qed

theorem unknown_nick_panics_witness:
  "Who (client ''al'') [''zed''] (world_of net5 7) = (Panic ''nil pointer dereference'', world_of net5 7)"
proof -
  have "lookup net5 (keyUserCtl ''zed'') = None" by code_simp
  then show ?thesis
    using unknown_nick_panics [of "world_of net5 7" "''zed''" "client ''al''"] by (simp add: world_of_def)
qed

section \<open>Surprises\<close>

text \<open>
  \<^verbatim>\<open>OPER\<close> can report success without effect: the flag that a first attempt sets is not reset when the transaction is retried, so
  a login that is removed between the two attempts is still confirmed to the client, whose mode does not change.
\<close>

definition oper_race :: world where
  "oper_race = (world_of net6 7)\<lparr>sched := [([], NoFault), ([ReqOp (oper_del ''root'')], NoFault)]\<rparr>"

lemma oper_stale_success:
  "let (r, w') = Oper (client ''al'') ''root'' ''pw'' oper_race in
     r = Ok (Inr ()) \<and> map mCommand (out w') = [RPL_YOUREOPER] \<and>
     map_option uMode (user_at (db w') ''al'') = map_option uMode (user_at net6 ''al'') \<and>
     map_option uMode (user_at net6 ''al'') = Some []"
  by code_simp

text \<open>A mode that the configuration pins to every user at registration is one that the user can take off.\<close>

lemma pinned_mode_removable: "updateSlice (\<lambda>_. 0) (newModeValue ''E'') [''-E''] userModePerms = ([], [], True)"
  by code_simp

text \<open>
  The rosters of a channel are read by the prefix of their keys, and a slash in a channel name is not escaped: the
  rosters of \<^verbatim>\<open>#a/b\<close> are among those that a query of \<^verbatim>\<open>#a\<close> reads.
\<close>

lemma roster_prefix_overlap: "prefix (keyChanNicksPfx ch) (keyChanNicks (ch @ CHR ''/'' # sub) l)"
  by (simp add: keyChanNicksPfx_def keyChanNicks_def)

end
