(* ===== verification/List_Correct.thy ===== *)
theory List_Correct
  imports Command_Specs
begin

text \<open>
  \<^verbatim>\<open>LIST\<close> on a network at rest: what is sent, channel by channel.
\<close>

lemma prefix_range:
  assumes "p \<noteq> []" "wf_etcd d"
  shows "set (filter (\<lambda>q. in_range p (Some (getPrefix p)) (fst q)) (current d)) = {(k, kv). prefix p k \<and> lookup d k = Some kv}"
  using assms wf_current_sorted [of d] map_of_sorted [of "current d"] by (auto simp: in_range_prefix lookup_def)

lemma decode_kvs_all:
  assumes "\<And>k kv. (k, kv) \<in> set kvs \<Longrightarrow> decode (kv_Value kv) = Inr (f k)"
  shows "decode_kvs decode kvs = Inr (map (f \<circ> fst) kvs)"
  using assms
proof (induction kvs)
  case (Cons p kvs)
  then have "decode_kvs decode kvs = Inr (map (f \<circ> fst) kvs)" by simp
  moreover have "decode (kv_Value (snd p)) = Inr (f (fst p))" using Cons.prems [of "fst p" "snd p"] by simp
  ultimately show ?case by simp
qed simp

lemma set_map_filter: "set (List.map_filter f xs) = {y. \<exists>x \<in> set xs. f x = Some y}"
  by (induction xs) (auto simp: map_filter_simps split: option.splits)

lemma chan_kv:
  assumes "typed d" "lookup d (keyChanCtl ch) = Some kv"
  shows "\<exists>c. chan_at d ch = Some c \<and> decodeChannelCtl (kv_Value kv) = Inr c \<and> cName c = ch"
proof -
  have "entry d (keyChanCtl ch) = Some (kv_Value kv, kv_Lease kv)" using assms(2) by (simp add: entry_def)
  with typed_chan [OF assms(1), of ch] show ?thesis
    by (cases "chan_at d ch") (auto simp: decode_defs)
qed

lemma chan_keys:
  assumes "typed d" "wf_etcd d"
  obtains cs where "decode_kvs decodeChannelCtl
      (filter (\<lambda>q. in_range (keyChanCtl []) (Some (getPrefix (keyChanCtl []))) (fst q)) (current d)) = Inr cs"
    "set cs = {c. \<exists>ch. chan_at d ch = Some c}"
proof -
  let ?L = "filter (\<lambda>q. in_range (keyChanCtl []) (Some (getPrefix (keyChanCtl []))) (fst q)) (current d)"
  have L: "set ?L = {(k, kv). prefix (keyChanCtl []) k \<and> lookup d k = Some kv}"
    by (rule prefix_range [OF _ assms(2)]) (simp add: keyChanCtl_def)
  have pk: "\<exists>ch. k = keyChanCtl ch" if "prefix (keyChanCtl []) k" for k
    using that by (auto simp: keyChanCtl_def prefix_def)
  define f where "f k = the (chan_at d (THE ch. k = keyChanCtl ch))" for k
  have f: "f (keyChanCtl ch) = the (chan_at d ch)" for ch by (simp add: f_def key_simps)
  have "decode_kvs decodeChannelCtl ?L = Inr (map (f \<circ> fst) ?L)"
  proof (rule decode_kvs_all)
    fix k kv assume "(k, kv) \<in> set ?L"
    then obtain ch where k: "k = keyChanCtl ch" "lookup d (keyChanCtl ch) = Some kv" unfolding L using pk by blast
    with chan_kv [OF assms(1) k(2)] show "decodeChannelCtl (kv_Value kv) = Inr (f k)" by (auto simp: f)
  qed
  moreover have "set (map (f \<circ> fst) ?L) = {c. \<exists>ch. chan_at d ch = Some c}"
  proof (intro set_eqI iffI)
    fix c assume "c \<in> set (map (f \<circ> fst) ?L)"
    then obtain k kv where kv: "(k, kv) \<in> set ?L" "c = f k" unfolding set_map by fastforce
    then obtain ch where k: "k = keyChanCtl ch" "lookup d (keyChanCtl ch) = Some kv" unfolding L using pk by blast
    with chan_kv [OF assms(1) k(2)] kv(2) show "c \<in> {c. \<exists>ch. chan_at d ch = Some c}" by (auto simp: f)
  next
    fix c assume "c \<in> {c. \<exists>ch. chan_at d ch = Some c}"
    then obtain ch where ch: "chan_at d ch = Some c" by blast
    with typed_chan(1) [OF assms(1), of ch] obtain kv where "lookup d (keyChanCtl ch) = Some kv" by (auto simp: entry_def)
    then have "(keyChanCtl ch, kv) \<in> set ?L" unfolding L by (simp add: keyChanCtl_def)
    then have "(f \<circ> fst) (keyChanCtl ch, kv) \<in> (f \<circ> fst) ` set ?L" by (rule imageI)
    then show "c \<in> set (map (f \<circ> fst) ?L)" by (simp add: f ch)
  qed
  ultimately show thesis by (rule that)
qed

definition list_msg :: "etcdClient \<Rightarrow> replyList \<Rightarrow> Message" where
  "list_msg ec r = host_msg ec RPL_LIST [rl_channel r, fmt_d (rl_visible r), '' '' @ rl_topic r]"

lemma send_repls_live:
  "ctxs w = [] \<Longrightarrow> send_repls ec rs w = (Ok (), w\<lparr>out := out w @ map (list_msg ec) rs\<rparr>)"
  by (induction rs arbitrary: w)
     (simp_all add: ret_def bnd_def sendHostMsg_def SendMsg_live list_msg_def host_msg_def)

text \<open>
  C23.  \<^verbatim>\<open>LIST\<close> without arguments, on a reachable network at rest: it sends one line for every channel except the
  secret ones that the client is not in, with the channel's topic, then the end of the list, and changes nothing.
\<close>

theorem list_command:
  assumes "reachable (db w)" "sched w = []" "ctxs w = []" "user_at (db w) (ec_nick ec) = Some uv"
  shows "\<exists>rs. List_cmd ec [] w =
      (Ok (Inr ()), w\<lparr>out := out w @ map (list_msg ec) rs @ [host_msg ec RPL_LISTEND [''End of LIST'']]\<rparr>) \<and>
    set rs = {\<lparr> rl_channel = ch, rl_visible = 100, rl_topic = cTopic c \<rparr> | ch c.
      chan_at (db w) ch = Some c \<and> (CHR ''s'' \<in> set (cMode c) \<longrightarrow> ch \<in> set (uChannels uv))}"
proof -
  let ?d = "db w"
  have ty: "typed ?d" and wf: "wf_etcd ?d" using reachable_inv [OF assms(1)] by (auto simp: net_inv_def)
  let ?L = "filter (\<lambda>q. in_range (keyChanCtl []) (Some (getPrefix (keyChanCtl []))) (fst q)) (current ?d)"
  obtain cs where cs: "decode_kvs decodeChannelCtl ?L = Inr cs" "set cs = {c. \<exists>ch. chan_at ?d ch = Some c}"
    by (rule chan_keys [OF ty wf])
  from typed_user(1) [OF ty, of "ec_nick ec"] assms(4) obtain kv where
    kv: "map_of (current ?d) (keyUserCtl (ec_nick ec)) = Some kv" "kv_Value kv = GUser uv"
    by (auto simp: entry_def lookup_def)
  have "Txn ?d [] (List_ops ec []) [] = Inr (\<lparr> tr_Revision = revision ?d, tr_Succeeded = True,
      tr_Responses = [RangeResp (revision ?d) [(keyUserCtl (ec_nick ec), kv)], RangeResp (revision ?d) ?L] \<rparr>, ?d)"
    using one_key [OF wf_current_sorted [OF wf], of "keyUserCtl (ec_nick ec)"] kv(1)
    by (simp add: Txn_def List_ops_def get_prefix_def WithPrefix_def checkTxnRequest_def MaxOpsPerTxn_def checkRequestDupKeys_def
        compareToOps_def key_defs tx_end_def tx_revision_def tx_range_def Let_def)
  then have "List_cmd ec [] w = (Ok (Inr ()),
      w\<lparr>out := out w @ map (list_msg ec) (List.map_filter (list_repl uv) cs) @ [host_msg ec RPL_LISTEND [''End of LIST'']]\<rparr>)"
    using assms(2,3) kv(2) cs(1)
    by (simp add: List_cmd_def etcd_txn_def quiet_rpc bndE_def bnd_def index_def ret_def lift_def decodeUserValue_def send_repls_live
        sendHostMsg_def SendMsg_live host_msg_def)
  moreover have "set (List.map_filter (list_repl uv) cs) = {\<lparr> rl_channel = ch, rl_visible = 100, rl_topic = cTopic c \<rparr> | ch c.
      chan_at (db w) ch = Some c \<and> (CHR ''s'' \<in> set (cMode c) \<longrightarrow> ch \<in> set (uChannels uv))}"
  proof -
    have r: "list_repl uv c = Some r \<longleftrightarrow> (CHR ''s'' \<in> set (cMode c) \<longrightarrow> cName c \<in> set (uChannels uv)) \<and>
        r = \<lparr> rl_channel = cName c, rl_visible = 100, rl_topic = cTopic c \<rparr>" for c r
      by (auto simp: list_repl_def)
    show ?thesis unfolding set_map_filter cs(2) r using typed_chan(2) [OF ty] by blast
  qed
  ultimately show ?thesis by blast
qed

theorem list_command_witness:
  "\<exists>rs. List_cmd (client ''al'') [] (world_of net5 7) =
     (Ok (Inr ()), (world_of net5 7)\<lparr>out := map (list_msg (client ''al'')) rs @ [host_msg (client ''al'') RPL_LISTEND [''End of LIST'']]\<rparr>)"
proof -
  have "user_at net5 ''al'' \<noteq> None" by code_simp
  then obtain uv where "user_at net5 ''al'' = Some uv" by blast
  with list_command [of "world_of net5 7" "client ''al''" uv] demo_reachable(4) show ?thesis
    by (auto simp: world_of_def client_def)
qed

end
