(* ===== verification/Client_Returns.thy ===== *)
theory Client_Returns
  imports Demo_Net
begin

text \<open>
  Termination: every operation of the program returns, panics or exits; the retry loops of its transactions
  never run forever, since each retry uses up a turn of the other parties.
\<close>

definition returns :: "'a io \<Rightarrow> bool" where
  "returns m \<longleftrightarrow> (\<forall>w. wf_etcd (db w) \<longrightarrow> fst (m w) \<noteq> OutOfFuel \<and> wf_etcd (db (snd (m w))))"

named_theorems returns_rules \<open>actions that end\<close>

lemma returnsI: "(\<And>w. wf_etcd (db w) \<Longrightarrow> fst (m w) \<noteq> OutOfFuel \<and> wf_etcd (db (snd (m w)))) \<Longrightarrow> returns m"
  by (simp add: returns_def)

lemma returns_ret [returns_rules]: "returns (ret a)" "returns (panic s)" "returns (exit n)" "returns (lift r)" "returns (index xs i)"
  by (simp_all add: returns_def ret_def panic_def exit_def lift_def index_def)

lemma returns_bnd [returns_rules]:
  assumes "returns m" "\<And>a. returns (f a)"
  shows "returns (bnd m f)"
proof (rule returnsI)
  fix w :: world
  assume w: "wf_etcd (db w)"
  obtain r w' where m: "m w = (r, w')" by fastforce
  with assms(1) w have "r \<noteq> OutOfFuel" "wf_etcd (db w')" by (auto simp: returns_def)
  with m assms(2) show "fst (bnd m f w) \<noteq> OutOfFuel \<and> wf_etcd (db (snd (bnd m f w)))"
    by (cases r) (auto simp: bnd_def returns_def)
qed

lemma returns_bndE [returns_rules]: "returns m \<Longrightarrow> (\<And>a. returns (f a)) \<Longrightarrow> returns (bndE m f)"
  unfolding bndE_def by (intro returns_bnd) (auto split: sum.split intro: returns_rules)

lemma returns_if [returns_rules]: "returns m \<Longrightarrow> returns m' \<Longrightarrow> returns (if b then m else m')"
  by simp

lemma returns_case [returns_rules]:
  "returns m \<Longrightarrow> (\<And>x. returns (f x)) \<Longrightarrow> returns (case q of None \<Rightarrow> m | Some x \<Rightarrow> f x)"
  "(\<And>e. returns (g e)) \<Longrightarrow> (\<And>x. returns (f x)) \<Longrightarrow> returns (case s of Inl e \<Rightarrow> g e | Inr x \<Rightarrow> f x)"
  "(\<And>x y. returns (h x y)) \<Longrightarrow> returns (case p of (x, y) \<Rightarrow> h x y)"
  "returns m \<Longrightarrow> (\<And>x xs. returns (k x xs)) \<Longrightarrow> returns (case l of [] \<Rightarrow> m | x # xs \<Rightarrow> k x xs)"
  by (auto split: option.split sum.split prod.split list.split)

section \<open>Requests\<close>

lemma wf_rpc:
  assumes "wf_etcd (db w)" "\<And>d a d'. wf_etcd d \<Longrightarrow> f d = Inr (a, d') \<Longrightarrow> wf_etcd d'"
  shows "wf_etcd (db (snd (rpc f w)))"
proof -
  have "wf_etcd (fold serve qs d)" if "wf_etcd d" for qs and d :: "gob etcd"
    using serves_extends [OF that, of qs] by (simp add: extends_def)
  then have "keeps wf_etcd w" using assms(1) by (simp add: keeps_def)
  then have "keeps wf_etcd (snd (rpc f w))" by (rule keeps_rpc) (rule assms(2))
  then show ?thesis by (simp add: keeps_def)
qed

lemma returns_requests [returns_rules]: "returns (etcd_txn cmps succ fail)" "returns (etcd_do req)"
proof -
  have "wf_etcd d'" if "wf_etcd d" "Txn d cmps succ fail = Inr (a, d')" for d a d'
    using Txn_extends [OF that] by (simp add: extends_def)
  then show "returns (etcd_txn cmps succ fail)" by (auto intro!: returnsI wf_rpc simp: etcd_txn_def)
  have "wf_etcd d'" if "wf_etcd d" "DoOp d req = Inr (a, d')" for d a d'
    using DoOp_extends [OF that] by (simp add: extends_def)
  then show "returns (etcd_do req)" by (auto intro!: returnsI wf_rpc simp: etcd_do_def)
qed

lemma returns_doSTM [returns_rules]: "returns (doSTM body pre x)"
proof (rule returnsI, rule conjI)
  fix w :: world
  assume wf: "wf_etcd (db w)"
  from doSTM_ends [OF this, of body pre x] show "fst (doSTM body pre x w) \<noteq> OutOfFuel" by auto
  have "wf_etcd (fold serve qs d)" if "wf_etcd d" for qs and d :: "gob etcd"
    using serves_extends [OF that, of qs] by (simp add: extends_def)
  then have "keeps wf_etcd w" using wf by (simp add: keeps_def)
  then have "keeps wf_etcd (snd (doSTM body pre x w))"
    by (rule doSTM_keeps [where P = "\<lambda>_. True"])
       (auto simp: env_closed_def apply_writes_def extends_def dest: Txn_extends)
  then show "wf_etcd (db (snd (doSTM body pre x w)))" by (simp add: keeps_def)
qed

lemma returns_small [returns_rules]: "returns ctx_Err" "returns (SendMsg m)" "returns get_session" "returns get_now" "returns last_lease"
  "returns (monitorChannel ch r)"
proof -
  show "returns ctx_Err" by (rule returnsI) (simp add: ctx_Err_def split: list.split option.split)
  then show "returns (SendMsg m)" unfolding SendMsg_def by (rule returns_bndE) (simp add: returns_def)
qed (simp_all add: returns_def get_session_def get_now_def last_lease_def monitorChannel_def split: prod.split)

section \<open>Commands\<close>

lemma returns_replies [returns_rules]: "returns (sendHostMsg ec cmd ps)" "returns (needMoreParams ec)" "returns (badChanMask ec ch)"
  "returns (noSuchChannel ec ch)" "returns (noSuchNick ec n)" "returns (not_on_channel ec ch)" "returns (not_chan_op ec ch)"
  unfolding sendHostMsg_def needMoreParams_def badChanMask_def noSuchChannel_def noSuchNick_def
    not_on_channel_def not_chan_op_def by (intro returns_rules)+

lemma returns_loops [returns_rules]: "returns (deref_users kvs)" "returns (who_replies ec msk mm us)" "returns (send_repls ec rs)"
    "returns (bad_modes ec ms)"
proof -
  show "returns (deref_users kvs)" by (induction kvs rule: deref_users.induct) (auto intro!: returns_rules)
  show "returns (who_replies ec msk mm us)" by (induction us) (auto intro!: returns_rules)
  show "returns (send_repls ec rs)" by (induction rs) (auto intro!: returns_rules)
  show "returns (bad_modes ec ms)" by (induction ms) (auto intro!: returns_rules)
qed

lemma returns_queries [returns_rules]: "returns (names ec ch r)" "returns (Names ec ch)" "returns (Who ec args)" "returns (Whois ec n)" "returns (List_cmd ec chs)"
  "returns (Ping ec msg)" "returns (Die ec)"
  unfolding Names_def names_def Who_def Whois_def List_cmd_def Ping_def Die_def usersFromMask_def usersFromChannel_def users_def
    nameModes_def usersFromNicks_def userKeysFromNicks_def Let_def
  by (intro returns_rules)+

lemma returns_commands [returns_rules]: "returns (Join_cmd ec ch)" "returns (Part ec ch msg)" "returns (kick ec ch nick msg)" "returns (Quit ec msg)"
  "returns (Topic ec ch t)" "returns (chanMode ec ch m)" "returns (userMode ec m)" "returns (Away ec msg)" "returns (Oper ec login pass)"
  "returns (PrivMsg ec target msg)"
  unfolding Join_cmd_def Part_def kick_def Quit_def Topic_def chanMode_def userMode_def Away_def Oper_def
    PrivMsg_def privMsgUser_def privMsgChan_def Let_def
  by (intro returns_rules)+

lemma returns_Mode [returns_rules]: "returns (Mode ec m)"
  unfolding Mode_def by (intro returns_rules)

lemma returns_Kick [returns_rules]: "returns (Kick ec ch ns msg)"
  by (induction ns) (auto intro!: returns_rules)

lemma returns_joins [returns_rules]: "returns (joins ec chs)"
  by (induction chs) (auto intro!: returns_rules)

lemma returns_ClientDo [returns_rules]: "returns (ClientDo ec msg)"
  unfolding ClientDo_def Let_def by (intro returns_rules)

section \<open>Connections\<close>

lemma returns_greet [returns_rules]: "returns (motd s nick)" "returns (greet s cr ec)"
  unfolding motd_def greet_def Let_def by (intro returns_rules)+

lemma returns_conn_loop [returns_rules]: "returns (conn_loop ins s nick ec)"
  by (induction ins) (auto intro!: returns_rules split: input.split option.split sum.split)

lemma returns_readConnRequest [returns_rules]: "returns (readConnRequest ins st)"
proof (induction ins arbitrary: st)
  case (Cons i ins)
  have "returns (read_one msg st)" for msg
    unfolding read_one_def by (auto intro!: returns_rules split: prod.split)
  with Cons.IH show ?case
    by (cases st) (auto split: input.split option.split prod.split intro!: returns_rules simp: returns_def [of "\<lambda>w. (Ok _, _ w)"])
qed (simp add: returns_rules)

lemma returns_newEtcdClient [returns_rules]: "returns (newEtcdClient spare cfg cr)"
  unfolding newEtcdClient_def Let_def by (intro returns_rules) (simp add: returns_def)

lemma returns_try_nick [returns_rules]: "returns t \<Longrightarrow> returns (try_nick s cr ins t)"
  unfolding try_nick_def by (intro returns_rules)

lemma returns_handshake [returns_rules]: "returns (handshake ins s cr waiting)"
proof (induction ins arbitrary: cr waiting)
  case (Cons i ins)
  show ?case
    unfolding handshake.simps Let_def
    by (intro returns_rules) (auto split: input.split option.split intro!: returns_rules Cons.IH)
qed (auto intro!: returns_rules)

lemma returns_handleConn: "returns (handleConn s ins)"
  unfolding handleConn_def by (intro returns_rules)



end
