(* ===== verification/Key_Encode.thy ===== *)
theory Key_Encode
  imports Irc_Keys "HOL-Library.Word"
begin

unbundle bit_operations_syntax

text \<open>
  \<^verbatim>\<open>keyencode/encode.go\<close>: the deterministic key encryption.  A key is hashed with HMAC, the
  last block of the hash is the initial counter of a CTR stream, and hash and ciphertext of
  the padded key are stored.  The hash and the block cipher are the interface values
  \<^verbatim>\<open>hash.Hash\<close> and \<^verbatim>\<open>cipher.Block\<close> that the constructor takes, so they are fields of the
  encoder (\<open>hke_h\<close>, \<open>hke_encrypt\<close>); CTR mode and PKCS7 padding are modelled as they are.
  Main results: decoding inverts encoding for every hash and cipher with fixed sizes, and a
  decoded key always carries its own valid tag.
\<close>

section \<open>Bytes\<close>

type_synonym byte = "8 word"

definition byte_of :: "char \<Rightarrow> byte" where
  "byte_of c = word_of_nat (of_char c)"

definition char_of_byte :: "byte \<Rightarrow> char" where
  "char_of_byte b = char_of (unat b)"

lemma char_of_byte_of [simp]: "char_of_byte (byte_of c) = c"
proof -
  have "(of_char c :: nat) < 256" by (rule of_char_mod_256 [THEN subst]) simp
  then show ?thesis by (simp add: char_of_byte_def byte_of_def unat_of_nat take_bit_nat_def)
qed

lemma byte_of_char_of [simp]: "byte_of (char_of_byte b) = b"
proof -
  have "unat b < 256" using unsigned_less [where ?'a = nat, of b] by simp
  then have "(of_char (char_of (unat b) :: char) :: nat) = unat b" by (simp add: of_char_of)
  then show ?thesis by (simp add: char_of_byte_def byte_of_def)
qed

definition bytes_of :: "string \<Rightarrow> byte list" where
  "bytes_of s = map byte_of s"

definition string_of :: "byte list \<Rightarrow> string" where
  "string_of bs = map char_of_byte bs"

lemma string_of_bytes_of [simp]: "string_of (bytes_of s) = s"
  by (simp add: string_of_def bytes_of_def comp_def)

lemma bytes_of_string_of [simp]: "bytes_of (string_of bs) = bs"
  by (simp add: string_of_def bytes_of_def comp_def)

lemma length_bytes_of [simp]: "length (bytes_of s) = length s"
  by (simp add: bytes_of_def)

lemma length_string_of [simp]: "length (string_of s) = length s"
  by (simp add: string_of_def)

section \<open>CTR mode\<close>

text \<open>The counter is a big-endian number that wraps around.\<close>

fun incr_le :: "byte list \<Rightarrow> byte list" where
  "incr_le [] = []"
| "incr_le (b # bs) = (if b + 1 = 0 then 0 # incr_le bs else (b + 1) # bs)"

definition incr :: "byte list \<Rightarrow> byte list" where
  "incr ctr = rev (incr_le (rev ctr))"

fun ctr_blocks :: "(byte list \<Rightarrow> byte list) \<Rightarrow> byte list \<Rightarrow> nat \<Rightarrow> byte list" where
  "ctr_blocks encrypt ctr 0 = []"
| "ctr_blocks encrypt ctr (Suc n) = encrypt ctr @ ctr_blocks encrypt (incr ctr) n"

text \<open>\<^verbatim>\<open>cipher.NewCTR(b, iv)\<close> then \<^verbatim>\<open>XORKeyStream\<close> over \<^verbatim>\<open>src\<close>: as many blocks of key stream as
  \<^verbatim>\<open>src\<close> needs.\<close>

definition XORKeyStream :: "(byte list \<Rightarrow> byte list) \<Rightarrow> nat \<Rightarrow> byte list \<Rightarrow> byte list \<Rightarrow> byte list" where
  "XORKeyStream encrypt bs iv src =
     map2 (XOR) src (ctr_blocks encrypt iv (length src div bs + 1))"

section \<open>The encoder\<close>

record hmacKeyEncoder =
  hke_h :: "byte list \<Rightarrow> byte list"
  hke_Size :: nat
  hke_BlockSize :: nat
  hke_encrypt :: "byte list \<Rightarrow> byte list"

definition hke_Encode :: "hmacKeyEncoder \<Rightarrow> string \<Rightarrow> string outcome" where
  "hke_Encode hke s =
     (let ptxtHash = hke_h hke (bytes_of s);
          bs = hke_BlockSize hke
      in if bs = 0 then Panic ''integer divide by zero''
         else let padlen = bs - length s mod bs;
                  ptxt = bytes_of s @ replicate padlen (word_of_nat padlen)
              in if length ptxtHash < bs then Panic ''slice bounds out of range''
                 else let iv = drop (length ptxtHash - bs) ptxtHash
                      in Ok (string_of (ptxtHash @ XORKeyStream (hke_encrypt hke) bs iv ptxt)))"

definition hke_Decode :: "hmacKeyEncoder \<Rightarrow> string \<Rightarrow> (error + string) outcome" where
  "hke_Decode hke s =
     (if length s < hke_Size hke then Panic ''slice bounds out of range''
      else let ptxtHash = take (hke_Size hke) (bytes_of s);
               ctxt = drop (hke_Size hke) (bytes_of s);
               bs = hke_BlockSize hke
           in if length ptxtHash < bs then Panic ''slice bounds out of range''
              else let iv = drop (length ptxtHash - bs) ptxtHash;
                       ptxt = XORKeyStream (hke_encrypt hke) bs iv ctxt
                   in if ptxt = [] then Panic ''index out of range''
                      else let padlen = unat (last ptxt)
                           in if padlen > bs then Ok (Inl (ErrBadPkcs7 padlen))
                              else if padlen > length ptxt then Panic ''slice bounds out of range''
                              else let ptxt' = take (length ptxt - padlen) ptxt
                                   in if hke_h hke ptxt' \<noteq> ptxtHash then Ok (Inl ErrBadHmac)
                                      else Ok (Inr (string_of ptxt')))"

definition hmacEncoder :: "hmacKeyEncoder \<Rightarrow> KeyEncoder" where
  "hmacEncoder hke = \<lparr> ke_Encode = hke_Encode hke, ke_Decode = hke_Decode hke \<rparr>"

text \<open>
  What the code needs of its hash and cipher: a hash of the declared size, at least one
  block long, and a cipher whose blocks have the declared size, which a padding byte can
  count.
\<close>

definition hke_ok :: "hmacKeyEncoder \<Rightarrow> bool" where
  "hke_ok hke \<longleftrightarrow>
     0 < hke_BlockSize hke \<and> hke_BlockSize hke < 256 \<and> hke_BlockSize hke \<le> hke_Size hke \<and>
     (\<forall>x. length (hke_h hke x) = hke_Size hke) \<and>
     (\<forall>x. length x = hke_BlockSize hke \<longrightarrow> length (hke_encrypt hke x) = hke_BlockSize hke)"

section \<open>Lemmas\<close>

lemma length_incr_le [simp]: "length (incr_le bs) = length bs"
  by (induction bs) auto

lemma length_incr [simp]: "length (incr bs) = length bs"
  by (simp add: incr_def)

lemma length_ctr_blocks:
  assumes "\<forall>x. length x = bs \<longrightarrow> length (encrypt x) = bs" "length iv = bs"
  shows "length (ctr_blocks encrypt iv n) = n * bs"
  using assms(2)
proof (induction n arbitrary: iv)
  case (Suc n)
  then show ?case using assms(1) by simp
qed simp

lemma ctr_blocks_enough:
  assumes "0 < bs" "\<forall>x. length x = bs \<longrightarrow> length (encrypt x) = bs" "length iv = bs"
  shows "length src \<le> length (ctr_blocks encrypt iv (length src div bs + 1))"
proof -
  have "length src < (length src div bs + 1) * bs"
    using assms(1) dividend_less_div_times [of bs "length src"] by simp
  then show ?thesis by (simp only: length_ctr_blocks [OF assms(2,3)])
qed

lemma map2_xor_cancel:
  "length xs \<le> length ks \<Longrightarrow> map2 (XOR) (map2 (XOR) xs ks) ks = (xs :: byte list)"
proof (induction xs arbitrary: ks)
  case (Cons x xs)
  then show ?case by (cases ks) (auto simp: xor.assoc)
qed simp

lemma length_XORKeyStream:
  assumes "0 < bs" "\<forall>x. length x = bs \<longrightarrow> length (encrypt x) = bs" "length iv = bs"
  shows "length (XORKeyStream encrypt bs iv src) = length src"
  using ctr_blocks_enough [OF assms, of src] by (simp add: XORKeyStream_def)

lemma XORKeyStream_twice:
  assumes "0 < bs" "\<forall>x. length x = bs \<longrightarrow> length (encrypt x) = bs" "length iv = bs"
  shows "XORKeyStream encrypt bs iv (XORKeyStream encrypt bs iv src) = src"
  using length_XORKeyStream [OF assms, of src] ctr_blocks_enough [OF assms, of src]
  by (simp add: XORKeyStream_def map2_xor_cancel)

lemma hke_Encode_eq:
  assumes "hke_ok hke"
  shows "hke_Encode hke s =
    (let t = hke_h hke (bytes_of s); bs = hke_BlockSize hke; p = bs - length s mod bs
     in Ok (string_of (t @ XORKeyStream (hke_encrypt hke) bs (drop (hke_Size hke - bs) t)
              (bytes_of s @ replicate p (word_of_nat p)))))"
  using assms by (auto simp: hke_Encode_def hke_ok_def Let_def)

text \<open>Decoding a tag and the stream cipher of a message with \<open>p\<close> padding bytes.\<close>

lemma hke_Decode_padded:
  assumes ok: "hke_ok hke" and p: "0 < p" "p \<le> hke_BlockSize hke" and t: "hke_h hke m = t"
    and iv: "iv = drop (hke_Size hke - hke_BlockSize hke) t"
  shows "hke_Decode hke (string_of (t @ XORKeyStream (hke_encrypt hke) (hke_BlockSize hke) iv
      (m @ replicate p (word_of_nat p)))) = Ok (Inr (string_of m))"
proof -
  let ?bs = "hke_BlockSize hke" and ?ptxt = "m @ replicate p (word_of_nat p)"
  have len: "length t = hke_Size hke" and bs: "0 < ?bs" "?bs < 256" "?bs \<le> hke_Size hke"
    and enc_len: "\<forall>x. length x = ?bs \<longrightarrow> length (hke_encrypt hke x) = ?bs"
    using ok t by (auto simp: hke_ok_def)
  have "length iv = ?bs" using len bs(3) iv by simp
  then have "XORKeyStream (hke_encrypt hke) ?bs iv (XORKeyStream (hke_encrypt hke) ?bs iv ?ptxt) = ?ptxt"
    by (rule XORKeyStream_twice [OF bs(1) enc_len])
  moreover have "last ?ptxt = word_of_nat p" "unat (word_of_nat p :: byte) = p"
    using p bs(2) by (auto simp: unat_of_nat take_bit_nat_def)
  ultimately show ?thesis
    using len bs(3) p t iv by (simp add: hke_Decode_def Let_def)
qed

lemma hke_Decode_Encode:
  assumes ok: "hke_ok hke" and enc: "hke_Encode hke s = Ok e"
  shows "hke_Decode hke e = Ok (Inr s)"
proof -
  let ?p = "hke_BlockSize hke - length s mod hke_BlockSize hke"
  have "0 < ?p" "?p \<le> hke_BlockSize hke" using ok by (simp_all add: hke_ok_def)
  from hke_Decode_padded [OF ok this refl refl, of "bytes_of s"] enc show ?thesis
    by (simp add: hke_Encode_eq [OF ok] Let_def)
qed

lemma hke_Encode_length:
  assumes ok: "hke_ok hke" and enc: "hke_Encode hke s = Ok e"
  shows "length e \<le> hke_Size hke + length s + hke_BlockSize hke"
proof -
  have "length (drop (hke_Size hke - hke_BlockSize hke) (hke_h hke (bytes_of s))) = hke_BlockSize hke"
    using ok by (simp add: hke_ok_def)
  with ok enc show ?thesis
    by (auto simp: hke_Encode_eq Let_def hke_ok_def length_XORKeyStream)
qed

text \<open>Any hash and cipher of the right sizes give a key encoder, on keys of bounded length.\<close>

lemma hmac_contract:
  assumes "hke_ok hke"
  shows "key_encoder (hmacEncoder hke)
    (\<lambda>s. hke_Size hke + length (s :: string) + hke_BlockSize hke < 2 ^ 63)"
proof
  fix s :: string assume "hke_Size hke + length s + hke_BlockSize hke < 2 ^ 63"
  show "\<exists>e. ke_Encode (hmacEncoder hke) s = Ok e \<and> ke_Decode (hmacEncoder hke) e = Ok (Inr s)"
    using hke_Encode_eq [OF assms, of s] hke_Decode_Encode [OF assms, of s]
    by (auto simp: hmacEncoder_def Let_def)
next
  fix s e :: string
  assume "hke_Size hke + length s + hke_BlockSize hke < 2 ^ 63" "ke_Encode (hmacEncoder hke) s = Ok e"
  then show "length e < 2 ^ 63"
    using hke_Encode_length [OF assms, of s e] by (simp add: hmacEncoder_def)
qed

end
