(* ===== verification/Store_Sim.thy ===== *)
theory Store_Sim
  imports Etcd_Store
begin

text \<open>
  etcd does not look at values and looks at keys only through their order.  So two stores, one of which
  has renamed keys (by a function that keeps the order) and related values, serve related requests with related responses; keys outside
  the range of the renaming are neither read nor written.  The layers of the client between the server
  and etcd, the namespace and the encryption of values, are instances.
\<close>

section \<open>Related pairs, events and responses\<close>

definition kv_rel :: "('v \<Rightarrow> 'w \<Rightarrow> bool) \<Rightarrow> 'v KeyValue \<Rightarrow> 'w KeyValue \<Rightarrow> bool" where
  "kv_rel V kv KV \<longleftrightarrow> V (kv_Value kv) (kv_Value KV) \<and> kv_CreateRevision KV = kv_CreateRevision kv \<and>
     kv_ModRevision KV = kv_ModRevision kv \<and> kv_Version KV = kv_Version kv \<and> kv_Lease KV = kv_Lease kv"

definition pair_rel :: "(string \<Rightarrow> string) \<Rightarrow> ('v \<Rightarrow> 'w \<Rightarrow> bool) \<Rightarrow> string \<times> 'v KeyValue \<Rightarrow> string \<times> 'w KeyValue \<Rightarrow> bool" where
  "pair_rel f V p P \<longleftrightarrow> fst P = f (fst p) \<and> kv_rel V (snd p) (snd P)"

fun ev_rel :: "(string \<Rightarrow> string) \<Rightarrow> ('v \<Rightarrow> 'w \<Rightarrow> bool) \<Rightarrow> 'v event \<Rightarrow> 'w event \<Rightarrow> bool" where
  "ev_rel f V (PutEvent k kv prev) (PutEvent K KV PREV) \<longleftrightarrow> K = f k \<and> kv_rel V kv KV \<and> rel_option (kv_rel V) prev PREV"
| "ev_rel f V (DeleteEvent k r prev) (DeleteEvent K R PREV) \<longleftrightarrow> K = f k \<and> R = r \<and> rel_option (kv_rel V) prev PREV"
| "ev_rel f V _ _ \<longleftrightarrow> False"

fun resp_rel :: "(string \<Rightarrow> string) \<Rightarrow> ('v \<Rightarrow> 'w \<Rightarrow> bool) \<Rightarrow> 'v response \<Rightarrow> 'w response \<Rightarrow> bool" where
  "resp_rel f V (RangeResp r kvs) (RangeResp R KVS) \<longleftrightarrow> R = r \<and> list_all2 (pair_rel f V) kvs KVS"
| "resp_rel f V (PutResp r prev) (PutResp R PREV) \<longleftrightarrow> R = r \<and> rel_option (pair_rel f V) prev PREV"
| "resp_rel f V (DeleteResp r kvs) (DeleteResp R KVS) \<longleftrightarrow> R = r \<and> list_all2 (pair_rel f V) kvs KVS"
| "resp_rel f V _ _ \<longleftrightarrow> False"

definition txn_rel :: "(string \<Rightarrow> string) \<Rightarrow> ('v \<Rightarrow> 'w \<Rightarrow> bool) \<Rightarrow> 'v TxnResponse \<Rightarrow> 'w TxnResponse \<Rightarrow> bool" where
  "txn_rel f V r R \<longleftrightarrow> tr_Revision R = tr_Revision r \<and> tr_Succeeded R = tr_Succeeded r \<and>
     list_all2 (resp_rel f V) (tr_Responses r) (tr_Responses R)"

section \<open>Related requests\<close>

definition range_rel :: "(string \<Rightarrow> string) \<Rightarrow> string \<Rightarrow> string option \<Rightarrow> string option \<Rightarrow> bool" where
  "range_rel f key end END \<longleftrightarrow> (\<forall>x. in_range (f key) END x \<longleftrightarrow> (\<exists>k. x = f k \<and> in_range key end k))"

fun op_rel :: "(string \<Rightarrow> string) \<Rightarrow> ('v \<Rightarrow> 'w \<Rightarrow> bool) \<Rightarrow> 'v op \<Rightarrow> 'w op \<Rightarrow> bool" where
  "op_rel f V (OpGet key end r) (OpGet K E R) \<longleftrightarrow> key \<noteq> [] \<and> K = f key \<and> R = r \<and> range_rel f key end E"
| "op_rel f V (OpPut key v l ign prev) (OpPut K w L IGN PREV) \<longleftrightarrow> key \<noteq> [] \<and> K = f key \<and> V v w \<and> L = l \<and> IGN = ign \<and> PREV = prev"
| "op_rel f V (OpDelete key end prev) (OpDelete K E PREV) \<longleftrightarrow>
     key \<noteq> [] \<and> K = f key \<and> PREV = prev \<and> E = map_option f end \<and> range_rel f key end E"
| "op_rel f V _ _ \<longleftrightarrow> False"

fun cmp_map :: "(string \<Rightarrow> string) \<Rightarrow> cmp \<Rightarrow> cmp" where
  "cmp_map f (CmpVersion k r n) = CmpVersion (f k) r n"
| "cmp_map f (CmpModRevision k r n) = CmpModRevision (f k) r n"
| "cmp_map f (CmpCreateRevision k r n) = CmpCreateRevision (f k) r n"

section \<open>Related stores\<close>

definition snap_rel :: "(string \<Rightarrow> string) \<Rightarrow> ('v \<Rightarrow> 'w \<Rightarrow> bool) \<Rightarrow> 'v snapshot \<Rightarrow> 'w snapshot \<Rightarrow> bool" where
  "snap_rel f V s S \<longleftrightarrow> snap_sorted s \<and> snap_sorted S \<and> (\<forall>k. rel_option (kv_rel V) (map_of s k) (map_of S (f k)))"

definition store_rel :: "(string \<Rightarrow> string) \<Rightarrow> ('v \<Rightarrow> 'w \<Rightarrow> bool) \<Rightarrow> 'v etcd \<Rightarrow> 'w etcd \<Rightarrow> bool" where
  "store_rel f V d D \<longleftrightarrow> list_all2 (snap_rel f V) (hist d) (hist D) \<and>
     list_all2 (ev_rel f V) (elog d) (filter (\<lambda>ev. ev_key ev \<in> range f) (elog D)) \<and> leases D = leases d"

definition tx_rel :: "(string \<Rightarrow> string) \<Rightarrow> ('v \<Rightarrow> 'w \<Rightarrow> bool) \<Rightarrow> 'v txn_state \<Rightarrow> 'w txn_state \<Rightarrow> bool" where
  "tx_rel f V tx TX \<longleftrightarrow> snap_rel f V (fst tx) (fst TX) \<and> list_all2 (ev_rel f V) (snd tx) (snd TX)"

locale key_renaming =
  fixes f :: "string \<Rightarrow> string"
  assumes mono: "f k < f k' \<longleftrightarrow> k < k'"
    and nonempty: "k \<noteq> [] \<Longrightarrow> f k \<noteq> []"
begin

lemma inj [simp]: "f k = f k' \<longleftrightarrow> k = k'"
  using mono [of k k'] mono [of k' k] by (metis less_irrefl linorder_less_linear)

lemma snap_put_rel: "snap_rel f V s S \<Longrightarrow> kv_rel V v w \<Longrightarrow> snap_rel f V (snap_put k v s) (snap_put (f k) w S)"
  by (auto simp: snap_rel_def snap_sorted_put store_simps)

lemma snap_del_rel: "snap_rel f V s S \<Longrightarrow> snap_rel f V (snap_del k s) (snap_del (f k) S)"
  by (auto simp: snap_rel_def snap_sorted_del store_simps)

lemma snap_keys:
  assumes "snap_rel f V s S"
  shows "map fst (filter (\<lambda>P. fst P \<in> range f) S) = map f (map fst s)" (is "?L = ?R")
proof -
  from assms have s: "snap_sorted s" "snap_sorted S" and m: "\<And>k. rel_option (kv_rel V) (map_of s k) (map_of S (f k))"
    by (auto simp: snap_rel_def)
  have "map_of S (f k) = None \<longleftrightarrow> map_of s k = None" for k using m [of k] by (auto simp: option.rel_sel)
  then have key: "f k \<in> fst ` set S \<longleftrightarrow> k \<in> fst ` set s" for k by (metis map_of_eq_None_iff)
  have "set ?L = range f \<inter> fst ` set S" by force
  also have "\<dots> = f ` fst ` set s" using key by blast
  finally have "set ?L = set ?R" by (simp add: image_image)
  moreover have "sorted_wrt (<) ?L" using snap_sorted_filter [OF s(2)] by (simp add: snap_sorted_def)
  moreover have "sorted_wrt (<) ?R" using s(1) by (simp add: snap_sorted_def sorted_wrt_map mono)
  ultimately show ?thesis by (metis strict_sorted_equal)
qed

lemma snap_list:
  assumes "snap_rel f V s S"
  shows "list_all2 (pair_rel f V) s (filter (\<lambda>P. fst P \<in> range f) S)" (is "list_all2 _ s ?S")
proof -
  from snap_keys [OF assms] have len: "length ?S = length s" by (metis length_map)
  have "pair_rel f V (s ! i) (?S ! i)" if i: "i < length s" for i
  proof -
    have k: "fst (?S ! i) = f (fst (s ! i))" using snap_keys [OF assms] i len by (metis length_map nth_map)
    have "?S ! i \<in> set ?S" by (rule nth_mem) (simp add: i len)
    then have "(f (fst (s ! i)), snd (?S ! i)) \<in> set S" by (simp flip: k)
    moreover have "(fst (s ! i), snd (s ! i)) \<in> set s" using i by simp
    ultimately have "map_of S (f (fst (s ! i))) = Some (snd (?S ! i))" "map_of s (fst (s ! i)) = Some (snd (s ! i))"
      using assms map_of_sorted [of S "f (fst (s ! i))"] map_of_sorted [of s "fst (s ! i)"] unfolding snap_rel_def by metis+
    with assms k show ?thesis by (auto simp: snap_rel_def pair_rel_def) (metis option.rel_inject(2))
  qed
  with len show ?thesis by (simp add: list_all2_conv_all_nth)
qed

text \<open>Selections of pairs by corresponding conditions correspond.\<close>

lemma snap_filter_rel:
  assumes "snap_rel f V s S" "\<And>p P. pair_rel f V p P \<Longrightarrow> B P = A p"
  shows "snap_rel f V (filter A s) (filter B S)"
proof -
  have "rel_option (kv_rel V) (map_of (filter A s) k) (map_of (filter B S) (f k))" for k
  proof -
    have "rel_option (kv_rel V) (map_of s k) (map_of S (f k))" using assms(1) by (simp add: snap_rel_def)
    then show ?thesis
      using assms(1) assms(2) [of "(k, v)" "(f k, w)" for v w]
      by (cases "map_of s k"; cases "map_of S (f k)") (auto simp: map_of_filter_sorted snap_rel_def pair_rel_def)
  qed
  with assms(1) show ?thesis by (simp add: snap_rel_def snap_sorted_filter)
qed

lemma range_list:
  assumes "snap_rel f V s S" "range_rel f key end END"
  shows "list_all2 (pair_rel f V) (filter (\<lambda>p. in_range key end (fst p)) s) (filter (\<lambda>P. in_range (f key) END (fst P)) S)"
proof -
  have "snap_rel f V (filter (\<lambda>p. in_range key end (fst p)) s) (filter (\<lambda>P. in_range (f key) END (fst P)) S)"
    using assms by (intro snap_filter_rel) (auto simp: range_rel_def pair_rel_def)
  moreover have "filter (\<lambda>P. fst P \<in> range f) (filter (\<lambda>P. in_range (f key) END (fst P)) S) = filter (\<lambda>P. in_range (f key) END (fst P)) S"
    using assms(2) by (auto simp: range_rel_def intro!: filter_cong)
  ultimately show ?thesis using snap_list by metis
qed

section \<open>One operation\<close>

lemma rel_lookup: "snap_rel f V s S \<Longrightarrow> rel_option (kv_rel V) (map_of s k) (map_of S (f k))"
  by (simp add: snap_rel_def)

lemma tx_put_rel:
  assumes "tx_rel f V tx TX" "V v w"
  shows "tx_rel f V (tx_put rv k v l tx) (tx_put rv (f k) w l TX)"
proof -
  obtain s evs S EVS where tx: "tx = (s, evs)" "TX = (S, EVS)" by fastforce
  with assms have s: "snap_rel f V s S" and e: "list_all2 (ev_rel f V) evs EVS" by (simp_all add: tx_rel_def)
  from rel_lookup [OF s, of k] show ?thesis
    by (cases "map_of s k"; cases "map_of S (f k)")
       (auto simp: tx tx_put_def tx_rel_def Let_def kv_rel_def assms(2) intro!: snap_put_rel s list_all2_appendI e)
qed

lemma tx_delete_rel: "tx_rel f V tx TX \<Longrightarrow> tx_rel f V (tx_delete rv k tx) (tx_delete rv (f k) TX)"
  by (cases tx; cases TX) (auto simp: tx_rel_def tx_delete_def snap_del_rel rel_lookup intro!: list_all2_appendI)

lemma tx_deletes_rel:
  "list_all2 (pair_rel f V) ps PS \<Longrightarrow> tx_rel f V tx TX \<Longrightarrow>
    tx_rel f V (fold (\<lambda>p. tx_delete rv (fst p)) ps tx) (fold (\<lambda>p. tx_delete rv (fst p)) PS TX)"
  by (induction arbitrary: tx TX rule: list_all2_induct) (simp_all add: pair_rel_def tx_delete_rel)

lemma snapshots:
  assumes "store_rel f V d D"
  shows "snap_rel f V (snapshot_at d r) (snapshot_at D r)" "revision D = revision d"
proof -
  from assms have h: "list_all2 (snap_rel f V) (hist d) (hist D)" by (simp add: store_rel_def)
  then have l: "length (hist D) = length (hist d)" by (simp add: list_all2_lengthD)
  then show "revision D = revision d" by (simp add: revision_def)
  have "snap_rel f V [] []" by (simp add: snap_rel_def snap_sorted_def)
  then have "snap_rel f V (current d) (current D)"
    using h by (cases "hist d"; cases "hist D") (auto simp: current_def)
  with h l show "snap_rel f V (snapshot_at d r) (snapshot_at D r)"
    by (auto simp: snapshot_at_def revision_def list_all2_conv_all_nth)
qed

lemma current_rel: "store_rel f V d D \<Longrightarrow> snap_rel f V (current d) (current D)"
  using snapshots(1) [of V d D 0] by (simp add: snapshot_at_def)

lemma lookup_rel: "store_rel f V d D \<Longrightarrow> rel_option (kv_rel V) (lookup d k) (lookup D (f k))"
  by (simp add: lookup_def rel_lookup current_rel)

lemma lookup_None: "store_rel f V d D \<Longrightarrow> lookup D (f k) = None \<longleftrightarrow> lookup d k = None"
  using lookup_rel [of V d D k] by (auto simp: option.rel_sel)

lemma tx_revision_rel: "store_rel f V d D \<Longrightarrow> tx_rel f V tx TX \<Longrightarrow> tx_revision D TX = tx_revision d tx"
  using snapshots(2) by (auto simp: tx_revision_def tx_rel_def)

lemma applyUnion_rel:
  assumes st: "store_rel f V d D" and tx: "tx_rel f V tx TX" and req: "op_rel f V req REQ"
  shows "tx_rel f V (fst (applyUnion d tx req)) (fst (applyUnion D TX REQ))"
    and "resp_rel f V (snd (applyUnion d tx req)) (snd (applyUnion D TX REQ))"
proof -
  note rv = snapshots(2) [OF st] and sn = tx [unfolded tx_rel_def, THEN conjunct1]
  have "tx_rel f V (fst (applyUnion d tx req)) (fst (applyUnion D TX REQ)) \<and>
      resp_rel f V (snd (applyUnion d tx req)) (snd (applyUnion D TX REQ))"
  proof (cases req)
    case (OpGet key e r)
    with req obtain E where r: "REQ = OpGet (f key) E r" "range_rel f key e E" by (cases REQ) auto
    show ?thesis
      using tx range_list [OF sn r(2)] range_list [OF snapshots(1) [OF st] r(2), of r]
      by (simp add: OpGet r tx_range_def tx_revision_rel [OF st tx])
  next
    case (OpPut key v l ign prev)
    with req obtain w where r: "REQ = OpPut (f key) w l ign prev" "V v w" by (cases REQ) auto
    from rel_lookup [OF sn, of key] tx_put_rel [OF tx r(2)] show ?thesis
      by (cases "map_of (fst tx) key"; cases "map_of (fst TX) (f key)")
         (auto simp: OpPut r Let_def rv pair_rel_def kv_rel_def)
  next
    case (OpDelete key e prev)
    with req obtain E where r: "REQ = OpDelete (f key) E prev" "range_rel f key e E" by (cases REQ) auto
    note vs = range_list [OF sn r(2)]
    note del = tx_deletes_rel [OF vs tx, of "revision d + 1"]
    from vs del tx_revision_rel [OF st del] show ?thesis by (simp add: OpDelete r Let_def rv)
  qed
  then show "tx_rel f V (fst (applyUnion d tx req)) (fst (applyUnion D TX REQ))"
    "resp_rel f V (snd (applyUnion d tx req)) (snd (applyUnion D TX REQ))" by auto
qed

lemma applyUnions_rel:
  assumes st: "store_rel f V d D"
  shows "list_all2 (op_rel f V) reqs REQS \<Longrightarrow> tx_rel f V tx TX \<Longrightarrow>
    tx_rel f V (fst (applyUnions d tx reqs)) (fst (applyUnions D TX REQS)) \<and>
    list_all2 (resp_rel f V) (snd (applyUnions d tx reqs)) (snd (applyUnions D TX REQS))"
proof (induction arbitrary: tx TX rule: list_all2_induct)
  case (Cons req reqs REQ REQS)
  from Cons.IH [OF applyUnion_rel(1) [OF st Cons.prems Cons.hyps(1)]] applyUnion_rel(2) [OF st Cons.prems Cons.hyps(1)]
  show ?case by (auto split: prod.split)
qed simp

section \<open>Admission\<close>

lemma checkOp_rel: "op_rel f V req REQ \<Longrightarrow> checkRequestOp REQ = checkRequestOp req"
  using nonempty by (cases "(f, V, req, REQ)" rule: op_rel.cases) auto

lemma checkOps_rel: "list_all2 (op_rel f V) reqs REQS \<Longrightarrow> checkRequestOps REQS = checkRequestOps reqs"
  by (induction rule: list_all2_induct) (auto simp: checkOp_rel split: option.split)

lemma put_keys_rel: "list_all2 (op_rel f V) reqs REQS \<Longrightarrow> put_keys REQS = map f (put_keys reqs)"
proof (induction rule: list_all2_induct)
  case (Cons req reqs REQ REQS)
  then show ?case by (cases req; cases REQ) auto
qed simp

lemma overlaps_rel:
  assumes "op_rel f V req REQ"
  shows "delete_overlaps (map f keys) REQ = delete_overlaps keys req"
proof (cases req)
  case (OpDelete key e prev)
  with assms show ?thesis by (cases REQ; cases e) (auto simp: filter_map comp_def mono)
qed (use assms in \<open>cases REQ; auto\<close>)+

lemma dups_rel:
  assumes "list_all2 (op_rel f V) reqs REQS"
  shows "checkRequestDupKeys REQS = checkRequestDupKeys reqs"
proof -
  have "list_ex (delete_overlaps (map f keys)) REQS = list_ex (delete_overlaps keys) reqs" for keys
    using assms by (induction rule: list_all2_induct) (simp_all add: overlaps_rel)
  then show ?thesis
    by (simp add: checkRequestDupKeys_def put_keys_rel [OF assms] distinct_map Let_def inj_on_def)
qed

lemma checkTxn_rel:
  assumes "list_all (\<lambda>c. cmp_key c \<noteq> []) cmps" "list_all2 (op_rel f V) succ SUCC" "list_all2 (op_rel f V) fail FAIL"
  shows "checkTxnRequest (map (cmp_map f) cmps) SUCC FAIL = checkTxnRequest cmps succ fail"
proof -
  have "cmp_key (cmp_map f c) = f (cmp_key c)" for c by (cases c) simp_all
  then have "list_ex (\<lambda>c. cmp_key c = []) (map (cmp_map f) cmps) = list_ex (\<lambda>c. cmp_key c = []) cmps"
    using assms(1) nonempty by (auto simp: list_ex_iff list_all_iff)
  then show ?thesis
    by (simp only: checkTxnRequest_def checkOps_rel [OF assms(2)] checkOps_rel [OF assms(3)] dups_rel [OF assms(2)]
        dups_rel [OF assms(3)] list_all2_lengthD [OF assms(2), symmetric] list_all2_lengthD [OF assms(3), symmetric] length_map)
qed

lemma checkPut_rel:
  assumes st: "store_rel f V d D"
  shows "list_all2 (op_rel f V) reqs REQS \<Longrightarrow> checkRequestPut D REQS = checkRequestPut d reqs"
proof (induction rule: list_all2_induct)
  case (Cons req reqs REQ REQS)
  with st lookup_None [OF st] show ?case by (cases req; cases REQ) (auto simp: store_rel_def)
qed simp

lemma checkRange_rel:
  assumes st: "store_rel f V d D"
  shows "list_all2 (op_rel f V) reqs REQS \<Longrightarrow> checkRequestRange D REQS = checkRequestRange d reqs"
proof (induction rule: list_all2_induct)
  case (Cons req reqs REQ REQS)
  with snapshots(2) [OF st] show ?case by (cases req; cases REQ) auto
qed simp

section \<open>Whole requests\<close>

lemma applyCompare_rel: "store_rel f V d D \<Longrightarrow> applyCompare D (cmp_map f c) = applyCompare d c"
  using lookup_rel [of V d D "cmp_key c"]
  by (cases c) (auto simp: kv_rel_def split: option.splits)

lemma tx_start_rel: "store_rel f V d D \<Longrightarrow> tx_rel f V (current d, []) (current D, [])"
  by (simp add: tx_rel_def current_rel)

lemma ev_rel_key: "ev_rel f V ev EV \<Longrightarrow> ev_key EV = f (ev_key ev)"
  by (cases ev; cases EV) auto

lemma evs_in_range: "list_all2 (ev_rel f V) evs EVS \<Longrightarrow> filter (\<lambda>ev. ev_key ev \<in> range f) EVS = EVS"
  by (induction rule: list_all2_induct) (auto simp: ev_rel_key)

lemma tx_end_rel: "store_rel f V d D \<Longrightarrow> tx_rel f V tx TX \<Longrightarrow> store_rel f V (tx_end d tx) (tx_end D TX)"
  by (auto simp: tx_end_def store_rel_def tx_rel_def evs_in_range intro!: list_all2_appendI)

lemma Txn_rel:
  assumes st: "store_rel f V d D" and cs: "list_all (\<lambda>c. cmp_key c \<noteq> []) cmps"
    and su: "list_all2 (op_rel f V) succ SUCC" and fa: "list_all2 (op_rel f V) fail FAIL"
  shows "case Txn d cmps succ fail of Inl e \<Rightarrow> Txn D (map (cmp_map f) cmps) SUCC FAIL = Inl e
    | Inr (r, d') \<Rightarrow> \<exists>R D'. Txn D (map (cmp_map f) cmps) SUCC FAIL = Inr (R, D') \<and> txn_rel f V r R \<and> store_rel f V d' D'"
proof -
  have "list_all (applyCompare D) (map (cmp_map f) cmps) = list_all (applyCompare d) cmps"
    by (simp add: list_all_iff applyCompare_rel [OF st])
  then obtain reqs REQS ok where c: "compareToOps d cmps succ fail = (reqs, ok)"
      "compareToOps D (map (cmp_map f) cmps) SUCC FAIL = (REQS, ok)" and fit: "list_all2 (op_rel f V) reqs REQS"
    using su fa by (auto simp: compareToOps_def)
  obtain tx rs TX RS where u: "applyUnions d (current d, []) reqs = (tx, rs)" "applyUnions D (current D, []) REQS = (TX, RS)"
    by fastforce
  from applyUnions_rel [OF st fit tx_start_rel [OF st]] have t: "tx_rel f V tx TX" "list_all2 (resp_rel f V) rs RS"
    by (simp_all add: u)
  note checkTxn_rel [OF cs su fa] checkPut_rel [OF st fit] checkRange_rel [OF st fit]
  then show ?thesis
    using t tx_end_rel [OF st t(1)] tx_revision_rel [OF st t(1)]
    by (auto simp: Txn_def c u txn_rel_def split: option.split)
qed

lemma DoOp_rel:
  assumes st: "store_rel f V d D" and req: "op_rel f V req REQ"
  shows "case DoOp d req of Inl e \<Rightarrow> DoOp D REQ = Inl e
    | Inr (r, d') \<Rightarrow> \<exists>R D'. DoOp D REQ = Inr (R, D') \<and> resp_rel f V r R \<and> store_rel f V d' D'"
proof -
  have one: "list_all2 (op_rel f V) [req] [REQ]" using req by simp
  obtain tx r TX R where u: "applyUnion d (current d, []) req = (tx, r)" "applyUnion D (current D, []) REQ = (TX, R)"
    by fastforce
  from applyUnion_rel [OF st tx_start_rel [OF st] req] have t: "tx_rel f V tx TX" "resp_rel f V r R" by (simp_all add: u)
  show ?thesis
    using t tx_end_rel [OF st t(1)] checkOp_rel [OF req] checkPut_rel [OF st one] checkRange_rel [OF st one]
    by (auto simp: DoOp_def u split: option.split)
qed

text \<open>Leases are shared: a revocation also takes the keys outside the range, if they have the lease.\<close>

lemma LeaseRevoke_rel:
  assumes st: "store_rel f V d D" and own: "\<And>k kv. lookup D k = Some kv \<Longrightarrow> kv_Lease kv = i \<Longrightarrow> k \<in> range f"
  shows "case LeaseRevoke d i of Inl e \<Rightarrow> LeaseRevoke D i = Inl e
    | Inr d' \<Rightarrow> \<exists>D'. LeaseRevoke D i = Inr D' \<and> store_rel f V d' D'"
proof -
  let ?v = "filter (\<lambda>p. kv_Lease (snd p) = i)"
  note c = current_rel [OF st]
  have "snap_rel f V (?v (current d)) (?v (current D))"
    by (rule snap_filter_rel [OF c]) (simp add: pair_rel_def kv_rel_def)
  moreover have "fst P \<in> range f" if "P \<in> set (current D)" "kv_Lease (snd P) = i" for P
    using that own [of "fst P" "snd P"] map_of_sorted [of "current D" "fst P" "snd P"] c by (auto simp: lookup_def snap_rel_def)
  then have "filter (\<lambda>P. fst P \<in> range f) (?v (current D)) = ?v (current D)" by (auto intro!: filter_cong)
  ultimately have "list_all2 (pair_rel f V) (?v (current d)) (?v (current D))" using snap_list by metis
  from tx_end_rel [OF st tx_deletes_rel [OF this tx_start_rel [OF st], of "revision d + 1"]] st snapshots(2) [OF st]
  show ?thesis by (auto simp: LeaseRevoke_def store_rel_def Let_def)
qed

lemma LeaseGrant_rel:
  assumes "store_rel f V d D"
  shows "case LeaseGrant d i of Inl e \<Rightarrow> LeaseGrant D i = Inl e | Inr d' \<Rightarrow> \<exists>D'. LeaseGrant D i = Inr D' \<and> store_rel f V d' D'"
  using assms by (auto simp: LeaseGrant_def store_rel_def)

end

section \<open>What stays untouched\<close>

text \<open>An operation is inside the range of a renaming if all keys that it writes are.\<close>

fun op_inside :: "(string \<Rightarrow> string) \<Rightarrow> 'v op \<Rightarrow> bool" where
  "op_inside f (OpGet key end r) \<longleftrightarrow> True"
| "op_inside f (OpPut key v l ign prev) \<longleftrightarrow> key \<in> range f"
| "op_inside f (OpDelete key end prev) \<longleftrightarrow> (\<forall>x. in_range key end x \<longrightarrow> x \<in> range f)"

text \<open>\<open>writes_inside\<close>: a store and a later one, between which only keys in the range were written.\<close>

definition writes_inside :: "(string \<Rightarrow> string) \<Rightarrow> 'v etcd \<Rightarrow> 'v etcd \<Rightarrow> bool" where
  "writes_inside f D D' \<longleftrightarrow> (\<forall>k. k \<notin> range f \<longrightarrow> lookup D' k = lookup D k) \<and>
     (\<exists>evs. elog D' = elog D @ evs \<and> (\<forall>ev \<in> set evs. ev_key ev \<in> range f))"

definition tx_inside :: "(string \<Rightarrow> string) \<Rightarrow> 'v snapshot \<Rightarrow> 'v txn_state \<Rightarrow> bool" where
  "tx_inside f s tx \<longleftrightarrow> (\<forall>k. k \<notin> range f \<longrightarrow> map_of (fst tx) k = map_of s k) \<and> (\<forall>ev \<in> set (snd tx). ev_key ev \<in> range f)"

lemma tx_put_inside: "tx_inside f s tx \<Longrightarrow> k \<in> range f \<Longrightarrow> tx_inside f s (tx_put rv k v l tx)"
  by (cases tx) (auto simp: tx_inside_def tx_put_def Let_def store_simps)

lemma tx_deletes_inside:
  "tx_inside f s tx \<Longrightarrow> \<forall>p \<in> set ps. fst p \<in> range f \<Longrightarrow> tx_inside f s (fold (\<lambda>p. tx_delete rv (fst p)) ps tx)"
proof (induction ps arbitrary: tx)
  case (Cons p ps)
  then have "tx_inside f s (tx_delete rv (fst p) tx)" by (cases tx) (auto simp: tx_inside_def tx_delete_def store_simps)
  with Cons show ?case by simp
qed simp

lemma applyUnion_inside: "tx_inside f s tx \<Longrightarrow> op_inside f req \<Longrightarrow> tx_inside f s (fst (applyUnion d tx req))"
  by (cases req) (auto simp: Let_def intro!: tx_put_inside tx_deletes_inside)

lemma applyUnions_inside: "tx_inside f s tx \<Longrightarrow> list_all (op_inside f) reqs \<Longrightarrow> tx_inside f s (fst (applyUnions d tx reqs))"
  by (induction reqs arbitrary: tx) (simp_all only: fst_applyUnions_Cons applyUnions.simps(1) fst_conv list.pred_inject applyUnion_inside)

lemma tx_end_inside: "tx_inside f (current d) tx \<Longrightarrow> writes_inside f d (tx_end d tx)"
  by (auto simp: writes_inside_def tx_end_def tx_inside_def lookup_def current_def)

lemma tx_inside_start: "tx_inside f s (s, [])"
  by (simp add: tx_inside_def)

lemma Txn_inside:
  assumes "Txn d cmps succ fail = Inr (r, d')" "list_all (op_inside f) succ" "list_all (op_inside f) fail"
  shows "writes_inside f d d'"
proof -
  obtain reqs ok where c: "compareToOps d cmps succ fail = (reqs, ok)" by fastforce
  with assms(2,3) have "list_all (op_inside f) reqs" by (auto simp: compareToOps_def split: if_splits)
  from tx_end_inside [OF applyUnions_inside [OF tx_inside_start this, of "current d" d]] assms(1) c show ?thesis
    by (auto simp: Txn_def split: option.splits prod.splits)
qed

lemma DoOp_inside:
  assumes "DoOp d req = Inr (r, d')" "op_inside f req"
  shows "writes_inside f d d'"
  using tx_end_inside [OF applyUnion_inside [OF tx_inside_start assms(2), of "current d" d]] assms(1)
  by (auto simp: DoOp_def split: option.splits prod.splits)

lemma op_rel_inside: "op_rel f V req REQ \<Longrightarrow> op_inside f REQ"
  by (cases "(f, V, req, REQ)" rule: op_rel.cases) (auto simp: range_rel_def)

lemma writes_inside_refl: "writes_inside f d d"
  by (simp add: writes_inside_def)

lemma writes_inside_trans: "writes_inside f d d' \<Longrightarrow> writes_inside f d' d'' \<Longrightarrow> writes_inside f d d''"
  unfolding writes_inside_def by (metis Un_iff append.assoc set_append)

lemma LeaseRevoke_inside:
  assumes "LeaseRevoke d i = Inr d'" "\<And>k kv. (k, kv) \<in> set (current d) \<Longrightarrow> kv_Lease kv = i \<Longrightarrow> k \<in> range f"
  shows "writes_inside f d d'"
proof -
  let ?tx = "fold (\<lambda>p. tx_delete (revision d + 1) (fst p)) (filter (\<lambda>p. kv_Lease (snd p) = i) (current d)) (current d, [])"
  have "tx_inside f (current d) ?tx"
    using assms(2) by (intro tx_deletes_inside tx_inside_start) auto
  from tx_end_inside [OF this] assms(1) show ?thesis
    by (auto simp: LeaseRevoke_def Let_def writes_inside_def lookup_def current_def split: if_splits)
qed

end
