(* ===== verification/Kv_Client.thy ===== *)
theory Kv_Client
  imports Store_Sim
begin

text \<open>
  The interface of an etcd client as its layers see it: \<^verbatim>\<open>clientv3.Client\<close> with its \<^verbatim>\<open>KV\<close> and
  its \<^verbatim>\<open>Watcher\<close>.  A layer takes a client and gives a client.  The locale \<open>client_view\<close> is what every layer
  promises: that it serves requests as etcd does on some store that its own state represents.
\<close>

section \<open>Clients\<close>

text \<open>\<^verbatim>\<open>clientv3.OpOption\<close> is a function on requests; the program uses two that set the range end.  They are
  applied in order to the key.\<close>

datatype opt = WithPrefix_opt | WithRange string

fun apply_opt :: "opt \<Rightarrow> string \<times> string option \<Rightarrow> string \<times> string option" where
  "apply_opt WithPrefix_opt (key, end) = WithPrefix key"
| "apply_opt (WithRange e) (key, end) = (key, Some e)"

definition op_range :: "string \<Rightarrow> opt list \<Rightarrow> string \<times> string option" where
  "op_range key opts = fold apply_opt opts (key, None)"

fun event_revision :: "'v event \<Rightarrow> nat" where
  "event_revision (PutEvent k kv prev) = kv_ModRevision kv"
| "event_revision (DeleteEvent k r prev) = r"

text \<open>A watch from a revision on delivers the events of its range.\<close>

definition watch_events :: "'v etcd \<Rightarrow> string \<Rightarrow> opt list \<Rightarrow> nat \<Rightarrow> 'v event list" where
  "watch_events d key opts r =
     (let (k, e) = op_range key opts in filter (\<lambda>ev. in_range k e (ev_key ev) \<and> r \<le> event_revision ev) (elog d))"

record ('s, 'v) Client =
  cl_Do :: "'s \<Rightarrow> 'v op \<Rightarrow> (error + 'v response \<times> 's) outcome"
  cl_Txn :: "'s \<Rightarrow> cmp list \<Rightarrow> 'v op list \<Rightarrow> 'v op list \<Rightarrow> (error + 'v TxnResponse \<times> 's) outcome"
  cl_Watch :: "'s \<Rightarrow> string \<Rightarrow> opt list \<Rightarrow> nat \<Rightarrow> 'v event list outcome"

text \<open>The client without layers.\<close>

definition etcd_cli :: "('v etcd, 'v) Client" where
  "etcd_cli = \<lparr> cl_Do = (\<lambda>d req. Ok (DoOp d req)), cl_Txn = (\<lambda>d cmps succ fail. Ok (Txn d cmps succ fail)),
     cl_Watch = (\<lambda>d key opts r. Ok (watch_events d key opts r)) \<rparr>"

text \<open>What a layer does with the answer of the layer below: pass an error on, translate a response.\<close>

definition on_response :: "('a \<Rightarrow> 'b outcome) \<Rightarrow> error + 'a \<times> 's \<Rightarrow> (error + 'b \<times> 's) outcome" where
  "on_response g x = (case x of Inl err \<Rightarrow> Ok (Inl err) | Inr (r, s) \<Rightarrow> bind_outcome (g r) (\<lambda>r'. Ok (Inr (r', s))))"

fun traverse :: "('a \<Rightarrow> 'b outcome) \<Rightarrow> 'a list \<Rightarrow> 'b list outcome" where
  "traverse f [] = Ok []"
| "traverse f (x # xs) = bind_outcome (f x) (\<lambda>y. bind_outcome (traverse f xs) (\<lambda>ys. Ok (y # ys)))"

lemma traverse_Ok: "(\<And>x. x \<in> set xs \<Longrightarrow> f x = Ok (g x)) \<Longrightarrow> traverse f xs = Ok (map g xs)"
  by (induction xs) auto

lemma traverse_rel: "list_all2 (\<lambda>x y. f y = Ok x) xs ys \<Longrightarrow> traverse f ys = Ok xs"
  by (induction rule: list_all2_induct) simp_all

lemma op_range_key: "key \<noteq> [] \<Longrightarrow> fst (op_range key opts) = key"
proof -
  have "fst (fold apply_opt opts (key, e)) = key" if "key \<noteq> []" for e
    using that by (induction opts arbitrary: e) (auto simp: WithPrefix_def elim: opt.exhaust, metis apply_opt.simps opt.exhaust WithPrefix_def)
  then show "key \<noteq> [] \<Longrightarrow> ?thesis" by (simp add: op_range_def)
qed

lemma op_range_None: "snd (op_range key opts) = None \<longleftrightarrow> opts = []"
proof (cases opts rule: rev_cases)
  case (snoc os o')
  obtain k e where "fold apply_opt os (key, None) = (k, e)" by fastforce
  then show ?thesis by (cases o') (simp_all add: snoc op_range_def WithPrefix_def)
qed (simp add: op_range_def)

section \<open>The contract of a layer\<close>

text \<open>The requests that all layers pass on: keys are not empty, a range end is not empty, and no delete goes to the
  end of the key space.\<close>

fun op_ok :: "'v op \<Rightarrow> bool" where
  "op_ok (OpGet key end r) \<longleftrightarrow> key \<noteq> [] \<and> end \<noteq> Some []"
| "op_ok (OpPut key v l ign prev) \<longleftrightarrow> key \<noteq> []"
| "op_ok (OpDelete key end prev) \<longleftrightarrow> key \<noteq> [] \<and> end \<noteq> Some [] \<and> end \<noteq> Some [CHR 0x00]"

locale client_view =
  fixes cl :: "('s, 'v) Client" and R :: "'v etcd \<Rightarrow> 's \<Rightarrow> bool"
  assumes view_Do: "R d s \<Longrightarrow> op_ok req \<Longrightarrow>
      case DoOp d req of Inl e \<Rightarrow> cl_Do cl s req = Ok (Inl e)
      | Inr (r, d') \<Rightarrow> \<exists>s'. cl_Do cl s req = Ok (Inr (r, s')) \<and> R d' s'"
    and view_Txn: "R d s \<Longrightarrow> list_all (\<lambda>c. cmp_key c \<noteq> []) cmps \<Longrightarrow> list_all op_ok succ \<Longrightarrow> list_all op_ok fail \<Longrightarrow>
      case Txn d cmps succ fail of Inl e \<Rightarrow> cl_Txn cl s cmps succ fail = Ok (Inl e)
      | Inr (r, d') \<Rightarrow> \<exists>s'. cl_Txn cl s cmps succ fail = Ok (Inr (r, s')) \<and> R d' s'"
    and view_Watch: "R d s \<Longrightarrow> key \<noteq> [] \<Longrightarrow> snd (op_range key opts) \<noteq> Some [] \<Longrightarrow>
      cl_Watch cl s key opts r = Ok (watch_events d key opts r)"

interpretation bare: client_view etcd_cli "(=)"
  by unfold_locales (auto simp: etcd_cli_def split: sum.split)

context key_renaming
begin

text \<open>A watch of a renamed range sees the events of the range.\<close>

lemma event_revision_rel: "ev_rel f V ev EV \<Longrightarrow> event_revision EV = event_revision ev"
  by (cases ev; cases EV) (auto simp: kv_rel_def)

lemma events_rel:
  assumes "store_rel f V d D" "range_rel f key end END"
  shows "list_all2 (ev_rel f V) (filter (\<lambda>ev. in_range key end (ev_key ev) \<and> r \<le> event_revision ev) (elog d))
    (filter (\<lambda>ev. in_range (f key) END (ev_key ev) \<and> r \<le> event_revision ev) (elog D))"
proof -
  let ?A = "\<lambda>ev. in_range key end (ev_key ev) \<and> r \<le> event_revision ev"
    and ?B = "\<lambda>ev. in_range (f key) END (ev_key ev) \<and> r \<le> event_revision ev"
  have inside: "filter ?B (elog D) = filter ?B (filter (\<lambda>ev. ev_key ev \<in> range f) (elog D))"
    using assms(2) by (auto simp: range_rel_def intro!: filter_cong)
  have "list_all2 (ev_rel f V) (filter ?A evs) (filter ?B EVS)" if "list_all2 (ev_rel f V) evs EVS" for evs EVS
    using that
  proof (induction rule: list_all2_induct)
    case (Cons ev evs EV EVS)
    with assms(2) ev_rel_key [OF Cons.hyps(1)] event_revision_rel [OF Cons.hyps(1)] show ?case by (auto simp: range_rel_def)
  qed simp
  with assms(1) show ?thesis unfolding inside store_rel_def by blast
qed

end

end
