(* ===== verification/Encoded_KV.thy ===== *)
theory Encoded_KV
  imports Key_Encode Kv_Client "HOL-Library.Multiset"
begin

text \<open>
  \<^verbatim>\<open>keyencode/kv.go\<close> and \<^verbatim>\<open>keyencode/watch.go\<close>: the etcd client whose keys are encoded on the way
  to the store and decoded on the way back.  Main result: on the keys of the network the wrapped
  client is indistinguishable from a client of a store with plaintext keys, except that the pairs
  of a range come in the order of the encoded keys.
\<close>

section \<open>Requests\<close>

text \<open>\<^verbatim>\<open>encOp\<close> knows two range ends: the end of the prefix of the key, and the end of everything.\<close>

definition enc_range :: "KeyEncoder \<Rightarrow> string \<Rightarrow> string option \<Rightarrow> (string \<times> string option) outcome" where
  "enc_range ke key end =
     bind_outcome (ke_Encode ke key) (\<lambda>encKey.
       case end of
         None \<Rightarrow> Ok (encKey, None)
       | Some send \<Rightarrow>
           if send = getPrefix key then Ok (encKey, Some (getPrefix encKey))
           else if send = [CHR 0x00] then Ok (encKey, Some send)
           else Panic (''don't know how to handle range xfm '' @ send))"

fun encOp :: "KeyEncoder \<Rightarrow> 'v op \<Rightarrow> 'v op outcome" where
  "encOp ke (OpGet key end r) = bind_outcome (enc_range ke key end) (\<lambda>(k, e). Ok (OpGet k e r))"
| "encOp ke (OpPut key v l ign prev) = bind_outcome (enc_range ke key None) (\<lambda>(k, _). Ok (OpPut k v l ign prev))"
| "encOp ke (OpDelete key end prev) = bind_outcome (enc_range ke key end) (\<lambda>(k, e). Ok (OpDelete k e prev))"

fun encCmp :: "KeyEncoder \<Rightarrow> cmp \<Rightarrow> cmp outcome" where
  "encCmp ke (CmpVersion k r n) = bind_outcome (ke_Encode ke k) (\<lambda>k'. Ok (CmpVersion k' r n))"
| "encCmp ke (CmpModRevision k r n) = bind_outcome (ke_Encode ke k) (\<lambda>k'. Ok (CmpModRevision k' r n))"
| "encCmp ke (CmpCreateRevision k r n) = bind_outcome (ke_Encode ke k) (\<lambda>k'. Ok (CmpCreateRevision k' r n))"

section \<open>Responses\<close>

text \<open>A key that does not decode is a panic.\<close>

definition must_decode :: "KeyEncoder \<Rightarrow> string \<Rightarrow> string outcome" where
  "must_decode ke key =
     bind_outcome (ke_Decode ke key) (\<lambda>r. case r of Inl err \<Rightarrow> Panic ''decode'' | Inr k \<Rightarrow> Ok k)"

definition dec_kv :: "KeyEncoder \<Rightarrow> string \<times> 'v KeyValue \<Rightarrow> (string \<times> 'v KeyValue) outcome" where
  "dec_kv ke p = bind_outcome (must_decode ke (fst p)) (\<lambda>k. Ok (k, snd p))"

definition decGetResponse :: "KeyEncoder \<Rightarrow> nat \<Rightarrow> (string \<times> 'v KeyValue) list \<Rightarrow> 'v response outcome" where
  "decGetResponse ke r kvs = bind_outcome (traverse (dec_kv ke) kvs) (\<lambda>kvs'. Ok (RangeResp r kvs'))"

definition decPutResponse :: "KeyEncoder \<Rightarrow> nat \<Rightarrow> (string \<times> 'v KeyValue) option \<Rightarrow> 'v response outcome" where
  "decPutResponse ke r prev =
     (case prev of None \<Rightarrow> Ok (PutResp r None)
      | Some kv \<Rightarrow> bind_outcome (dec_kv ke kv) (\<lambda>kv'. Ok (PutResp r (Some kv'))))"

definition decDeleteResponse :: "KeyEncoder \<Rightarrow> nat \<Rightarrow> (string \<times> 'v KeyValue) list \<Rightarrow> 'v response outcome" where
  "decDeleteResponse ke r kvs = bind_outcome (traverse (dec_kv ke) kvs) (\<lambda>kvs'. Ok (DeleteResp r kvs'))"

fun decResponse :: "KeyEncoder \<Rightarrow> 'v response \<Rightarrow> 'v response outcome" where
  "decResponse ke (RangeResp r kvs) = decGetResponse ke r kvs"
| "decResponse ke (PutResp r prev) = decPutResponse ke r prev"
| "decResponse ke (DeleteResp r kvs) = decDeleteResponse ke r kvs"

definition decTxnResponse :: "KeyEncoder \<Rightarrow> 'v TxnResponse \<Rightarrow> 'v TxnResponse outcome" where
  "decTxnResponse ke resp =
     bind_outcome (traverse (decResponse ke) (tr_Responses resp)) (\<lambda>rs. Ok (resp\<lparr>tr_Responses := rs\<rparr>))"

section \<open>The wrapped client\<close>

definition kv_Do :: "('s, 'v) Client \<Rightarrow> KeyEncoder \<Rightarrow> 's \<Rightarrow> 'v op \<Rightarrow> (error + 'v response \<times> 's) outcome" where
  "kv_Do cl ke s req = bind_outcome (encOp ke req) (\<lambda>req'. bind_outcome (cl_Do cl s req') (on_response (decResponse ke)))"

text \<open>\<^verbatim>\<open>r.Put()\<close>, \<^verbatim>\<open>r.Get()\<close> and \<^verbatim>\<open>r.Del()\<close>: nil when the response is of another kind.\<close>

fun resp_Put :: "'v response \<Rightarrow> (nat \<times> (string \<times> 'v KeyValue) option) option" where
  "resp_Put (PutResp r prev) = Some (r, prev)"
| "resp_Put _ = None"

fun resp_Get :: "'v response \<Rightarrow> (nat \<times> (string \<times> 'v KeyValue) list) option" where
  "resp_Get (RangeResp r kvs) = Some (r, kvs)"
| "resp_Get _ = None"

fun resp_Del :: "'v response \<Rightarrow> (nat \<times> (string \<times> 'v KeyValue) list) option" where
  "resp_Del (DeleteResp r kvs) = Some (r, kvs)"
| "resp_Del _ = None"

definition kv_Put :: "('s, 'v) Client \<Rightarrow> KeyEncoder \<Rightarrow> 's \<Rightarrow> string \<Rightarrow> 'v \<Rightarrow> int \<Rightarrow> bool \<Rightarrow> bool \<Rightarrow>
    (error + (nat \<times> (string \<times> 'v KeyValue) option) option \<times> 's) outcome" where
  "kv_Put cl ke s key v l ign prev =
     bind_outcome (kv_Do cl ke s (OpPut key v l ign prev)) (\<lambda>x. Ok (map_sum id (apfst resp_Put) x))"

definition kv_Get :: "('s, 'v) Client \<Rightarrow> KeyEncoder \<Rightarrow> 's \<Rightarrow> string \<Rightarrow> string option \<Rightarrow> nat \<Rightarrow>
    (error + (nat \<times> (string \<times> 'v KeyValue) list) option \<times> 's) outcome" where
  "kv_Get cl ke s key end r = bind_outcome (kv_Do cl ke s (OpGet key end r)) (\<lambda>x. Ok (map_sum id (apfst resp_Get) x))"

definition kv_Delete :: "('s, 'v) Client \<Rightarrow> KeyEncoder \<Rightarrow> 's \<Rightarrow> string \<Rightarrow> string option \<Rightarrow> bool \<Rightarrow>
    (error + (nat \<times> (string \<times> 'v KeyValue) list) option \<times> 's) outcome" where
  "kv_Delete cl ke s key end prev =
     bind_outcome (kv_Do cl ke s (OpDelete key end prev)) (\<lambda>x. Ok (map_sum id (apfst resp_Del) x))"

definition kv_Txn :: "('s, 'v) Client \<Rightarrow> KeyEncoder \<Rightarrow> 's \<Rightarrow> cmp list \<Rightarrow> 'v op list \<Rightarrow> 'v op list \<Rightarrow>
    (error + 'v TxnResponse \<times> 's) outcome" where
  "kv_Txn cl ke s cmps succ fail =
     bind_outcome (traverse (encCmp ke) cmps) (\<lambda>cmps'.
     bind_outcome (traverse (encOp ke) succ) (\<lambda>succ'.
     bind_outcome (traverse (encOp ke) fail) (\<lambda>fail'.
     bind_outcome (cl_Txn cl s cmps' succ' fail') (on_response (decTxnResponse ke)))))"

text \<open>A watch: the options are applied to the encoded key, and the keys of the pair and of the previous pair of an event are
  decoded when they are there.\<close>

definition dec_event_key :: "KeyEncoder \<Rightarrow> string \<Rightarrow> string outcome" where
  "dec_event_key ke key = (if key = [] then Ok key else must_decode ke key)"

fun dec_event :: "KeyEncoder \<Rightarrow> 'v event \<Rightarrow> 'v event outcome" where
  "dec_event ke (PutEvent k kv prev) =
     bind_outcome (dec_event_key ke k) (\<lambda>k'.
     bind_outcome (if prev = None then Ok k' else dec_event_key ke k) (\<lambda>_. Ok (PutEvent k' kv prev)))"
| "dec_event ke (DeleteEvent k r prev) =
     bind_outcome (dec_event_key ke k) (\<lambda>k'.
     bind_outcome (if prev = None then Ok k' else dec_event_key ke k) (\<lambda>_. Ok (DeleteEvent k' r prev)))"

definition kv_Watch :: "('s, 'v) Client \<Rightarrow> KeyEncoder \<Rightarrow> 's \<Rightarrow> string \<Rightarrow> opt list \<Rightarrow> nat \<Rightarrow> 'v event list outcome" where
  "kv_Watch cl ke s key opts r =
     bind_outcome (ke_Encode ke key) (\<lambda>encKey. bind_outcome (cl_Watch cl s encKey opts r) (traverse (dec_event ke)))"

definition keyencode_cli :: "('s, 'v) Client \<Rightarrow> KeyEncoder \<Rightarrow> ('s, 'v) Client" where
  "keyencode_cli cl ke = \<lparr> cl_Do = kv_Do cl ke, cl_Txn = kv_Txn cl ke, cl_Watch = kv_Watch cl ke \<rparr>"

section \<open>Stores with encoded keys\<close>

definition enc :: "KeyEncoder \<Rightarrow> string \<Rightarrow> string" where
  "enc ke k = (case ke_Encode ke k of Ok e \<Rightarrow> e | _ \<Rightarrow> [])"

text \<open>\<open>snap_enc\<close>: the second snapshot is the first one with its keys encoded.\<close>

definition snap_enc :: "KeyEncoder \<Rightarrow> (string \<Rightarrow> bool) \<Rightarrow> (string \<times> 'a) list \<Rightarrow> (string \<times> 'a) list \<Rightarrow> bool" where
  "snap_enc ke valid s S \<longleftrightarrow> snap_sorted s \<and> snap_sorted S \<and>
     (\<forall>k. map_of s k \<noteq> None \<longrightarrow> valid k) \<and> (\<forall>k. valid k \<longrightarrow> map_of S (enc ke k) = map_of s k) \<and>
     (\<forall>e. map_of S e \<noteq> None \<longrightarrow> (\<exists>k. valid k \<and> e = enc ke k))"

fun rekey :: "(string \<Rightarrow> string) \<Rightarrow> 'v event \<Rightarrow> 'v event" where
  "rekey f (PutEvent k kv prev) = PutEvent (f k) kv prev"
| "rekey f (DeleteEvent k r prev) = DeleteEvent (f k) r prev"

text \<open>\<open>log_enc\<close>: every key has the same events in the same order; events of different keys in one
  revision may come in another order.\<close>

definition log_enc :: "KeyEncoder \<Rightarrow> (string \<Rightarrow> bool) \<Rightarrow> 'v event list \<Rightarrow> 'v event list \<Rightarrow> bool" where
  "log_enc ke valid evs EVS \<longleftrightarrow>
     (\<forall>ev \<in> set evs. valid (ev_key ev)) \<and> (\<forall>ev \<in> set EVS. \<exists>k. valid k \<and> ev_key ev = enc ke k) \<and>
     (\<forall>k. valid k \<longrightarrow> filter (\<lambda>ev. ev_key ev = enc ke k) EVS =
        map (rekey (enc ke)) (filter (\<lambda>ev. ev_key ev = k) evs))"

definition store_enc :: "KeyEncoder \<Rightarrow> (string \<Rightarrow> bool) \<Rightarrow> 'v etcd \<Rightarrow> 'v etcd \<Rightarrow> bool" where
  "store_enc ke valid d D \<longleftrightarrow> list_all2 (snap_enc ke valid) (hist d) (hist D) \<and>
     log_enc ke valid (elog d) (elog D) \<and> leases D = leases d"

text \<open>The states of the client below that represent the encoded form of a store.\<close>

definition enc_view :: "('v etcd \<Rightarrow> 's \<Rightarrow> bool) \<Rightarrow> KeyEncoder \<Rightarrow> (string \<Rightarrow> bool) \<Rightarrow> 'v etcd \<Rightarrow> 's \<Rightarrow> bool" where
  "enc_view R ke valid d s \<longleftrightarrow> (\<exists>D. store_enc ke valid d D \<and> R D s)"

text \<open>The two transactions while they run.\<close>

definition tx_enc :: "KeyEncoder \<Rightarrow> (string \<Rightarrow> bool) \<Rightarrow> 'v txn_state \<Rightarrow> 'v txn_state \<Rightarrow> bool" where
  "tx_enc ke valid tx TX \<longleftrightarrow> snap_enc ke valid (fst tx) (fst TX) \<and> log_enc ke valid (snd tx) (snd TX)"

text \<open>Responses that differ only in the order of the pairs of a range.\<close>

fun same_response :: "'v response \<Rightarrow> 'v response \<Rightarrow> bool" where
  "same_response (RangeResp r kvs) (RangeResp r' kvs') \<longleftrightarrow> r = r' \<and> mset kvs = mset kvs'"
| "same_response (PutResp r prev) (PutResp r' prev') \<longleftrightarrow> r = r' \<and> prev = prev'"
| "same_response (DeleteResp r kvs) (DeleteResp r' kvs') \<longleftrightarrow> r = r' \<and> mset kvs = mset kvs'"
| "same_response _ _ \<longleftrightarrow> False"

definition same_txn :: "'v TxnResponse \<Rightarrow> 'v TxnResponse \<Rightarrow> bool" where
  "same_txn r r' \<longleftrightarrow> tr_Revision r = tr_Revision r' \<and> tr_Succeeded r = tr_Succeeded r' \<and>
     list_all2 same_response (tr_Responses r) (tr_Responses r')"

text \<open>The requests that the network makes: single keys, and reads of all keys with a prefix.\<close>

fun op_fits :: "(string \<Rightarrow> bool) \<Rightarrow> (string \<Rightarrow> bool) \<Rightarrow> 'v op \<Rightarrow> bool" where
  "op_fits valid pfx (OpGet key None r) = valid key"
| "op_fits valid pfx (OpGet key (Some e) r) = (pfx key \<and> e = getPrefix key)"
| "op_fits valid pfx (OpPut key v l ign prev) = valid key"
| "op_fits valid pfx (OpDelete key end prev) = (valid key \<and> end = None)"

text \<open>The watches of the network: of a key, and of all keys with a prefix.\<close>

definition watch_fits :: "(string \<Rightarrow> bool) \<Rightarrow> (string \<Rightarrow> bool) \<Rightarrow> string \<Rightarrow> opt list \<Rightarrow> bool" where
  "watch_fits valid pfx key opts \<longleftrightarrow> (opts = [] \<and> valid key) \<or> (opts = [WithPrefix_opt] \<and> pfx key)"

fun enc_op :: "KeyEncoder \<Rightarrow> 'v op \<Rightarrow> 'v op" where
  "enc_op ke (OpGet key end r) = OpGet (enc ke key) (map_option (\<lambda>_. getPrefix (enc ke key)) end) r"
| "enc_op ke (OpPut key v l ign prev) = OpPut (enc ke key) v l ign prev"
| "enc_op ke (OpDelete key end prev) = OpDelete (enc ke key) end prev"

fun enc_cmp :: "KeyEncoder \<Rightarrow> cmp \<Rightarrow> cmp" where
  "enc_cmp ke (CmpVersion k r n) = CmpVersion (enc ke k) r n"
| "enc_cmp ke (CmpModRevision k r n) = CmpModRevision (enc ke k) r n"
| "enc_cmp ke (CmpCreateRevision k r n) = CmpCreateRevision (enc ke k) r n"

section \<open>The contract\<close>

text \<open>
  What the wrapper needs of its encoder: it is one on the keys that are stored, and it maps the prefixes
  that are read so that exactly the keys with the prefix get the encoded prefix.
\<close>

locale kv_encoder = key_encoder +
  fixes pfx :: "string \<Rightarrow> bool"
  assumes keys_nonempty: "valid k \<Longrightarrow> k \<noteq> [] \<and> enc ke k \<noteq> []"
    and pfx_nonempty: "pfx p \<Longrightarrow> p \<noteq> [] \<and> enc ke p \<noteq> []"
    and pfx_encodes: "pfx p \<Longrightarrow> ke_Encode ke p = Ok (enc ke p)"
    and pfx_range: "pfx p \<Longrightarrow> valid k \<Longrightarrow> prefix (enc ke p) (enc ke k) \<longleftrightarrow> prefix p k"
begin

lemma Encode [simp]: "valid k \<Longrightarrow> ke_Encode ke k = Ok (enc ke k)"
  using encodes [of k] by (auto simp: enc_def)

lemma Decode [simp]: "valid k \<Longrightarrow> ke_Decode ke (enc ke k) = Ok (Inr k)"
  by (rule decode_encode) simp_all

lemma must [simp]: "valid k \<Longrightarrow> must_decode ke (enc ke k) = Ok k"
  by (simp add: must_decode_def)

lemma enc_eq [simp]: "valid k \<Longrightarrow> valid k' \<Longrightarrow> enc ke k = enc ke k' \<longleftrightarrow> k = k'"
  using encode_inject [of k k'] by fastforce

lemma snap_put: "snap_enc ke valid s S \<Longrightarrow> valid k \<Longrightarrow> snap_enc ke valid (snap_put k v s) (snap_put (enc ke k) v S)"
  by (auto simp: snap_enc_def snap_sorted_put store_simps)

lemma snap_del: "snap_enc ke valid s S \<Longrightarrow> valid k \<Longrightarrow> snap_enc ke valid (snap_del k s) (snap_del (enc ke k) S)"
  by (auto simp: snap_enc_def snap_sorted_del store_simps)

text \<open>Two selections of pairs that choose corresponding keys decode to the same pairs.\<close>

lemma decode_selection:
  assumes sn: "snap_enc ke valid s S" and P: "\<And>k v. valid k \<Longrightarrow> Q (enc ke k, v) = P (k, v)"
  obtains L where "traverse (dec_kv ke) (filter Q S) = Ok L" "mset L = mset (filter P s)"
proof -
  define dec where "dec e = (case must_decode ke e of Ok k \<Rightarrow> k | _ \<Rightarrow> [])" for e
  have in_S: "\<exists>k. valid k \<and> e = enc ke k" if "(e, v) \<in> set S" for e v
    using that sn map_of_sorted [of S e v] by (auto simp: snap_enc_def)
  have dec: "dec (enc ke k) = k" if "valid k" for k using that by (simp add: dec_def)
  have "traverse (dec_kv ke) (filter Q S) = Ok (map (apfst dec) (filter Q S))"
  proof (rule traverse_Ok)
    fix p assume "p \<in> set (filter Q S)"
    then obtain k where "valid k" "fst p = enc ke k" using in_S [of "fst p" "snd p"] by auto
    then show "dec_kv ke p = Ok (apfst dec p)" by (cases p) (simp add: dec_kv_def dec)
  qed
  moreover have "mset (map (apfst dec) (filter Q S)) = mset (filter P s)"
  proof -
    have "distinct S" "distinct s" using sn snap_sorted_distinct distinct_map unfolding snap_enc_def by blast+
    moreover have "inj_on (apfst dec) (set (filter Q S))"
      by (rule inj_onI) (use in_S in \<open>auto simp: dec\<close>, metis in_S dec)
    moreover have "apfst dec ` set (filter Q S) = set (filter P s)"
    proof (intro set_eqI iffI)
      fix p assume "p \<in> apfst dec ` set (filter Q S)"
      then obtain e v where e: "(e, v) \<in> set S" "Q (e, v)" "p = (dec e, v)" by auto
      then obtain k where k: "valid k" "e = enc ke k" using in_S by blast
      then have "map_of s k = Some v" using e(1) sn map_of_sorted [of S e v] by (auto simp: snap_enc_def)
      with e k sn P [of k v] show "p \<in> set (filter P s)" by (simp add: dec snap_enc_def map_of_sorted)
    next
      fix p assume *: "p \<in> set (filter P s)"
      obtain k v where kv: "p = (k, v)" by fastforce
      with * have p: "p = (k, v)" "map_of s k = Some v" "P (k, v)"
        using sn map_of_sorted [of s k v] by (simp_all add: snap_enc_def)
      then have k: "valid k" "map_of S (enc ke k) = Some v" using sn by (auto simp: snap_enc_def)
      then have "(enc ke k, v) \<in> set (filter Q S)" using sn P [of k v] p by (simp add: snap_enc_def map_of_sorted)
      then have "apfst dec (enc ke k, v) \<in> apfst dec ` set (filter Q S)" by (rule imageI)
      then show "p \<in> apfst dec ` set (filter Q S)" by (simp add: p dec k)
    qed
    ultimately show ?thesis
      by (subst set_eq_iff_mset_eq_distinct [symmetric]) (auto simp: distinct_map)
  qed
  ultimately show thesis by (rule that)
qed

lemma log_empty: "log_enc ke valid evs EVS \<Longrightarrow> evs = [] \<longleftrightarrow> EVS = []"
  by (cases evs; cases EVS) (fastforce simp: log_enc_def filter_empty_conv)+

lemma log_append:
  "log_enc ke valid evs EVS \<Longrightarrow> log_enc ke valid evs' EVS' \<Longrightarrow> log_enc ke valid (evs @ evs') (EVS @ EVS')"
  by (auto simp: log_enc_def)

lemma log_event:
  assumes "valid (ev_key ev)"
  shows "log_enc ke valid [ev] [rekey (enc ke) ev]"
proof -
  have "ev_key (rekey (enc ke) ev) = enc ke (ev_key ev)" by (cases ev) simp_all
  with assms show ?thesis by (auto simp: log_enc_def)
qed

lemma tx_map_of: "tx_enc ke valid tx TX \<Longrightarrow> valid k \<Longrightarrow> map_of (fst TX) (enc ke k) = map_of (fst tx) k"
  by (simp add: tx_enc_def snap_enc_def)

lemma tx_put_enc:
  assumes "tx_enc ke valid tx TX" "valid k"
  shows "tx_enc ke valid (tx_put rv k v l tx) (tx_put rv (enc ke k) v l TX)"
proof -
  obtain s evs S EVS where tx: "tx = (s, evs)" "TX = (S, EVS)" by fastforce
  have m: "map_of S (enc ke k) = map_of s k" using tx_map_of [OF assms] tx by simp
  show ?thesis
    using assms log_append [OF _ log_event, of evs EVS "PutEvent k kv (map_of s k)" for kv]
    by (simp add: tx m tx_put_def Let_def tx_enc_def snap_put)
qed

lemma tx_delete_enc:
  assumes "tx_enc ke valid tx TX" "valid k"
  shows "tx_enc ke valid (tx_delete rv k tx) (tx_delete rv (enc ke k) TX)"
proof -
  obtain s evs S EVS where tx: "tx = (s, evs)" "TX = (S, EVS)" by fastforce
  have m: "map_of S (enc ke k) = map_of s k" using tx_map_of [OF assms] tx by simp
  show ?thesis
    using assms log_append [OF _ log_event, of evs EVS "DeleteEvent k rv (map_of s k)"]
    by (simp add: tx m tx_delete_def tx_enc_def snap_del)
qed

lemma snapshots: "store_enc ke valid d D \<Longrightarrow> snap_enc ke valid (snapshot_at d r) (snapshot_at D r) \<and> revision D = revision d"
proof -
  assume *: "store_enc ke valid d D"
  then have h: "list_all2 (snap_enc ke valid) (hist d) (hist D)" by (simp add: store_enc_def)
  then have l: "length (hist D) = length (hist d)" by (simp add: list_all2_lengthD)
  have "snap_enc ke valid [] []" by (simp add: snap_enc_def snap_sorted_def)
  then have c: "snap_enc ke valid (current d) (current D)"
    using h by (cases "hist d"; cases "hist D") (auto simp: current_def)
  with h l show ?thesis
    by (auto simp: snapshot_at_def revision_def list_all2_conv_all_nth)
qed

lemma current_enc: "store_enc ke valid d D \<Longrightarrow> snap_enc ke valid (current d) (current D)"
  using snapshots [of d D 0] by (simp add: snapshot_at_def)

lemma lookup_enc: "store_enc ke valid d D \<Longrightarrow> valid k \<Longrightarrow> lookup D (enc ke k) = lookup d k"
  using current_enc by (auto simp: lookup_def snap_enc_def)

lemma tx_revision_enc: "store_enc ke valid d D \<Longrightarrow> tx_enc ke valid tx TX \<Longrightarrow> tx_revision D TX = tx_revision d tx"
  using snapshots [of d D 0] log_empty by (auto simp: tx_revision_def tx_enc_def)

lemma tx_end_enc: "store_enc ke valid d D \<Longrightarrow> tx_enc ke valid tx TX \<Longrightarrow> store_enc ke valid (tx_end d tx) (tx_end D TX)"
  using log_empty [of "snd tx" "snd TX"] by (auto simp: tx_end_def store_enc_def tx_enc_def log_append)

lemma in_range_enc:
  assumes "pfx p" "valid k"
  shows "in_range (enc ke p) (Some (getPrefix (enc ke p))) (enc ke k) = in_range p (Some (getPrefix p)) k"
  using assms pfx_nonempty in_range_prefix pfx_range by simp

section \<open>One operation\<close>

lemma encOp_fits: "op_fits valid pfx req \<Longrightarrow> encOp ke req = Ok (enc_op ke req)"
  by (cases "(valid, pfx, req)" rule: op_fits.cases) (auto simp: enc_range_def pfx_encodes)

lemma encCmp_fits: "valid (cmp_key c) \<Longrightarrow> encCmp ke c = Ok (enc_cmp ke c)"
  by (cases c) simp_all

lemma encOps_fit: "list_all (op_fits valid pfx) reqs \<Longrightarrow> traverse (encOp ke) reqs = Ok (map (enc_op ke) reqs)"
  by (rule traverse_Ok) (simp add: encOp_fits list_all_iff)

lemma encCmps_fit: "list_all (valid \<circ> cmp_key) cs \<Longrightarrow> traverse (encCmp ke) cs = Ok (map (enc_cmp ke) cs)"
  by (rule traverse_Ok) (simp add: encCmp_fits list_all_iff)

lemma applyCompare_enc:
  "store_enc ke valid d D \<Longrightarrow> valid (cmp_key c) \<Longrightarrow> applyCompare D (enc_cmp ke c) = applyCompare d c"
  by (cases c) (simp_all add: lookup_enc)

lemma range_enc:
  assumes "store_enc ke valid d D" "tx_enc ke valid tx TX" "op_fits valid pfx (OpGet key end r)"
  shows "\<exists>r'. decResponse ke (snd (applyUnion D TX (enc_op ke (OpGet key end r)))) = Ok r' \<and>
    same_response r' (snd (applyUnion d tx (OpGet key end r)))"
proof -
  let ?s = "if r = 0 then fst tx else snapshot_at d r" and ?S = "if r = 0 then fst TX else snapshot_at D r"
  let ?e = "map_option (\<lambda>_. getPrefix (enc ke key)) end"
  have "snap_enc ke valid ?s ?S" using snapshots [OF assms(1)] assms(2) by (simp add: tx_enc_def)
  moreover have "in_range (enc ke key) ?e (enc ke k) = in_range key end k" if "valid k" for k
    using assms(3) that by (cases "end") (auto simp: in_range_enc in_range_def [of _ None])
  ultimately obtain L where "traverse (dec_kv ke) (filter (\<lambda>p. in_range (enc ke key) ?e (fst p)) ?S) = Ok L"
    "mset L = mset (filter (\<lambda>p. in_range key end (fst p)) ?s)"
    using decode_selection [of ?s ?S "\<lambda>p. in_range (enc ke key) ?e (fst p)" "\<lambda>p. in_range key end (fst p)"] by auto
  then show ?thesis using tx_revision_enc [OF assms(1,2)] by (simp add: decGetResponse_def tx_range_def)
qed

lemma put_enc:
  assumes "store_enc ke valid d D" "tx_enc ke valid tx TX" "valid key"
  shows "decResponse ke (snd (applyUnion D TX (OpPut (enc ke key) v l ign prev))) =
    Ok (snd (applyUnion d tx (OpPut key v l ign prev)))"
  using tx_map_of [OF assms(2,3)] snapshots [OF assms(1), of 0] assms(3)
  by (cases "map_of (fst tx) key") (auto simp: Let_def decPutResponse_def dec_kv_def)

lemma delete_enc:
  assumes "store_enc ke valid d D" "tx_enc ke valid tx TX" "valid key"
  shows "tx_enc ke valid (fst (applyUnion d tx (OpDelete key None prev))) (fst (applyUnion D TX (OpDelete (enc ke key) None prev)))"
    and "decResponse ke (snd (applyUnion D TX (OpDelete (enc ke key) None prev))) =
      Ok (snd (applyUnion d tx (OpDelete key None prev)))"
proof -
  have m: "map_of (fst TX) (enc ke key) = map_of (fst tx) key" by (rule tx_map_of [OF assms(2,3)])
  have o: "filter (\<lambda>p. in_range key None (fst p)) (fst tx) = (case map_of (fst tx) key of None \<Rightarrow> [] | Some v \<Rightarrow> [(key, v)])"
    "filter (\<lambda>p. in_range (enc ke key) None (fst p)) (fst TX) =
      (case map_of (fst tx) key of None \<Rightarrow> [] | Some v \<Rightarrow> [(enc ke key, v)])"
    using assms(2) one_key [of "fst tx" key] one_key [of "fst TX" "enc ke key"] by (auto simp: tx_enc_def snap_enc_def m)
  have rv: "revision D = revision d" using snapshots [OF assms(1)] by blast
  show 1: "tx_enc ke valid (fst (applyUnion d tx (OpDelete key None prev))) (fst (applyUnion D TX (OpDelete (enc ke key) None prev)))"
    using assms(2) tx_delete_enc [OF assms(2,3)] by (simp add: Let_def o rv split: option.split)
  show "decResponse ke (snd (applyUnion D TX (OpDelete (enc ke key) None prev))) =
      Ok (snd (applyUnion d tx (OpDelete key None prev)))"
    using tx_revision_enc [OF assms(1) 1] assms(3)
    by (cases "map_of (fst tx) key") (auto simp: Let_def o rv decDeleteResponse_def dec_kv_def)
qed

lemma same_response_refl [simp]: "same_response r r"
  by (cases r) simp_all

lemma applyUnion_enc:
  assumes "store_enc ke valid d D" "tx_enc ke valid tx TX" "op_fits valid pfx req"
  shows "tx_enc ke valid (fst (applyUnion d tx req)) (fst (applyUnion D TX (enc_op ke req))) \<and>
    (\<exists>r'. decResponse ke (snd (applyUnion D TX (enc_op ke req))) = Ok r' \<and> same_response r' (snd (applyUnion d tx req)))"
proof (cases req)
  case (OpGet key e r)
  with range_enc [OF assms(1,2), of key e r] assms show ?thesis by simp
next
  case (OpPut key v l ign prev)
  with assms have k: "valid key" by simp
  have "tx_enc ke valid (fst (applyUnion d tx req)) (fst (applyUnion D TX (enc_op ke req)))"
    using tx_put_enc [OF assms(2) k] tx_map_of [OF assms(2) k] snapshots [OF assms(1), of 0]
    by (simp add: OpPut Let_def)
  with put_enc [OF assms(1,2) k, of v l ign prev] show ?thesis by (simp add: OpPut)
next
  case (OpDelete key e prev)
  with assms have "valid key" "e = None" by auto
  with delete_enc [OF assms(1,2), of key prev] show ?thesis by (simp add: OpDelete)
qed

lemma applyUnions_enc:
  assumes "store_enc ke valid d D" "tx_enc ke valid tx TX" "list_all (op_fits valid pfx) reqs"
  shows "tx_enc ke valid (fst (applyUnions d tx reqs)) (fst (applyUnions D TX (map (enc_op ke) reqs))) \<and>
    (\<exists>rs. traverse (decResponse ke) (snd (applyUnions D TX (map (enc_op ke) reqs))) = Ok rs \<and>
      list_all2 same_response rs (snd (applyUnions d tx reqs)))"
  using assms(2,3)
proof (induction reqs arbitrary: tx TX)
  case (Cons req reqs)
  then have fit: "op_fits valid pfx req" "list_all (op_fits valid pfx) reqs" by simp_all
  from applyUnion_enc [OF assms(1) Cons.prems(1) fit(1)] obtain r' where
    one: "tx_enc ke valid (fst (applyUnion d tx req)) (fst (applyUnion D TX (enc_op ke req)))"
    "decResponse ke (snd (applyUnion D TX (enc_op ke req))) = Ok r'" "same_response r' (snd (applyUnion d tx req))" by blast
  from Cons.IH [OF one(1) fit(2)] one(2,3) show ?case
    by (auto split: prod.split simp del: applyUnion.simps)
qed simp

section \<open>Admission\<close>

lemma checkOps_enc:
  "list_all (op_fits valid pfx) reqs \<Longrightarrow> checkRequestOps (map (enc_op ke) reqs) = checkRequestOps reqs"
proof (induction reqs)
  case (Cons req reqs)
  then have "checkRequestOp (enc_op ke req) = checkRequestOp req"
    using keys_nonempty pfx_nonempty by (cases "(valid, pfx, req)" rule: op_fits.cases) auto
  with Cons show ?case by (simp split: option.split)
qed simp

lemma put_keys_enc: "put_keys (map (enc_op ke) reqs) = map (enc ke) (put_keys reqs)"
  by (induction reqs rule: put_keys.induct) simp_all

lemma put_keys_valid: "list_all (op_fits valid pfx) reqs \<Longrightarrow> set (put_keys reqs) \<subseteq> Collect valid"
  by (induction reqs rule: put_keys.induct) auto

lemma overlaps_enc:
  assumes "op_fits valid pfx req" "set keys \<subseteq> Collect valid"
  shows "delete_overlaps (map (enc ke) keys) (enc_op ke req) = delete_overlaps keys req"
  using assms by (cases "(valid, pfx, req)" rule: op_fits.cases) (auto simp: image_iff)

lemma dups_enc:
  assumes "list_all (op_fits valid pfx) reqs"
  shows "checkRequestDupKeys (map (enc_op ke) reqs) = checkRequestDupKeys reqs"
proof -
  have v: "set (put_keys reqs) \<subseteq> Collect valid" by (rule put_keys_valid [OF assms])
  then have "inj_on (enc ke) (set (put_keys reqs))" by (auto intro!: inj_onI dest: subsetD enc_eq [THEN iffD1, rotated 2])
  moreover have "list_ex (delete_overlaps (map (enc ke) (put_keys reqs))) (map (enc_op ke) reqs) =
      list_ex (delete_overlaps (put_keys reqs)) reqs"
    using assms overlaps_enc [OF _ v] by (auto simp: list_ex_iff list_all_iff)
  ultimately show ?thesis by (simp add: checkRequestDupKeys_def put_keys_enc distinct_map Let_def)
qed

lemma checkTxn_enc:
  assumes "list_all (valid \<circ> cmp_key) cmps" "list_all (op_fits valid pfx) succ" "list_all (op_fits valid pfx) fail"
  shows "checkTxnRequest (map (enc_cmp ke) cmps) (map (enc_op ke) succ) (map (enc_op ke) fail) = checkTxnRequest cmps succ fail"
proof -
  have "cmp_key (enc_cmp ke c) = enc ke (cmp_key c)" for c by (cases c) simp_all
  then have "list_ex (\<lambda>c. cmp_key c = []) (map (enc_cmp ke) cmps) = list_ex (\<lambda>c. cmp_key c = []) cmps"
    using assms(1) keys_nonempty by (auto simp: list_ex_iff list_all_iff)
  then show ?thesis 
    unfolding checkTxnRequest_def checkOps_enc [OF assms(2)] checkOps_enc [OF assms(3)] dups_enc [OF assms(2)]
      dups_enc [OF assms(3)] by simp
qed

lemma checkPut_enc:
  assumes "store_enc ke valid d D"
  shows "list_all (op_fits valid pfx) reqs \<Longrightarrow> checkRequestPut D (map (enc_op ke) reqs) = checkRequestPut d reqs"
  using assms by (induction d reqs rule: checkRequestPut.induct) (auto simp: lookup_enc store_enc_def)

lemma checkRange_enc:
  assumes "store_enc ke valid d D"
  shows "checkRequestRange D (map (enc_op ke) reqs) = checkRequestRange d reqs"
  using snapshots [OF assms] by (induction d reqs rule: checkRequestRange.induct) auto

section \<open>Whole requests\<close>

lemma compareToOps_enc:
  assumes "store_enc ke valid d D" "list_all (valid \<circ> cmp_key) cmps"
  shows "compareToOps D (map (enc_cmp ke) cmps) (map (enc_op ke) succ) (map (enc_op ke) fail) =
    apfst (map (enc_op ke)) (compareToOps d cmps succ fail)"
proof -
  have "list_all (applyCompare D) (map (enc_cmp ke) cmps) = list_all (applyCompare d) cmps"
    using assms by (auto simp: list_all_iff applyCompare_enc)
  then show ?thesis by (simp add: compareToOps_def)
qed

lemma start_enc: "store_enc ke valid d D \<Longrightarrow> tx_enc ke valid (current d, []) (current D, [])"
  by (simp add: tx_enc_def current_enc log_enc_def)

lemma Txn_enc:
  assumes st: "store_enc ke valid d D" and cs: "list_all (valid \<circ> cmp_key) cmps"
    and su: "list_all (op_fits valid pfx) succ" and fa: "list_all (op_fits valid pfx) fail"
  shows "case Txn d cmps succ fail of Inl e \<Rightarrow> Txn D (map (enc_cmp ke) cmps) (map (enc_op ke) succ) (map (enc_op ke) fail) = Inl e
    | Inr (r, d') \<Rightarrow> \<exists>R' D' r'. Txn D (map (enc_cmp ke) cmps) (map (enc_op ke) succ) (map (enc_op ke) fail) = Inr (R', D') \<and>
        decTxnResponse ke R' = Ok r' \<and> same_txn r' r \<and> store_enc ke valid d' D'"
proof -
  obtain reqs ok where c: "compareToOps d cmps succ fail = (reqs, ok)" by fastforce
  then have fit: "list_all (op_fits valid pfx) reqs" using su fa by (auto simp: compareToOps_def split: if_splits)
  have C: "compareToOps D (map (enc_cmp ke) cmps) (map (enc_op ke) succ) (map (enc_op ke) fail) = (map (enc_op ke) reqs, ok)"
    using compareToOps_enc [OF st cs, of succ fail] c by simp
  obtain tx rs where u: "applyUnions d (current d, []) reqs = (tx, rs)" by fastforce
  obtain TX RS where U: "applyUnions D (current D, []) (map (enc_op ke) reqs) = (TX, RS)" by fastforce
  from applyUnions_enc [OF st start_enc [OF st] fit] obtain rs' where
    t: "tx_enc ke valid tx TX" "traverse (decResponse ke) RS = Ok rs'" "list_all2 same_response rs' rs"
    by (auto simp: u U)
  have T: "Txn D (map (enc_cmp ke) cmps) (map (enc_op ke) succ) (map (enc_op ke) fail) =
      (case checkTxnRequest cmps succ fail of Some e \<Rightarrow> Inl e | None \<Rightarrow>
       case checkRequestPut d reqs of Some e \<Rightarrow> Inl e | None \<Rightarrow>
       case checkRequestRange d reqs of Some e \<Rightarrow> Inl e | None \<Rightarrow>
       Inr (\<lparr> tr_Revision = tx_revision d tx, tr_Succeeded = ok, tr_Responses = RS \<rparr>, tx_end D TX))"
    unfolding Txn_def checkTxn_enc [OF cs su fa] C prod.case Let_def checkPut_enc [OF st fit] checkRange_enc [OF st] U
      tx_revision_enc [OF st t(1)] ..
  have D': "store_enc ke valid (tx_end d tx) (tx_end D TX)" by (rule tx_end_enc [OF st t(1)])
  show ?thesis
    unfolding T
    unfolding Txn_def c u prod.case Let_def
    using t D' by (simp add: decTxnResponse_def same_txn_def split: option.split)
qed

lemma DoOp_enc:
  assumes st: "store_enc ke valid d D" and fit: "op_fits valid pfx req"
  shows "case DoOp d req of Inl e \<Rightarrow> DoOp D (enc_op ke req) = Inl e
    | Inr (r, d') \<Rightarrow> \<exists>R' D' r'. DoOp D (enc_op ke req) = Inr (R', D') \<and> decResponse ke R' = Ok r' \<and> same_response r' r \<and>
        store_enc ke valid d' D'"
proof -
  obtain tx r where u: "applyUnion d (current d, []) req = (tx, r)" by fastforce
  obtain TX R where U: "applyUnion D (current D, []) (enc_op ke req) = (TX, R)" by fastforce
  from applyUnion_enc [OF st start_enc [OF st] fit] obtain r' where
    t: "tx_enc ke valid tx TX" "decResponse ke R = Ok r'" "same_response r' r" by (auto simp: u U)
  have one: "list_all (op_fits valid pfx) [req]" using fit by simp
  have c: "checkRequestOp (enc_op ke req) = checkRequestOp req"
    using checkOps_enc [OF one] by (simp split: option.splits)
  have T: "DoOp D (enc_op ke req) = (case checkRequestOp req of Some e \<Rightarrow> Inl e | None \<Rightarrow>
       case checkRequestPut d [req] of Some e \<Rightarrow> Inl e | None \<Rightarrow>
       case checkRequestRange d [req] of Some e \<Rightarrow> Inl e | None \<Rightarrow> Inr (R, tx_end D TX))"
    using checkPut_enc [OF st one] checkRange_enc [OF st, of "[req]"] by (simp add: DoOp_def c U split: option.split)
  have D': "store_enc ke valid (tx_end d tx) (tx_end D TX)" by (rule tx_end_enc [OF st t(1)])
  show ?thesis
    unfolding T
    unfolding DoOp_def u prod.case Let_def
    using t D' by (simp split: option.split)
qed

lemma event_revision_rekey: "event_revision (rekey f ev) = event_revision ev"
  by (cases ev) simp_all

lemma dec_event_enc: "valid (ev_key ev) \<Longrightarrow> dec_event ke (rekey (enc ke) ev) = Ok ev"
  using keys_nonempty [of "ev_key ev"] by (cases ev) (simp_all add: dec_event_key_def)

lemma range_opts: "watch_fits valid pfx key opts \<Longrightarrow>
    op_range key opts = (key, map_option (\<lambda>_. getPrefix key) (if opts = [] then None else Some ())) \<and>
    op_range (enc ke key) opts = (enc ke key, map_option (\<lambda>_. getPrefix (enc ke key)) (if opts = [] then None else Some ()))"
  using pfx_nonempty by (auto simp: watch_fits_def op_range_def WithPrefix_def)

text \<open>Every event of the encrypted log is an event of the plain one under its encoded key; \<open>plain_event\<close> undoes the encoding.\<close>

lemma event_origin:
  assumes "log_enc ke valid l L" "ev \<in> set L"
  shows "\<exists>ev'. ev = rekey (enc ke) ev' \<and> valid (ev_key ev')"
proof -
  from assms obtain k where k: "valid k" "ev_key ev = enc ke k" by (auto simp: log_enc_def)
  with assms(2) have "ev \<in> set (filter (\<lambda>ev. ev_key ev = enc ke k) L)" by simp
  moreover have "filter (\<lambda>ev. ev_key ev = enc ke k) L = map (rekey (enc ke)) (filter (\<lambda>ev. ev_key ev = k) l)"
    using assms(1) k(1) by (simp add: log_enc_def)
  ultimately show ?thesis using k(1) by auto
qed

definition plain_event :: "'v event \<Rightarrow> 'v event" where
  "plain_event = rekey (\<lambda>e. case must_decode ke e of Ok k \<Rightarrow> k | _ \<Rightarrow> [])"

lemma plain_event [simp]: "valid (ev_key ev) \<Longrightarrow> plain_event (rekey (enc ke) ev) = ev"
  by (cases ev) (simp_all add: plain_event_def)

lemma plain_event_key:
  assumes "log_enc ke valid l L" "ev \<in> set L"
  shows "valid (ev_key (plain_event ev))" "valid k \<Longrightarrow> ev_key (plain_event ev) = k \<longleftrightarrow> ev_key ev = enc ke k"
    "dec_event ke ev = Ok (plain_event ev)"
proof -
  from event_origin [OF assms] obtain ev' where ev': "ev = rekey (enc ke) ev'" "valid (ev_key ev')" by blast
  then have "ev_key ev = enc ke (ev_key ev')" by (cases ev') simp_all
  then show "valid (ev_key (plain_event ev))" "valid k \<Longrightarrow> ev_key (plain_event ev) = k \<longleftrightarrow> ev_key ev = enc ke k"
    "dec_event ke ev = Ok (plain_event ev)"
    using ev' by (simp_all add: dec_event_enc)
qed

text \<open>A selection of the encrypted log that looks at keys and revisions, decoded, is the selection of the plain log, key by key.\<close>

lemma plain_selection:
  assumes log: "log_enc ke valid l L" and sel: "\<And>k. valid k \<Longrightarrow> P (enc ke k) = p k"
  shows "filter (\<lambda>ev. ev_key ev = k) (map plain_event (filter (\<lambda>ev. P (ev_key ev) \<and> r \<le> event_revision ev) L)) =
    filter (\<lambda>ev. ev_key ev = k) (filter (\<lambda>ev. p (ev_key ev) \<and> r \<le> event_revision ev) l)"
proof (cases "valid k")
  case True
  have "filter (\<lambda>ev. ev_key (plain_event ev) = k) (filter (\<lambda>ev. P (ev_key ev) \<and> r \<le> event_revision ev) L) =
      filter (\<lambda>ev. p k \<and> r \<le> event_revision ev) (filter (\<lambda>ev. ev_key ev = enc ke k) L)"
    unfolding filter_filter using plain_event_key(2) [OF log _ True] by (intro filter_cong refl) (auto simp: sel [OF True, symmetric])
  also have "filter (\<lambda>ev. ev_key ev = enc ke k) L = map (rekey (enc ke)) (filter (\<lambda>ev. ev_key ev = k) l)"
    using log True by (simp add: log_enc_def)
  also have "filter (\<lambda>ev. p k \<and> r \<le> event_revision ev) (map (rekey (enc ke)) (filter (\<lambda>ev. ev_key ev = k) l)) =
      map (rekey (enc ke)) (filter (\<lambda>ev. ev_key ev = k) (filter (\<lambda>ev. p (ev_key ev) \<and> r \<le> event_revision ev) l))"
    by (auto simp: filter_map comp_def event_revision_rekey intro!: arg_cong [where f = "map (rekey (enc ke))"] filter_cong)
  finally show ?thesis using True by (simp add: filter_map comp_def cong: map_cong) (auto intro: map_idI)
next
  case False
  have "ev_key (plain_event ev) \<noteq> k" if "ev \<in> set L" for ev using plain_event_key(1) [OF log that] False by metis
  moreover have "ev_key ev \<noteq> k" if "ev \<in> set l" for ev using log that False by (auto simp: log_enc_def)
  ultimately show ?thesis by (simp add: filter_map comp_def)
qed

lemma events_enc:
  fixes d D :: "'v etcd"
  assumes st: "store_enc ke valid d D" and w: "watch_fits valid pfx key opts"
  shows "\<exists>L. traverse (dec_event ke) (watch_events D (enc ke key) opts r) = Ok L \<and>
    (\<forall>k. filter (\<lambda>ev. ev_key ev = k) L = filter (\<lambda>ev. ev_key ev = k) (watch_events d key opts r))"
proof -
  have log: "log_enc ke valid (elog d) (elog D)" using st by (simp add: store_enc_def)
  let ?e = "map_option (\<lambda>_. getPrefix key) (if opts = [] then None else Some ())"
    and ?E = "map_option (\<lambda>_. getPrefix (enc ke key)) (if opts = [] then None else Some ())"
  have W: "watch_events D (enc ke key) opts r = filter (\<lambda>ev. in_range (enc ke key) ?E (ev_key ev) \<and> r \<le> event_revision ev) (elog D)"
    and w': "watch_events d key opts r = filter (\<lambda>ev. in_range key ?e (ev_key ev) \<and> r \<le> event_revision ev) (elog d)"
    using range_opts [OF w] by (simp_all add: watch_events_def)
  have "in_range (enc ke key) ?E (enc ke k) = in_range key ?e k" if "valid k" for k
    using w that by (auto simp: watch_fits_def in_range_enc in_range_def [of _ None])
  from plain_selection [where P = "in_range (enc ke key) ?E" and p = "in_range key ?e", OF log this]
  have "\<forall>k. filter (\<lambda>ev. ev_key ev = k) (map plain_event (watch_events D (enc ke key) opts r)) =
      filter (\<lambda>ev. ev_key ev = k) (watch_events d key opts r)" unfolding W w' by blast
  moreover have "traverse (dec_event ke) (watch_events D (enc ke key) opts r) = Ok (map plain_event (watch_events D (enc ke key) opts r))"
    by (rule traverse_Ok) (simp add: W plain_event_key(3) [OF log])
  ultimately show ?thesis by blast
qed

text \<open>Leases are not encoded: their revocation goes straight to the store.\<close>

lemma snap_filter:
  assumes "snap_enc ke valid s S"
  shows "snap_enc ke valid (filter (\<lambda>p. P (snd p)) s) (filter (\<lambda>p. P (snd p)) S)"
  using assms by (auto simp: snap_enc_def snap_sorted_filter map_of_filter_sorted split: option.splits if_splits)

lemma log_deletes:
  assumes "snap_enc ke valid s S"
  shows "log_enc ke valid (map (\<lambda>p. DeleteEvent (fst p) rv (Some (snd p))) (filter (\<lambda>p. P (snd p)) s))
    (map (\<lambda>p. DeleteEvent (fst p) rv (Some (snd p))) (filter (\<lambda>p. P (snd p)) S))"
proof -
  let ?del = "\<lambda>p. DeleteEvent (fst p) rv (Some (snd p))"
  have sel: "filter (\<lambda>ev. ev_key ev = k) (map ?del (filter (\<lambda>p. P (snd p)) t)) =
      (case map_of t k of None \<Rightarrow> [] | Some v \<Rightarrow> if P v then [DeleteEvent k rv (Some v)] else [])"
    if "snap_sorted t" for k t
  proof -
    have "filter (\<lambda>ev. ev_key ev = k) (map ?del (filter (\<lambda>p. P (snd p)) t)) =
        map ?del (filter (\<lambda>p. P (snd p)) (filter (\<lambda>p. fst p = k) t))"
      by (simp add: filter_map comp_def conj_commute)
    then show ?thesis by (simp add: sorted_key [OF that] split: option.split)
  qed
  have "valid (fst p)" if "p \<in> set s" for p
    using that assms map_of_sorted [of s "fst p" "snd p"] by (auto simp: snap_enc_def)
  moreover have "\<exists>k. valid k \<and> fst p = enc ke k" if "p \<in> set S" for p
    using that assms map_of_sorted [of S "fst p" "snd p"] by (auto simp: snap_enc_def)
  ultimately show ?thesis
    using assms by (auto simp: log_enc_def sel snap_enc_def split: option.split)
qed

lemma LeaseRevoke_enc:
  assumes st: "store_enc ke valid d D"
  shows "case LeaseRevoke d i of Inl e \<Rightarrow> LeaseRevoke D i = Inl e
    | Inr d' \<Rightarrow> \<exists>D'. LeaseRevoke D i = Inr D' \<and> store_enc ke valid d' D'"
proof -
  let ?f = "\<lambda>s. fold (\<lambda>p. tx_delete (revision d + 1) (fst p)) (filter (\<lambda>p. kv_Lease (snd p) = i) s) (s, [])"
  have c: "snap_enc ke valid (current d) (current D)" and r: "revision D = revision d"
    using st snapshots current_enc by blast+
  then have "tx_enc ke valid (?f (current d)) (?f (current D))"
    using snap_filter [OF c, of "\<lambda>v. kv_Lease v \<noteq> i"] log_deletes [OF c, of _ "\<lambda>v. kv_Lease v = i"]
    by (simp add: snap_enc_def [of _ _ "current d"] deletes_filter tx_enc_def)
  from tx_end_enc [OF st this] st r show ?thesis
    by (auto simp: LeaseRevoke_def store_enc_def Let_def)
qed

end

section \<open>The wrapped client on any client below\<close>

text \<open>
  The encoder and a client below it that serves requests as a store does: the keys encode, and the responses come from the store
  that the client represents.
\<close>

locale encoded_client = kv_encoder ke valid pfx + client_view cl R
  for ke valid pfx and cl :: "('s, 'v) Client" and R
begin

lemma getPrefix_nonempty: "getPrefix k \<noteq> []"
proof -
  have "getPrefix_rev xs \<noteq> Some []" for xs by (induction xs) simp_all
  then show ?thesis by (auto simp: getPrefix_def split: option.split)
qed

lemma enc_op_ok: "op_fits valid pfx req \<Longrightarrow> op_ok (enc_op ke req)"
  using keys_nonempty pfx_nonempty getPrefix_nonempty by (cases "(valid, pfx, req)" rule: op_fits.cases) auto

lemma enc_ops_ok: "list_all (op_fits valid pfx) reqs \<Longrightarrow> list_all op_ok (map (enc_op ke) reqs)"
  by (simp add: list_all_iff enc_op_ok)

lemma enc_cmps_ok: "list_all (valid \<circ> cmp_key) cmps \<Longrightarrow> list_all (\<lambda>c. cmp_key c \<noteq> []) (map (enc_cmp ke) cmps)"
proof -
  have "cmp_key (enc_cmp ke c) = enc ke (cmp_key c)" for c by (cases c) simp_all
  then show "list_all (valid \<circ> cmp_key) cmps \<Longrightarrow> ?thesis" by (simp add: list_all_iff keys_nonempty)
qed

lemma client_Txn:
  assumes h: "enc_view R ke valid d s" and cs: "list_all (valid \<circ> cmp_key) cmps"
    and su: "list_all (op_fits valid pfx) succ" and fa: "list_all (op_fits valid pfx) fail"
  shows "case Txn d cmps succ fail of Inl e \<Rightarrow> kv_Txn cl ke s cmps succ fail = Ok (Inl e)
    | Inr (r, d') \<Rightarrow> \<exists>r' s'. kv_Txn cl ke s cmps succ fail = Ok (Inr (r', s')) \<and> same_txn r' r \<and> enc_view R ke valid d' s'"
proof -
  from h obtain D where D: "store_enc ke valid d D" "R D s" by (auto simp: enc_view_def)
  note low = view_Txn [OF D(2) enc_cmps_ok [OF cs] enc_ops_ok [OF su] enc_ops_ok [OF fa]] and sim = Txn_enc [OF D(1) cs su fa]
  have kv: "kv_Txn cl ke s cmps succ fail = bind_outcome (cl_Txn cl s (map (enc_cmp ke) cmps) (map (enc_op ke) succ) (map (enc_op ke) fail))
      (on_response (decTxnResponse ke))"
    by (simp add: kv_Txn_def encCmps_fit [OF cs] encOps_fit [OF su] encOps_fit [OF fa])
  show ?thesis
  proof (cases "Txn d cmps succ fail")
    case (Inl e)
    with low sim show ?thesis by (simp add: kv on_response_def)
  next
    case (Inr p)
    with low sim obtain r d' R' D' r' s' where "p = (r, d')" "R D' s'"
      "cl_Txn cl s (map (enc_cmp ke) cmps) (map (enc_op ke) succ) (map (enc_op ke) fail) = Ok (Inr (R', s'))"
      "decTxnResponse ke R' = Ok r'" "same_txn r' r" "store_enc ke valid d' D'" by (cases p) auto
    with Inr show ?thesis by (auto simp: kv on_response_def enc_view_def)
  qed
qed

lemma client_Do:
  assumes h: "enc_view R ke valid d s" and fit: "op_fits valid pfx req"
  shows "case DoOp d req of Inl e \<Rightarrow> kv_Do cl ke s req = Ok (Inl e)
    | Inr (r, d') \<Rightarrow> \<exists>r' s'. kv_Do cl ke s req = Ok (Inr (r', s')) \<and> same_response r' r \<and> enc_view R ke valid d' s'"
proof -
  from h obtain D where D: "store_enc ke valid d D" "R D s" by (auto simp: enc_view_def)
  note low = view_Do [OF D(2) enc_op_ok [OF fit]] and sim = DoOp_enc [OF D(1) fit]
  have kv: "kv_Do cl ke s req = bind_outcome (cl_Do cl s (enc_op ke req)) (on_response (decResponse ke))"
    by (simp add: kv_Do_def encOp_fits [OF fit])
  show ?thesis
  proof (cases "DoOp d req")
    case (Inl e)
    with low sim show ?thesis by (simp add: kv on_response_def)
  next
    case (Inr p)
    with low sim obtain r d' R' D' r' s' where "p = (r, d')" "R D' s'" "cl_Do cl s (enc_op ke req) = Ok (Inr (R', s'))"
      "decResponse ke R' = Ok r'" "same_response r' r" "store_enc ke valid d' D'" by (cases p) auto
    with Inr show ?thesis by (auto simp: kv on_response_def enc_view_def)
  qed
qed

lemma client_Watch:
  assumes h: "enc_view R ke valid d s" and w: "watch_fits valid pfx key opts"
  shows "\<exists>L. kv_Watch cl ke s key opts r = Ok L \<and>
    (\<forall>k. filter (\<lambda>ev. ev_key ev = k) L = filter (\<lambda>ev. ev_key ev = k) (watch_events d key opts r))"
proof -
  from h obtain D where D: "store_enc ke valid d D" "R D s" by (auto simp: enc_view_def)
  have e: "ke_Encode ke key = Ok (enc ke key)" and ne: "enc ke key \<noteq> []"
    using w pfx_encodes pfx_nonempty keys_nonempty by (auto simp: watch_fits_def)
  have "snd (op_range (enc ke key) opts) \<noteq> Some []" using range_opts [OF w] getPrefix_nonempty by simp
  from view_Watch [OF D(2) ne this, of r] events_enc [OF D(1) w, of r] show ?thesis by (simp add: kv_Watch_def e)
qed

end

section \<open>The encoder of the program\<close>

text \<open>The prefixes that the program reads: keys without data, and keys that end in a slash.\<close>

definition netpfx :: "(string \<Rightarrow> bool) \<Rightarrow> KeyEncoder \<Rightarrow> string \<Rightarrow> bool" where
  "netpfx valid ke p \<longleftrightarrow>
     (netkey valid ke p \<and> (\<exists>q. p = q @ ''/'')) \<or> (\<exists>t st. key_head t st \<and> p = mk_key t st [] [])"

context key_encoder
begin

lemma enc_keyEncoder: "keyEncoder_Encode ke k = Ok e \<Longrightarrow> enc (keyEncoder ke) k = e"
  by (simp add: enc_def keyEncoder_def)

lemma enc_netkey:
  assumes "netkey valid ke k"
  shows "keyEncoder_Encode ke k = Ok (enc (keyEncoder ke) k)"
    and "\<exists>t st d rest d'. key_head t st \<and> k = mk_key t st d rest \<and> enc (keyEncoder ke) k = mk_key t st d' rest"
proof -
  from assms obtain t st d rest sse where k: "key_head t st" "k = mk_key t st d rest"
    "keyEncoder_Encode ke k = Ok (mk_key t st (fmt_d (int (length sse)) @ ''/'' @ sse) rest)"
    by (rule netkey_encode)
  then show "keyEncoder_Encode ke k = Ok (enc (keyEncoder ke) k)" by (simp add: enc_keyEncoder)
  from k show "\<exists>t st d rest d'. key_head t st \<and> k = mk_key t st d rest \<and> enc (keyEncoder ke) k = mk_key t st d' rest"
    by (metis enc_keyEncoder)
qed

lemma enc_head: "key_head t st \<Longrightarrow> keyEncoder_Encode ke (mk_key t st [] []) = Ok (mk_key t st [] [])"
  by (rule keyEncoder_Encode_no_data) (simp_all add: rest_ok_def)

lemma kv_contract: "kv_encoder (keyEncoder ke) (netkey valid ke) (netpfx valid ke)"
proof (rule kv_encoder.intro [OF keyEncoder_contract], unfold_locales)
  fix k p
  have ne: "mk_key t st d rest \<noteq> []" for t st d rest by (simp add: mk_key_def)
  then show "k \<noteq> [] \<and> enc (keyEncoder ke) k \<noteq> []" if "netkey valid ke k" for k
    using enc_netkey(2) [OF that] ne by metis
  then show "p \<noteq> [] \<and> enc (keyEncoder ke) p \<noteq> []" if "netpfx valid ke p"
    using that ne enc_keyEncoder [OF enc_head] unfolding netpfx_def by metis
  show "ke_Encode (keyEncoder ke) p = Ok (enc (keyEncoder ke) p)" if "netpfx valid ke p"
    using that enc_netkey(1) enc_head enc_keyEncoder [OF enc_head] by (auto simp: netpfx_def keyEncoder_def)
  assume k: "netkey valid ke k" and p: "netpfx valid ke p"
  show "prefix (enc (keyEncoder ke) p) (enc (keyEncoder ke) k) \<longleftrightarrow> prefix p k"
  proof (cases "netkey valid ke p \<and> (\<exists>q. p = q @ ''/'')")
    case True
    then show ?thesis by (metis encoded_prefix enc_netkey(1) k)
  next
    case False
    with p obtain t st where t: "key_head t st" "p = mk_key t st [] []" by (auto simp: netpfx_def)
    from enc_netkey(2) [OF k] obtain t' st' d rest d' where k':
      "key_head t' st'" "k = mk_key t' st' d rest" "enc (keyEncoder ke) k = mk_key t' st' d' rest" by blast
    show ?thesis
      unfolding k'(3) t(2) enc_keyEncoder [OF enc_head [OF t(1)]]
      unfolding k'(2) by (simp add: prefix_mk_key [OF t(1) k'(1)])
  qed
qed

end

interpretation plain_kv: kv_encoder "keyEncoder nopKeyEncoder" "netkey (\<lambda>s. length s < 2 ^ 63) nopKeyEncoder"
    "netpfx (\<lambda>s. length s < 2 ^ 63) nopKeyEncoder"
  by (rule nop_encoder.kv_contract)

interpretation plain_client: encoded_client "keyEncoder nopKeyEncoder" "netkey (\<lambda>s. length s < 2 ^ 63) nopKeyEncoder"
    "netpfx (\<lambda>s. length s < 2 ^ 63) nopKeyEncoder" etcd_cli "(=)" ..

text \<open>The keys and prefixes of the network under the HMAC encoder, and that it fits the wrapper for every hash
  and cipher of the right sizes.\<close>

definition hmac_fits :: "hmacKeyEncoder \<Rightarrow> string \<Rightarrow> bool" where
  "hmac_fits hke s \<longleftrightarrow> hke_Size hke + length s + hke_BlockSize hke < 2 ^ 63"

definition secure_encoder :: "hmacKeyEncoder \<Rightarrow> KeyEncoder" where
  "secure_encoder hke = keyEncoder (hmacEncoder hke)"

definition secure_key :: "hmacKeyEncoder \<Rightarrow> string \<Rightarrow> bool" where
  "secure_key hke = netkey (hmac_fits hke) (hmacEncoder hke)"

definition secure_pfx :: "hmacKeyEncoder \<Rightarrow> string \<Rightarrow> bool" where
  "secure_pfx hke = netpfx (hmac_fits hke) (hmacEncoder hke)"

lemma secure_contract:
  assumes "hke_ok hke"
  shows "kv_encoder (secure_encoder hke) (secure_key hke) (secure_pfx hke)"
proof -
  have "key_encoder (hmacEncoder hke) (hmac_fits hke)"
    using hmac_contract [OF assms] by (simp add: hmac_fits_def [abs_def])
  from key_encoder.kv_contract [OF this] show ?thesis
    by (simp add: secure_encoder_def secure_key_def secure_pfx_def)
qed

end
