(* ===== verification/Namespace_KV.thy ===== *)
theory Namespace_KV
  imports Kv_Client
begin

text \<open>
  The vendored \<^verbatim>\<open>clientv3/namespace\<close>: a client whose keys all get a prefix on the way to the store and lose it on the
  way back.  It serves requests as a store of its own does that holds the keys with the prefix, and it leaves all
  other keys of the cluster alone.
\<close>

section \<open>Requests\<close>

text \<open>The loop of \<^verbatim>\<open>prefixInterval\<close> from the last byte on: a byte that overflows becomes 0 and carries.\<close>

fun bump_rev :: "string \<Rightarrow> string option" where
  "bump_rev [] = None"
| "bump_rev (c # cs) =
     (let c' = char_of (of_char c + 1 :: nat) in
      if c' \<noteq> CHR 0x00 then Some (c' # cs) else map_option ((#) c') (bump_rev cs))"

definition prefixInterval :: "string \<Rightarrow> string \<Rightarrow> string option \<Rightarrow> string \<times> string option" where
  "prefixInterval pfx key end =
     (pfx @ key,
      case end of
        None \<Rightarrow> None
      | Some e \<Rightarrow>
          if e = [CHR 0x00] then Some (case bump_rev (rev pfx) of None \<Rightarrow> [CHR 0x00] | Some r \<Rightarrow> rev r)
          else if e = [] then None
          else Some (pfx @ e))"

fun prefixOp :: "string \<Rightarrow> 'v op \<Rightarrow> 'v op" where
  "prefixOp pfx (OpGet key end r) = (let (k, e) = prefixInterval pfx key end in OpGet k e r)"
| "prefixOp pfx (OpPut key v l ign prev) = OpPut (fst (prefixInterval pfx key None)) v l ign prev"
| "prefixOp pfx (OpDelete key end prev) = (let (k, e) = prefixInterval pfx key end in OpDelete k e prev)"

section \<open>Responses\<close>

text \<open>\<^verbatim>\<open>Key[len(pfx):]\<close> panics on a shorter key.\<close>

definition unprefix_key :: "string \<Rightarrow> string \<Rightarrow> string outcome" where
  "unprefix_key pfx k = (if length k < length pfx then Panic ''slice bounds out of range'' else Ok (drop (length pfx) k))"

definition unprefix_kv :: "string \<Rightarrow> string \<times> 'v KeyValue \<Rightarrow> (string \<times> 'v KeyValue) outcome" where
  "unprefix_kv pfx p = bind_outcome (unprefix_key pfx (fst p)) (\<lambda>k. Ok (k, snd p))"

fun unprefixResponse :: "string \<Rightarrow> 'v response \<Rightarrow> 'v response outcome" where
  "unprefixResponse pfx (RangeResp r kvs) = bind_outcome (traverse (unprefix_kv pfx) kvs) (\<lambda>kvs'. Ok (RangeResp r kvs'))"
| "unprefixResponse pfx (PutResp r prev) =
     (case prev of None \<Rightarrow> Ok (PutResp r None)
      | Some p \<Rightarrow> bind_outcome (unprefix_kv pfx p) (\<lambda>p'. Ok (PutResp r (Some p'))))"
| "unprefixResponse pfx (DeleteResp r kvs) = bind_outcome (traverse (unprefix_kv pfx) kvs) (\<lambda>kvs'. Ok (DeleteResp r kvs'))"

definition unprefixTxnResponse :: "string \<Rightarrow> 'v TxnResponse \<Rightarrow> 'v TxnResponse outcome" where
  "unprefixTxnResponse pfx resp =
     bind_outcome (traverse (unprefixResponse pfx) (tr_Responses resp)) (\<lambda>rs. Ok (resp\<lparr>tr_Responses := rs\<rparr>))"

fun unprefix_event :: "string \<Rightarrow> 'v event \<Rightarrow> 'v event outcome" where
  "unprefix_event pfx (PutEvent k kv prev) = bind_outcome (unprefix_key pfx k) (\<lambda>k'. Ok (PutEvent k' kv prev))"
| "unprefix_event pfx (DeleteEvent k r prev) = bind_outcome (unprefix_key pfx k) (\<lambda>k'. Ok (DeleteEvent k' r prev))"

section \<open>The client\<close>

definition ns_Do :: "('s, 'v) Client \<Rightarrow> string \<Rightarrow> 's \<Rightarrow> 'v op \<Rightarrow> (error + 'v response \<times> 's) outcome" where
  "ns_Do cl pfx s req =
     (if op_key req = [] then Ok (Inl ErrEmptyKey)
      else bind_outcome (cl_Do cl s (prefixOp pfx req)) (on_response (unprefixResponse pfx)))"

definition ns_Txn :: "('s, 'v) Client \<Rightarrow> string \<Rightarrow> 's \<Rightarrow> cmp list \<Rightarrow> 'v op list \<Rightarrow> 'v op list \<Rightarrow> (error + 'v TxnResponse \<times> 's) outcome" where
  "ns_Txn cl pfx s cmps succ fail =
     bind_outcome (cl_Txn cl s (map (cmp_map (\<lambda>k. fst (prefixInterval pfx k None))) cmps) (map (prefixOp pfx) succ) (map (prefixOp pfx) fail))
       (on_response (unprefixTxnResponse pfx))"

text \<open>What a watch of the namespace asks of the watcher below.\<close>

definition ns_watch_request :: "string \<Rightarrow> string \<Rightarrow> opt list \<Rightarrow> string \<times> opt list" where
  "ns_watch_request pfx key opts =
     (let (pfxBegin, pfxEnd) = prefixInterval pfx key (snd (op_range key opts))
      in (pfxBegin, case pfxEnd of None \<Rightarrow> opts | Some e \<Rightarrow> opts @ [WithRange e]))"

definition ns_Watch :: "('s, 'v) Client \<Rightarrow> string \<Rightarrow> 's \<Rightarrow> string \<Rightarrow> opt list \<Rightarrow> nat \<Rightarrow> 'v event list outcome" where
  "ns_Watch cl pfx s key opts r =
     (let (pfxBegin, opts') = ns_watch_request pfx key opts
      in bind_outcome (cl_Watch cl s pfxBegin opts' r) (traverse (unprefix_event pfx)))"

definition namespace_cli :: "('s, 'v) Client \<Rightarrow> string \<Rightarrow> ('s, 'v) Client" where
  "namespace_cli cl pfx = \<lparr> cl_Do = ns_Do cl pfx, cl_Txn = ns_Txn cl pfx, cl_Watch = ns_Watch cl pfx \<rparr>"

section \<open>The renaming\<close>

lemma append_less: "pfx @ k < pfx @ k' \<longleftrightarrow> k < k'" for k :: string
  by (induction pfx) simp_all

interpretation ns: key_renaming "(@) pfx" for pfx
  by unfold_locales (simp_all add: append_less)

text \<open>Prefixes whose last byte can be counted up; the default \<^verbatim>\<open>/irc/\<close> is one.\<close>

definition ns_prefix :: "string \<Rightarrow> bool" where
  "ns_prefix pfx \<longleftrightarrow> pfx = [] \<or> last pfx \<noteq> CHR 0xff"

lemma bump_last:
  assumes "c \<noteq> CHR 0xff"
  shows "bump_rev (rev (xs @ [c])) = Some (char_of (of_char c + 1 :: nat) # rev xs)" and "char_of (of_char c + 1 :: nat) \<noteq> CHR 0x00"
proof -
  from assms char_le_ff [of c] have "c < CHR 0xff" by simp
  from char_succ [OF this, of c] have "c < char_of (of_char c + 1 :: nat)" by simp
  moreover have "\<not> c < CHR 0x00" by (simp add: less_char_def)
  ultimately show "char_of (of_char c + 1 :: nat) \<noteq> CHR 0x00" by metis
  then show "bump_rev (rev (xs @ [c])) = Some (char_of (of_char c + 1 :: nat) # rev xs)" by (simp add: Let_def)
qed

lemma interval_end:
  assumes "ns_prefix pfx"
  shows "\<exists>e. snd (prefixInterval pfx key (Some [CHR 0x00])) = Some e \<and> e \<noteq> [] \<and>
    (\<forall>x. in_range (pfx @ key) (Some e) x \<longleftrightarrow> (\<exists>k. x = pfx @ k \<and> in_range key (Some [CHR 0x00]) k))"
proof (cases pfx rule: rev_cases)
  case (snoc xs c)
  with assms have c: "c \<noteq> CHR 0xff" by (simp add: ns_prefix_def)
  then have lt: "c < CHR 0xff" using char_le_ff [of c] by simp
  let ?c = "char_of (of_char c + 1 :: nat)"
  have "in_range (pfx @ key) (Some (xs @ [?c])) x \<longleftrightarrow> xs @ (c # key) \<le> x \<and> x < xs @ [?c]" for x
    using bump_last(2) [OF c] by (cases xs) (auto simp: in_range_def snoc)
  then have "in_range (pfx @ key) (Some (xs @ [?c])) x \<longleftrightarrow> (\<exists>k. x = pfx @ k \<and> key \<le> k)" for x
    using range_app [of xs "c # key" x "[?c]"] range_split [OF lt, of key] by (auto simp: snoc)
  with bump_last(1) [OF c, of xs] show ?thesis
    by (intro exI [of _ "xs @ [?c]"]) (simp add: prefixInterval_def snoc in_range_def)
qed (auto simp: prefixInterval_def in_range_def)

lemma interval_rel:
  assumes "ns_prefix pfx" "end \<noteq> Some []"
  shows "range_rel ((@) pfx) key end (snd (prefixInterval pfx key end))" and "snd (prefixInterval pfx key end) \<noteq> Some []"
proof -
  have "range_rel ((@) pfx) key end (snd (prefixInterval pfx key end)) \<and> snd (prefixInterval pfx key end) \<noteq> Some []"
  proof (cases "end")
    case (Some e)
    show ?thesis
    proof (cases "e = [CHR 0x00]")
      case True
      with interval_end [OF assms(1), of key] Some show ?thesis by (auto simp: range_rel_def)
    next
      case False
      with assms Some have "pfx @ e \<noteq> [] \<and> pfx @ e \<noteq> [CHR 0x00]" by (auto simp: append_eq_Cons_conv)
      with False assms Some range_app [of pfx key _ e] show ?thesis
        by (auto simp: range_rel_def prefixInterval_def in_range_def)
    qed
  qed (auto simp: range_rel_def prefixInterval_def in_range_def)
  then show "range_rel ((@) pfx) key end (snd (prefixInterval pfx key end))" "snd (prefixInterval pfx key end) \<noteq> Some []" by auto
qed

lemma fst_interval [simp]: "fst (prefixInterval pfx key end) = pfx @ key"
  by (simp add: prefixInterval_def)

lemma prefixOp_rel:
  assumes "ns_prefix pfx" "op_ok req"
  shows "op_rel ((@) pfx) (=) req (prefixOp pfx req)" "op_ok (prefixOp pfx req)"
proof -
  have "op_rel ((@) pfx) (=) req (prefixOp pfx req) \<and> op_ok (prefixOp pfx req)"
  proof (cases req)
    case (OpGet key e r)
    with assms interval_rel [OF assms(1), of e key] show ?thesis by (simp add: split_beta)
  next
    case (OpDelete key e prev)
    with assms interval_rel [OF assms(1), of e key] show ?thesis
      by (auto simp: split_beta prefixInterval_def append_eq_Cons_conv split: option.splits)
  qed (use assms in simp)
  then show "op_rel ((@) pfx) (=) req (prefixOp pfx req)" "op_ok (prefixOp pfx req)" by auto
qed

lemma unprefix_pair: "pair_rel ((@) pfx) (=) p P \<Longrightarrow> unprefix_kv pfx P = Ok p"
  by (cases p) (auto simp: pair_rel_def kv_rel_def unprefix_kv_def unprefix_key_def)

lemma unprefix_response: "resp_rel ((@) pfx) (=) r R \<Longrightarrow> unprefixResponse pfx R = Ok r"
proof (cases "((@) pfx, (=) :: 'a \<Rightarrow> 'a \<Rightarrow> bool, r, R)" rule: resp_rel.cases)
qed (auto simp: traverse_rel [OF list_all2_mono [OF _ unprefix_pair]] unprefix_pair option_rel_Some1 option.rel_sel split: option.splits)

lemma unprefix_txn: "txn_rel ((@) pfx) (=) r R \<Longrightarrow> unprefixTxnResponse pfx R = Ok r"
proof -
  assume r: "txn_rel ((@) pfx) (=) r R"
  then have "traverse (unprefixResponse pfx) (tr_Responses R) = Ok (tr_Responses r)"
    by (intro traverse_rel) (auto simp: txn_rel_def intro: list_all2_mono unprefix_response)
  with r show ?thesis by (simp add: unprefixTxnResponse_def txn_rel_def)
qed

lemma unprefix_events: "list_all2 (ev_rel ((@) pfx) (=)) evs EVS \<Longrightarrow> traverse (unprefix_event pfx) EVS = Ok evs"
proof (intro traverse_rel, erule list_all2_mono)
  fix ev EV :: "'a event"
  assume "ev_rel ((@) pfx) (=) ev EV"
  moreover have eq: "kv_rel (=) kv KV \<longleftrightarrow> KV = kv" for kv KV :: "'a KeyValue" by (auto simp: kv_rel_def)
  ultimately show "unprefix_event pfx EV = Ok ev"
    by (cases ev; cases EV) (auto simp: unprefix_key_def eq option.rel_eq [unfolded fun_eq_iff] elim!: option.rel_cases)
qed

section \<open>The namespace is a store of its own\<close>

definition ns_view :: "('v etcd \<Rightarrow> 's \<Rightarrow> bool) \<Rightarrow> string \<Rightarrow> 'v etcd \<Rightarrow> 's \<Rightarrow> bool" where
  "ns_view R pfx d s \<longleftrightarrow> (\<exists>D. store_rel ((@) pfx) (=) d D \<and> R D s)"

lemma cmps_prefixed: "map (cmp_map (\<lambda>k. fst (prefixInterval pfx k None))) cmps = map (cmp_map ((@) pfx)) cmps"
  by simp

lemma cmps_nonempty: "list_all (\<lambda>c. cmp_key c \<noteq> []) cmps \<Longrightarrow> list_all (\<lambda>c. cmp_key c \<noteq> []) (map (cmp_map ((@) pfx)) cmps)"
proof -
  have "cmp_key (cmp_map f c) = f (cmp_key c)" for f c by (cases c) simp_all
  then show "list_all (\<lambda>c. cmp_key c \<noteq> []) cmps \<Longrightarrow> ?thesis" by (simp add: list_all_iff)
qed

lemma ops_prefixed:
  assumes "ns_prefix pfx" "list_all op_ok reqs"
  shows "list_all2 (op_rel ((@) pfx) (=)) reqs (map (prefixOp pfx) reqs)" "list_all op_ok (map (prefixOp pfx) reqs)"
  using assms by (auto simp: list_all2_conv_all_nth list_all_length prefixOp_rel)

context client_view
begin

lemma ns_view_Do:
  assumes pfx: "ns_prefix pfx" and v: "ns_view R pfx d s" and req: "op_ok req"
  shows "case DoOp d req of Inl e \<Rightarrow> ns_Do cl pfx s req = Ok (Inl e)
    | Inr (r, d') \<Rightarrow> \<exists>s'. ns_Do cl pfx s req = Ok (Inr (r, s')) \<and> ns_view R pfx d' s'"
proof -
  from v obtain D where D: "store_rel ((@) pfx) (=) d D" "R D s" by (auto simp: ns_view_def)
  have k: "op_key req \<noteq> []" using req by (cases req) auto
  note low = view_Do [OF D(2) prefixOp_rel(2) [OF pfx req]] and sim = ns.DoOp_rel [OF D(1) prefixOp_rel(1) [OF pfx req]]
  show ?thesis
  proof (cases "DoOp d req")
    case (Inl e)
    with low sim k show ?thesis by (simp add: ns_Do_def on_response_def)
  next
    case (Inr p)
    with low sim obtain r d' r' D' s' where "p = (r, d')" "cl_Do cl s (prefixOp pfx req) = Ok (Inr (r', s'))" "R D' s'"
      "resp_rel ((@) pfx) (=) r r'" "store_rel ((@) pfx) (=) d' D'" by (cases p) auto
    with Inr k show ?thesis by (auto simp: ns_Do_def on_response_def unprefix_response ns_view_def)
  qed
qed

lemma ns_view_Txn:
  assumes pfx: "ns_prefix pfx" and v: "ns_view R pfx d s"
    and cs: "list_all (\<lambda>c. cmp_key c \<noteq> []) cmps" and su: "list_all op_ok succ" and fa: "list_all op_ok fail"
  shows "case Txn d cmps succ fail of Inl e \<Rightarrow> ns_Txn cl pfx s cmps succ fail = Ok (Inl e)
    | Inr (r, d') \<Rightarrow> \<exists>s'. ns_Txn cl pfx s cmps succ fail = Ok (Inr (r, s')) \<and> ns_view R pfx d' s'"
proof -
  from v obtain D where D: "store_rel ((@) pfx) (=) d D" "R D s" by (auto simp: ns_view_def)
  note low = view_Txn [OF D(2) cmps_nonempty [OF cs, of pfx] ops_prefixed(2) [OF pfx su] ops_prefixed(2) [OF pfx fa]]
    and sim = ns.Txn_rel [OF D(1) cs ops_prefixed(1) [OF pfx su] ops_prefixed(1) [OF pfx fa]]
  show ?thesis
  proof (cases "Txn d cmps succ fail")
    case (Inl e)
    with low sim show ?thesis by (simp add: ns_Txn_def on_response_def)
  next
    case (Inr p)
    with low sim obtain r d' r' D' s' where "p = (r, d')"
      "cl_Txn cl s (map (cmp_map ((@) pfx)) cmps) (map (prefixOp pfx) succ) (map (prefixOp pfx) fail) = Ok (Inr (r', s'))" "R D' s'"
      "txn_rel ((@) pfx) (=) r r'" "store_rel ((@) pfx) (=) d' D'" by (cases p) auto
    with Inr show ?thesis by (auto simp: ns_Txn_def on_response_def unprefix_txn ns_view_def)
  qed
qed

lemma ns_view_Watch:
  assumes pfx: "ns_prefix pfx" and v: "ns_view R pfx d s" and key: "key \<noteq> []" and opts: "snd (op_range key opts) \<noteq> Some []"
  shows "ns_Watch cl pfx s key opts r = Ok (watch_events d key opts r)"
proof -
  from v obtain D where D: "store_rel ((@) pfx) (=) d D" "R D s" by (auto simp: ns_view_def)
  obtain e where e: "op_range key opts = (key, e)" using op_range_key [OF key] by (metis prod.collapse)
  let ?E = "snd (prefixInterval pfx key e)"
  let ?opts = "case ?E of None \<Rightarrow> opts | Some x \<Rightarrow> opts @ [WithRange x]"
  have E: "range_rel ((@) pfx) key e ?E" "?E \<noteq> Some []" using interval_rel [OF pfx] opts e by auto
  have ne: "pfx @ key \<noteq> []" using key by simp
  have "op_range (pfx @ key) ?opts = (pfx @ key, ?E)"
  proof (cases ?E)
    case None
    then have "e = None" using opts e by (auto simp: prefixInterval_def split: option.splits if_splits)
    with e op_range_None [of key opts] None show ?thesis by (simp add: op_range_def)
  next
    case (Some x)
    with op_range_key [OF ne, of opts] show ?thesis by (cases "op_range (pfx @ key) opts") (simp add: op_range_def)
  qed
  with view_Watch [OF D(2) ne, of ?opts r] E ns.events_rel [OF D(1) E(1), of r] e show ?thesis
    by (simp add: ns_Watch_def ns_watch_request_def split_beta watch_events_def unprefix_events)
qed

lemma namespace_view: "ns_prefix pfx \<Longrightarrow> client_view (namespace_cli cl pfx) (ns_view R pfx)"
  by (unfold_locales; unfold namespace_cli_def Client.simps; rule ns_view_Do ns_view_Txn ns_view_Watch; assumption)

end

lemma default_prefix: "ns_prefix ''/irc/''"
  by (simp add: ns_prefix_def)

interpretation irc_ns: client_view "namespace_cli etcd_cli ''/irc/''" "ns_view (=) ''/irc/''"
  by (rule bare.namespace_view [OF default_prefix])

section \<open>Isolation\<close>

lemma prefixOp_inside:
  assumes "ns_prefix pfx"
  shows "op_inside ((@) pfx) (prefixOp pfx req)"
proof (cases req)
  case (OpDelete key e prev)
  show ?thesis
  proof (cases "e = Some []")
    case False
    with interval_rel(1) [OF assms False, of key] OpDelete show ?thesis by (auto simp: split_beta range_rel_def)
  qed (simp add: OpDelete prefixInterval_def in_range_def)
qed (simp_all add: split_beta)

end
