(* ===== verification/Crypto_KV.thy ===== *)
theory Crypto_KV
  imports Kv_Client "HOL-Library.Word"
begin

text \<open>
  The vendored \<^verbatim>\<open>etcdcrypto\<close>: a client whose values are encrypted on the way to the store and decrypted on the way
  back.  Plain values and ciphertexts are two types.  Every encryption draws a fresh nonce; the random bytes
  are an argument of the client, for each call of \<^verbatim>\<open>Encrypt\<close> in a request.
\<close>

section \<open>Ciphers\<close>

type_synonym random = "nat \<Rightarrow> 8 word"

record ('v, 'w) Cipher =
  c_Encrypt :: "random \<Rightarrow> 'v \<Rightarrow> 'w"
  c_Decrypt :: "'w \<Rightarrow> (error + 'v) outcome"

text \<open>An authenticated cipher of Go's \<^verbatim>\<open>crypto/cipher\<close>, and the cipher of the package on top of it: the nonce
  goes before the sealed value.\<close>

record AEAD =
  NonceSize :: nat
  Seal :: "8 word list \<Rightarrow> 8 word list \<Rightarrow> 8 word list"
  Open :: "8 word list \<Rightarrow> 8 word list \<Rightarrow> error + 8 word list"

definition aead_Encrypt :: "AEAD \<Rightarrow> random \<Rightarrow> 8 word list \<Rightarrow> 8 word list" where
  "aead_Encrypt a rnd v = (let nonce = map rnd [0..<NonceSize a] in nonce @ Seal a nonce v)"

definition aead_Decrypt :: "AEAD \<Rightarrow> 8 word list \<Rightarrow> (error + 8 word list) outcome" where
  "aead_Decrypt a w =
     (if length w < NonceSize a then Panic ''slice bounds out of range''
      else Ok (Open a (take (NonceSize a) w) (drop (NonceSize a) w)))"

definition aeadCipher :: "AEAD \<Rightarrow> (8 word list, 8 word list) Cipher" where
  "aeadCipher a = \<lparr> c_Encrypt = aead_Encrypt a, c_Decrypt = aead_Decrypt a \<rparr>"

section \<open>Requests and responses\<close>

text \<open>\<open>encOp\<close> of the package: only a put has a value.  The operations of a list get
  the random bytes of their position.\<close>

fun crypto_encOp :: "('v, 'w) Cipher \<Rightarrow> random \<Rightarrow> 'v op \<Rightarrow> 'w op" where
  "crypto_encOp c rnd (OpGet key end r) = OpGet key end r"
| "crypto_encOp c rnd (OpPut key v l ign prev) = OpPut key (c_Encrypt c rnd v) l ign prev"
| "crypto_encOp c rnd (OpDelete key end prev) = OpDelete key end prev"

fun crypto_encOps :: "('v, 'w) Cipher \<Rightarrow> (nat \<Rightarrow> random) \<Rightarrow> nat \<Rightarrow> 'v op list \<Rightarrow> 'w op list" where
  "crypto_encOps c rnd i [] = []"
| "crypto_encOps c rnd i (req # reqs) = crypto_encOp c (rnd i) req # crypto_encOps c rnd (i + 1) reqs"

text \<open>A value that does not decrypt is a panic.\<close>

definition dec_value :: "('v, 'w) Cipher \<Rightarrow> 'w KeyValue \<Rightarrow> 'v KeyValue outcome" where
  "dec_value c KV =
     bind_outcome (c_Decrypt c (kv_Value KV)) (\<lambda>r. case r of Inl err \<Rightarrow> Panic ''decrypt''
       | Inr v \<Rightarrow> Ok \<lparr> kv_Value = v, kv_CreateRevision = kv_CreateRevision KV, kv_ModRevision = kv_ModRevision KV,
           kv_Version = kv_Version KV, kv_Lease = kv_Lease KV \<rparr>)"

definition dec_pair :: "('v, 'w) Cipher \<Rightarrow> string \<times> 'w KeyValue \<Rightarrow> (string \<times> 'v KeyValue) outcome" where
  "dec_pair c P = bind_outcome (dec_value c (snd P)) (\<lambda>kv. Ok (fst P, kv))"

definition dec_opt :: "('a \<Rightarrow> 'b outcome) \<Rightarrow> 'a option \<Rightarrow> 'b option outcome" where
  "dec_opt g x = (case x of None \<Rightarrow> Ok None | Some a \<Rightarrow> bind_outcome (g a) (\<lambda>b. Ok (Some b)))"

fun crypto_decResponse :: "('v, 'w) Cipher \<Rightarrow> 'w response \<Rightarrow> 'v response outcome" where
  "crypto_decResponse c (RangeResp r kvs) = bind_outcome (traverse (dec_pair c) kvs) (\<lambda>kvs'. Ok (RangeResp r kvs'))"
| "crypto_decResponse c (PutResp r prev) = bind_outcome (dec_opt (dec_pair c) prev) (\<lambda>prev'. Ok (PutResp r prev'))"
| "crypto_decResponse c (DeleteResp r kvs) = bind_outcome (traverse (dec_pair c) kvs) (\<lambda>kvs'. Ok (DeleteResp r kvs'))"

definition crypto_decTxnResponse :: "('v, 'w) Cipher \<Rightarrow> 'w TxnResponse \<Rightarrow> 'v TxnResponse outcome" where
  "crypto_decTxnResponse c resp = bind_outcome (traverse (crypto_decResponse c) (tr_Responses resp)) (\<lambda>rs.
     Ok \<lparr> tr_Revision = tr_Revision resp, tr_Succeeded = tr_Succeeded resp, tr_Responses = rs \<rparr>)"

text \<open>An event has its pair and, if the watch asks for it, the previous pair.  A ciphertext is never empty, so the
  checks for empty values decide between puts and deletes.\<close>

fun crypto_dec_event :: "('v, 'w) Cipher \<Rightarrow> 'w event \<Rightarrow> 'v event outcome" where
  "crypto_dec_event c (PutEvent k KV prev) =
     bind_outcome (dec_value c KV) (\<lambda>kv. bind_outcome (dec_opt (dec_value c) prev) (\<lambda>prev'. Ok (PutEvent k kv prev')))"
| "crypto_dec_event c (DeleteEvent k r prev) = bind_outcome (dec_opt (dec_value c) prev) (\<lambda>prev'. Ok (DeleteEvent k r prev'))"

section \<open>The client\<close>

definition crypto_Do :: "('s, 'w) Client \<Rightarrow> ('v, 'w) Cipher \<Rightarrow> (nat \<Rightarrow> random) \<Rightarrow> 's \<Rightarrow> 'v op \<Rightarrow> (error + 'v response \<times> 's) outcome" where
  "crypto_Do cl c rnd s req = bind_outcome (cl_Do cl s (crypto_encOp c (rnd 0) req)) (on_response (crypto_decResponse c))"

definition crypto_Txn :: "('s, 'w) Client \<Rightarrow> ('v, 'w) Cipher \<Rightarrow> (nat \<Rightarrow> random) \<Rightarrow> 's \<Rightarrow> cmp list \<Rightarrow> 'v op list \<Rightarrow> 'v op list \<Rightarrow>
    (error + 'v TxnResponse \<times> 's) outcome" where
  "crypto_Txn cl c rnd s cmps succ fail =
     bind_outcome (cl_Txn cl s cmps (crypto_encOps c rnd 0 succ) (crypto_encOps c rnd (length succ) fail))
       (on_response (crypto_decTxnResponse c))"

definition crypto_Watch :: "('s, 'w) Client \<Rightarrow> ('v, 'w) Cipher \<Rightarrow> 's \<Rightarrow> string \<Rightarrow> opt list \<Rightarrow> nat \<Rightarrow> 'v event list outcome" where
  "crypto_Watch cl c s key opts r = bind_outcome (cl_Watch cl s key opts r) (traverse (crypto_dec_event c))"

definition crypto_cli :: "('s, 'w) Client \<Rightarrow> ('v, 'w) Cipher \<Rightarrow> (nat \<Rightarrow> random) \<Rightarrow> ('s, 'v) Client" where
  "crypto_cli cl c rnd = \<lparr> cl_Do = crypto_Do cl c rnd, cl_Txn = crypto_Txn cl c rnd, cl_Watch = crypto_Watch cl c \<rparr>"

section \<open>Encrypted values are values\<close>

text \<open>What is relied on of a cipher, and of the authenticated cipher below it: what was encrypted decrypts.\<close>

definition cipher_ok :: "('v, 'w) Cipher \<Rightarrow> bool" where
  "cipher_ok c \<longleftrightarrow> (\<forall>rnd v. c_Decrypt c (c_Encrypt c rnd v) = Ok (Inr v))"

definition aead_ok :: "AEAD \<Rightarrow> bool" where
  "aead_ok a \<longleftrightarrow> (\<forall>n v. length n = NonceSize a \<longrightarrow> Open a n (Seal a n v) = Inr v)"

lemma aeadCipher_ok: "aead_ok a \<Longrightarrow> cipher_ok (aeadCipher a)"
  by (simp add: cipher_ok_def aead_ok_def aeadCipher_def aead_Encrypt_def aead_Decrypt_def Let_def)

definition decrypts :: "('v, 'w) Cipher \<Rightarrow> 'v \<Rightarrow> 'w \<Rightarrow> bool" where
  "decrypts c v w \<longleftrightarrow> c_Decrypt c w = Ok (Inr v)"

interpretation same: key_renaming id
  by unfold_locales simp_all

lemma range_rel_id: "range_rel id key end end"
  by (simp add: range_rel_def)

lemma encOp_rel: "cipher_ok c \<Longrightarrow> op_ok req \<Longrightarrow> op_rel id (decrypts c) req (crypto_encOp c rnd req) \<and> op_ok (crypto_encOp c rnd req)"
  by (cases req) (auto simp: range_rel_id decrypts_def cipher_ok_def option.map_id)

lemma encOps_rel:
  "cipher_ok c \<Longrightarrow> list_all op_ok reqs \<Longrightarrow>
    list_all2 (op_rel id (decrypts c)) reqs (crypto_encOps c rnd i reqs) \<and> list_all op_ok (crypto_encOps c rnd i reqs)"
  by (induction reqs arbitrary: i) (simp_all add: encOp_rel)

lemma dec_value_rel: "kv_rel (decrypts c) kv KV \<Longrightarrow> dec_value c KV = Ok kv"
  by (cases kv) (auto simp: kv_rel_def dec_value_def decrypts_def)

lemma dec_pair_rel: "pair_rel id (decrypts c) p P \<Longrightarrow> dec_pair c P = Ok p"
  by (cases p) (auto simp: pair_rel_def dec_pair_def dec_value_rel)

lemma dec_opt_rel: "rel_option Q x X \<Longrightarrow> (\<And>a A. Q a A \<Longrightarrow> g A = Ok a) \<Longrightarrow> dec_opt g X = Ok x"
  by (cases x; cases X) (simp_all add: dec_opt_def)

lemma dec_response_rel: "resp_rel id (decrypts c) r R \<Longrightarrow> crypto_decResponse c R = Ok r"
  by (cases "(id :: string \<Rightarrow> string, decrypts c, r, R)" rule: resp_rel.cases)
     (auto simp: traverse_rel [OF list_all2_mono [OF _ dec_pair_rel]] dec_opt_rel [OF _ dec_pair_rel])

lemma dec_txn_rel:
  assumes "txn_rel id (decrypts c) r R"
  shows "crypto_decTxnResponse c R = Ok r"
proof -
  from assms have "traverse (crypto_decResponse c) (tr_Responses R) = Ok (tr_Responses r)"
    by (intro traverse_rel) (auto simp: txn_rel_def intro: list_all2_mono dec_response_rel)
  with assms show ?thesis by (simp add: crypto_decTxnResponse_def txn_rel_def)
qed

lemma dec_event_rel: "ev_rel id (decrypts c) ev EV \<Longrightarrow> crypto_dec_event c EV = Ok ev"
  by (cases ev; cases EV) (auto simp: dec_value_rel dec_opt_rel [OF _ dec_value_rel])

definition crypto_view :: "('w etcd \<Rightarrow> 's \<Rightarrow> bool) \<Rightarrow> ('v, 'w) Cipher \<Rightarrow> 'v etcd \<Rightarrow> 's \<Rightarrow> bool" where
  "crypto_view R c d s \<longleftrightarrow> (\<exists>D. store_rel id (decrypts c) d D \<and> R D s)"

lemma cmp_map_id: "map (cmp_map id) cmps = cmps"
proof -
  have "cmp_map id c = c" for c by (cases c) simp_all
  then show ?thesis by (simp add: map_idI)
qed

context client_view
begin

lemma crypto_view_Do:
  assumes c: "cipher_ok c" and v: "crypto_view R c d s" and req: "op_ok req"
  shows "case DoOp d req of Inl e \<Rightarrow> crypto_Do cl c rnd s req = Ok (Inl e)
    | Inr (r, d') \<Rightarrow> \<exists>s'. crypto_Do cl c rnd s req = Ok (Inr (r, s')) \<and> crypto_view R c d' s'"
proof -
  from v obtain D where D: "store_rel id (decrypts c) d D" "R D s" by (auto simp: crypto_view_def)
  note op = encOp_rel [OF c req, of "rnd 0"]
  note low = view_Do [OF D(2) op [THEN conjunct2]] and sim = same.DoOp_rel [OF D(1) op [THEN conjunct1]]
  show ?thesis
  proof (cases "DoOp d req")
    case (Inl e)
    with low sim show ?thesis by (simp add: crypto_Do_def on_response_def)
  next
    case (Inr p)
    with low sim obtain r d' r' D' s' where "p = (r, d')" "cl_Do cl s (crypto_encOp c (rnd 0) req) = Ok (Inr (r', s'))" "R D' s'"
      "resp_rel id (decrypts c) r r'" "store_rel id (decrypts c) d' D'" by (cases p) auto
    with Inr show ?thesis by (auto simp: crypto_Do_def on_response_def dec_response_rel crypto_view_def)
  qed
qed

lemma crypto_view_Txn:
  assumes c: "cipher_ok c" and v: "crypto_view R c d s"
    and cs: "list_all (\<lambda>c. cmp_key c \<noteq> []) cmps" and su: "list_all op_ok succ" and fa: "list_all op_ok fail"
  shows "case Txn d cmps succ fail of Inl e \<Rightarrow> crypto_Txn cl c rnd s cmps succ fail = Ok (Inl e)
    | Inr (r, d') \<Rightarrow> \<exists>s'. crypto_Txn cl c rnd s cmps succ fail = Ok (Inr (r, s')) \<and> crypto_view R c d' s'"
proof -
  from v obtain D where D: "store_rel id (decrypts c) d D" "R D s" by (auto simp: crypto_view_def)
  note ops = encOps_rel [OF c su, of rnd 0] encOps_rel [OF c fa, of rnd "length succ"]
  note low = view_Txn [OF D(2) cs ops(1) [THEN conjunct2] ops(2) [THEN conjunct2]]
    and sim = same.Txn_rel [OF D(1) cs ops(1) [THEN conjunct1] ops(2) [THEN conjunct1], unfolded cmp_map_id]
  show ?thesis
  proof (cases "Txn d cmps succ fail")
    case (Inl e)
    with low sim show ?thesis by (simp add: crypto_Txn_def on_response_def)
  next
    case (Inr p)
    with low sim obtain r d' r' D' s' where "p = (r, d')"
      "cl_Txn cl s cmps (crypto_encOps c rnd 0 succ) (crypto_encOps c rnd (length succ) fail) = Ok (Inr (r', s'))" "R D' s'"
      "txn_rel id (decrypts c) r r'" "store_rel id (decrypts c) d' D'" by (cases p) auto
    with Inr show ?thesis by (auto simp: crypto_Txn_def on_response_def dec_txn_rel crypto_view_def)
  qed
qed

lemma crypto_view_Watch:
  assumes v: "crypto_view R c d s" and key: "key \<noteq> []" and opts: "snd (op_range key opts) \<noteq> Some []"
  shows "crypto_Watch cl c s key opts r = Ok (watch_events d key opts r)"
proof -
  from v obtain D where D: "store_rel id (decrypts c) d D" "R D s" by (auto simp: crypto_view_def)
  obtain e where e: "op_range key opts = (key, e)" using op_range_key [OF key] by (metis prod.collapse)
  from same.events_rel [OF D(1) range_rel_id, of key e r]
  have "list_all2 (\<lambda>ev EV. crypto_dec_event c EV = Ok ev) (watch_events d key opts r) (watch_events D key opts r)"
    by (auto simp: watch_events_def e intro: list_all2_mono dec_event_rel)
  with view_Watch [OF D(2) key opts, of r] show ?thesis by (simp add: crypto_Watch_def traverse_rel)
qed

lemma crypto_view: "cipher_ok c \<Longrightarrow> client_view (crypto_cli cl c rnd) (crypto_view R c)"
  by (unfold_locales; unfold crypto_cli_def Client.simps; rule crypto_view_Do crypto_view_Txn crypto_view_Watch; assumption)

end

end
