(* ===== verification/Client_Stack.thy ===== *)
theory Client_Stack
  imports Encoded_KV Namespace_KV Crypto_KV
begin

text \<open>
  \<^verbatim>\<open>internal/util/client.go\<close>: the client that the server and the tool are given.  From the bottom: the client of the
  cluster, the namespace, and, with certificates, the encryption of values and of keys.  Leases go to the cluster directly.
  Values are byte strings.  The primitives of Go's crypto packages and the negotiation of the key are arguments.
\<close>

section \<open>Cryptography\<close>

record Block =
  b_BlockSize :: nat
  b_Encrypt :: "byte list \<Rightarrow> byte list"

record go_crypto =
  aes_NewCipher :: "byte list \<Rightarrow> error + Block"
  cipher_NewGCM :: "Block \<Rightarrow> error + AEAD"
  hmac_sha256 :: "byte list \<Rightarrow> byte list \<Rightarrow> byte list"

text \<open>\<^verbatim>\<open>NewAESCipher\<close> of the vendored \<^verbatim>\<open>etcdcrypto\<close>.\<close>

definition NewAESCipher :: "go_crypto \<Rightarrow> byte list \<Rightarrow> error + (byte list, byte list) Cipher" where
  "NewAESCipher g aesKey =
     (case aes_NewCipher g aesKey of Inl err \<Rightarrow> Inl err | Inr block \<Rightarrow>
      case cipher_NewGCM g block of Inl aerr \<Rightarrow> Inl aerr | Inr aead \<Rightarrow> Inr (aeadCipher aead))"

text \<open>The encoder of keys: HMAC with SHA-256 under the key, and the block cipher.\<close>

definition NewKeyEncoderHMAC :: "go_crypto \<Rightarrow> byte list \<Rightarrow> Block \<Rightarrow> hmacKeyEncoder" where
  "NewKeyEncoderHMAC g aeskey b =
     \<lparr> hke_h = hmac_sha256 g aeskey, hke_Size = 32, hke_BlockSize = b_BlockSize b, hke_encrypt = b_Encrypt b \<rparr>"

section \<open>Making a client\<close>

text \<open>What the negotiation of the session key comes to: it cannot start, nothing comes for five seconds, or a key.\<close>

datatype exchange = KxErr string | KxTimeout | SymmetricKey "byte list"

definition MustCrypto :: "go_crypto \<Rightarrow> (nat \<Rightarrow> random) \<Rightarrow> ('s, byte list) Client \<Rightarrow> exchange \<Rightarrow> ('s, byte list) Client outcome" where
  "MustCrypto g rnd cli kx =
     (case kx of
        KxErr kxerr \<Rightarrow> Panic kxerr
      | KxTimeout \<Rightarrow> Panic ''could not establish session key''
      | SymmetricKey aeskey \<Rightarrow>
          case NewAESCipher g aeskey of Inl cerr \<Rightarrow> Panic ''cipher'' | Inr cipher \<Rightarrow>
          case aes_NewCipher g aeskey of Inl cerr \<Rightarrow> Panic ''cipher'' | Inr b \<Rightarrow>
          Ok (keyencode_cli (crypto_cli cli cipher rnd) (keyEncoder (hmacEncoder (NewKeyEncoderHMAC g aeskey b)))))"

definition MustIrcdEtcdClient ::
  "go_crypto \<Rightarrow> (nat \<Rightarrow> random) \<Rightarrow> ('s, byte list) Client \<Rightarrow> string \<Rightarrow> exchange option \<Rightarrow> ('s, byte list) Client outcome" where
  "MustIrcdEtcdClient g rnd cli pfx tlsinfo =
     (let xcli = (if pfx \<noteq> [] then namespace_cli cli pfx else cli) in
      case tlsinfo of None \<Rightarrow> Ok xcli | Some kx \<Rightarrow> MustCrypto g rnd xcli kx)"

section \<open>What is relied on\<close>

text \<open>Go's AES has blocks of 16 bytes, its GCM opens what it sealed, and SHA-256 gives 32 bytes.\<close>

definition crypto_ok :: "go_crypto \<Rightarrow> bool" where
  "crypto_ok g \<longleftrightarrow>
     (\<forall>k b. aes_NewCipher g k = Inr b \<longrightarrow> b_BlockSize b = 16 \<and> (\<forall>x. length x = 16 \<longrightarrow> length (b_Encrypt b x) = 16)) \<and>
     (\<forall>b a. cipher_NewGCM g b = Inr a \<longrightarrow> aead_ok a) \<and> (\<forall>k x. length (hmac_sha256 g k x) = 32)"

lemma NewAESCipher_ok: "crypto_ok g \<Longrightarrow> NewAESCipher g k = Inr c \<Longrightarrow> cipher_ok c"
  by (auto simp: crypto_ok_def NewAESCipher_def aeadCipher_ok split: sum.splits)

lemma NewKeyEncoderHMAC_ok: "crypto_ok g \<Longrightarrow> aes_NewCipher g k = Inr b \<Longrightarrow> hke_ok (NewKeyEncoderHMAC g k b)"
  by (auto simp: crypto_ok_def hke_ok_def NewKeyEncoderHMAC_def)

section \<open>The stores that a client represents\<close>

text \<open>\<open>ns_layer\<close>: the keys of the plain store with the prefix, in the cluster.  \<open>stack_view\<close>: the store that the server sees through
  the whole client is, key by key and value by value, the encrypted content of the namespace.\<close>

definition ns_layer :: "string \<Rightarrow> 'v etcd \<Rightarrow> 'v etcd \<Rightarrow> bool" where
  "ns_layer pfx = (if pfx \<noteq> [] then ns_view (=) pfx else (=))"

definition stack_view :: "go_crypto \<Rightarrow> byte list \<Rightarrow> string \<Rightarrow> byte list etcd \<Rightarrow> byte list etcd \<Rightarrow> bool" where
  "stack_view g aeskey pfx d D \<longleftrightarrow>
     (\<exists>c b. NewAESCipher g aeskey = Inr c \<and> aes_NewCipher g aeskey = Inr b \<and>
        enc_view (crypto_view (ns_layer pfx) c) (secure_encoder (NewKeyEncoderHMAC g aeskey b))
          (secure_key (NewKeyEncoderHMAC g aeskey b)) d D)"

lemma ns_layer_view:
  assumes "ns_prefix pfx"
  shows "client_view (if pfx \<noteq> [] then namespace_cli etcd_cli pfx else etcd_cli) (ns_layer pfx)"
  by (cases "pfx = []") (simp_all add: ns_layer_def bare.namespace_view [OF assms] bare.client_view_axioms)

text \<open>The keys and prefixes that a session key encodes.\<close>

definition stack_key :: "go_crypto \<Rightarrow> byte list \<Rightarrow> string \<Rightarrow> bool" where
  "stack_key g aeskey k = (case aes_NewCipher g aeskey of Inl e \<Rightarrow> False | Inr b \<Rightarrow> secure_key (NewKeyEncoderHMAC g aeskey b) k)"

definition stack_pfx :: "go_crypto \<Rightarrow> byte list \<Rightarrow> string \<Rightarrow> bool" where
  "stack_pfx g aeskey k = (case aes_NewCipher g aeskey of Inl e \<Rightarrow> False | Inr b \<Rightarrow> secure_pfx (NewKeyEncoderHMAC g aeskey b) k)"

text \<open>A client that was made with a key is the encoding client over a client that represents a store.\<close>

lemma stack_client:
  assumes g: "crypto_ok g" and pfx: "ns_prefix pfx"
    and cli: "MustIrcdEtcdClient g rnd etcd_cli pfx (Some (SymmetricKey aeskey)) = Ok cli"
  obtains ke valid pf cl R where "encoded_client ke valid pf cl R" "cli = keyencode_cli cl ke"
    "stack_view g aeskey pfx = enc_view R ke valid" "stack_key g aeskey = valid" "stack_pfx g aeskey = pf"
proof -
  let ?ns = "if pfx \<noteq> [] then namespace_cli etcd_cli pfx else etcd_cli"
  from cli obtain c b where c: "NewAESCipher g aeskey = Inr c" and b: "aes_NewCipher g aeskey = Inr b"
    and cli': "cli = keyencode_cli (crypto_cli ?ns c rnd) (secure_encoder (NewKeyEncoderHMAC g aeskey b))"
    by (auto simp: MustIrcdEtcdClient_def MustCrypto_def Let_def secure_encoder_def split: sum.splits if_splits)
  let ?h = "NewKeyEncoderHMAC g aeskey b"
  have "encoded_client (secure_encoder ?h) (secure_key ?h) (secure_pfx ?h) (crypto_cli ?ns c rnd) (crypto_view (ns_layer pfx) c)"
    by (rule encoded_client.intro [OF secure_contract [OF NewKeyEncoderHMAC_ok [OF g b]]
          client_view.crypto_view [OF ns_layer_view [OF pfx] NewAESCipher_ok [OF g c]]])
  moreover have "stack_view g aeskey pfx = enc_view (crypto_view (ns_layer pfx) c) (secure_encoder ?h) (secure_key ?h)"
    by (intro ext) (simp add: stack_view_def c b)
  moreover have "stack_key g aeskey = secure_key ?h" "stack_pfx g aeskey = secure_pfx ?h"
    by (auto simp: stack_key_def stack_pfx_def b)
  ultimately show thesis using that cli' by blast
qed

section \<open>What the layers leave alone\<close>

text \<open>Every change of the state below by a client of the stack is one that the bottom client makes.\<close>

definition changes_by :: "('s, 'v) Client \<Rightarrow> ('s \<Rightarrow> 's \<Rightarrow> bool) \<Rightarrow> bool" where
  "changes_by cl P \<longleftrightarrow> (\<forall>s req r s'. cl_Do cl s req = Ok (Inr (r, s')) \<longrightarrow> P s s') \<and>
     (\<forall>s cmps succ fail r s'. cl_Txn cl s cmps succ fail = Ok (Inr (r, s')) \<longrightarrow> P s s')"

lemma on_response_Ok: "on_response g x = Ok (Inr (r', s)) \<Longrightarrow> \<exists>r. x = Inr (r, s)"
  by (cases x) (auto simp: on_response_def bind_outcome_Ok_iff split: prod.splits)

lemma on_response_Inr: "bind_outcome m (on_response g) = Ok (Inr (r', s)) \<Longrightarrow> \<exists>r. m = Ok (Inr (r, s))"
  by (auto simp: bind_outcome_Ok_iff dest!: on_response_Ok)

lemma crypto_changes: "changes_by cl P \<Longrightarrow> changes_by (crypto_cli cl c rnd) P"
  by (auto simp: changes_by_def crypto_cli_def crypto_Do_def crypto_Txn_def dest!: on_response_Inr)

lemma keyencode_changes: "changes_by cl P \<Longrightarrow> changes_by (keyencode_cli cl ke) P"
  unfolding changes_by_def keyencode_cli_def Client.simps kv_Do_def kv_Txn_def
  by (auto simp only: bind_outcome_Ok_iff [of "encOp ke _"] bind_outcome_Ok_iff [of "traverse _ _"] dest!: on_response_Inr)

lemma etcd_changes:
  assumes "\<And>req. op_inside f (g req)"
  shows "cl_Do etcd_cli s (g req) = Ok (Inr (r, s')) \<Longrightarrow> writes_inside f s s'"
    and "cl_Txn etcd_cli s cmps (map g succ) (map g fail) = Ok (Inr (r', s')) \<Longrightarrow> writes_inside f s s'"
  using assms by (auto simp: etcd_cli_def list_all_iff intro: DoOp_inside Txn_inside)

lemma namespace_changes:
  assumes "ns_prefix pfx"
  shows "changes_by (namespace_cli etcd_cli pfx) (writes_inside ((@) pfx))"
  unfolding changes_by_def namespace_cli_def Client.simps ns_Do_def ns_Txn_def
  by (auto split: if_splits dest!: on_response_Inr dest: etcd_changes [OF prefixOp_inside [OF assms]])

lemma all_inside: "op_inside ((@) []) req"
  by (cases req) auto

lemma no_namespace_changes: "changes_by etcd_cli (writes_inside ((@) []))"
  using etcd_changes [where g = id, OF all_inside] by (auto simp: changes_by_def)

lemma stack_changes:
  assumes "ns_prefix pfx" "MustIrcdEtcdClient g rnd etcd_cli pfx tlsinfo = Ok cli"
  shows "changes_by cli (writes_inside ((@) pfx))"
proof -
  have "changes_by (if pfx \<noteq> [] then namespace_cli etcd_cli pfx else etcd_cli) (writes_inside ((@) pfx))"
    by (cases "pfx = []") (simp_all add: namespace_changes [OF assms(1)] no_namespace_changes)
  with assms(2) show ?thesis
    by (auto simp: MustIrcdEtcdClient_def MustCrypto_def Let_def crypto_changes keyencode_changes
        split: option.splits exchange.splits sum.splits)
qed

section \<open>Leases through the layers\<close>

text \<open>Leases of pairs outside the namespace; a server does not revoke those of others.\<close>

definition foreign_lease :: "string \<Rightarrow> 'v etcd \<Rightarrow> int \<Rightarrow> bool" where
  "foreign_lease pfx D i \<longleftrightarrow> (\<exists>k kv. lookup D k = Some kv \<and> kv_Lease kv = i \<and> \<not> prefix pfx k)"

lemma range_append_prefix: "k \<in> range ((@) pfx) \<longleftrightarrow> prefix pfx k"
  by (auto simp: prefix_def)

lemma foreign_lease_kept: "writes_inside ((@) pfx) D D' \<Longrightarrow> foreign_lease pfx D' i = foreign_lease pfx D i"
  unfolding writes_inside_def foreign_lease_def range_append_prefix by metis

lemma ns_layer_sorted: "ns_layer pfx D2 D \<Longrightarrow> snap_sorted (current D2) \<Longrightarrow> snap_sorted (current D)"
  using ns.current_rel by (auto simp: ns_layer_def ns_view_def snap_rel_def split: if_splits)

lemma ns_layer_Revoke:
  assumes "ns_layer pfx D2 D" "\<not> foreign_lease pfx D i"
  shows "case LeaseRevoke D2 i of Inl e \<Rightarrow> LeaseRevoke D i = Inl e | Inr D2' \<Rightarrow> \<exists>D'. LeaseRevoke D i = Inr D' \<and> ns_layer pfx D2' D'"
proof (cases "pfx = []")
  case False
  with assms(1) have "store_rel ((@) pfx) (=) D2 D" by (simp add: ns_layer_def ns_view_def)
  from ns.LeaseRevoke_rel [OF this, of i] assms(2) False show ?thesis
    by (auto simp: ns_layer_def ns_view_def foreign_lease_def range_append_prefix split: sum.splits)
qed (use assms in \<open>auto simp: ns_layer_def split: sum.split\<close>)

lemma ns_layer_Grant:
  assumes "ns_layer pfx D2 D"
  shows "case LeaseGrant D2 i of Inl e \<Rightarrow> LeaseGrant D i = Inl e | Inr D2' \<Rightarrow> \<exists>D'. LeaseGrant D i = Inr D' \<and> ns_layer pfx D2' D'"
proof (cases "pfx = []")
  case False
  with assms have "store_rel ((@) pfx) (=) D2 D" by (simp add: ns_layer_def ns_view_def)
  from ns.LeaseGrant_rel [OF this, of i] False show ?thesis by (auto simp: ns_layer_def ns_view_def split: sum.splits)
qed (use assms in \<open>auto simp: ns_layer_def split: sum.split\<close>)

lemma stack_viewE:
  assumes "stack_view g aeskey pfx d D"
  obtains c b D1 D2 where "NewAESCipher g aeskey = Inr c" "aes_NewCipher g aeskey = Inr b"
    "store_enc (secure_encoder (NewKeyEncoderHMAC g aeskey b)) (secure_key (NewKeyEncoderHMAC g aeskey b)) d D1"
    "store_rel id (decrypts c) D1 D2" "ns_layer pfx D2 D"
  using assms unfolding stack_view_def enc_view_def crypto_view_def by blast

lemma stack_viewI:
  "NewAESCipher g aeskey = Inr c \<Longrightarrow> aes_NewCipher g aeskey = Inr b \<Longrightarrow>
    store_enc (secure_encoder (NewKeyEncoderHMAC g aeskey b)) (secure_key (NewKeyEncoderHMAC g aeskey b)) d D1 \<Longrightarrow>
    store_rel id (decrypts c) D1 D2 \<Longrightarrow> ns_layer pfx D2 D \<Longrightarrow> stack_view g aeskey pfx d D"
  unfolding stack_view_def enc_view_def crypto_view_def by blast

lemma stack_Revoke:
  assumes g: "crypto_ok g" and v: "stack_view g aeskey pfx d D" and own: "\<not> foreign_lease pfx D i"
  shows "case LeaseRevoke d i of Inl e \<Rightarrow> LeaseRevoke D i = Inl e | Inr d' \<Rightarrow> \<exists>D'. LeaseRevoke D i = Inr D' \<and> stack_view g aeskey pfx d' D'"
proof -
  from v obtain c b D1 D2 where cb: "NewAESCipher g aeskey = Inr c" "aes_NewCipher g aeskey = Inr b"
    and st: "store_enc (secure_encoder (NewKeyEncoderHMAC g aeskey b)) (secure_key (NewKeyEncoderHMAC g aeskey b)) d D1"
      "store_rel id (decrypts c) D1 D2" "ns_layer pfx D2 D" by (rule stack_viewE)
  note 1 = kv_encoder.LeaseRevoke_enc [OF secure_contract [OF NewKeyEncoderHMAC_ok [OF g cb(2)]] st(1), of i]
    and 2 = same.LeaseRevoke_rel [OF st(2), of i] and 3 = ns_layer_Revoke [OF st(3) own]
  show ?thesis
  proof (cases "LeaseRevoke d i")
    case (Inl e)
    with 1 2 3 show ?thesis by simp
  next
    case (Inr d')
    with 1 obtain D1' where D1: "LeaseRevoke D1 i = Inr D1'"
      "store_enc (secure_encoder (NewKeyEncoderHMAC g aeskey b)) (secure_key (NewKeyEncoderHMAC g aeskey b)) d' D1'" by auto
    with 2 obtain D2' where "LeaseRevoke D2 i = Inr D2'" "store_rel id (decrypts c) D1' D2'" by auto
    with 3 D1(2) cb Inr show ?thesis by (auto intro: stack_viewI)
  qed
qed

lemma stack_Grant:
  assumes v: "stack_view g aeskey pfx d D"
  shows "case LeaseGrant d i of Inl e \<Rightarrow> LeaseGrant D i = Inl e | Inr d' \<Rightarrow> \<exists>D'. LeaseGrant D i = Inr D' \<and> stack_view g aeskey pfx d' D'"
proof -
  from v obtain c b D1 D2 where cb: "NewAESCipher g aeskey = Inr c" "aes_NewCipher g aeskey = Inr b"
    and st: "store_enc (secure_encoder (NewKeyEncoderHMAC g aeskey b)) (secure_key (NewKeyEncoderHMAC g aeskey b)) d D1"
      "store_rel id (decrypts c) D1 D2" "ns_layer pfx D2 D" by (rule stack_viewE)
  have 1: "LeaseGrant D1 i = map_sum id (\<lambda>d'. D1\<lparr>leases := leases d'\<rparr>) (LeaseGrant d i)"
    using st(1) by (auto simp: LeaseGrant_def store_enc_def)
  note 2 = same.LeaseGrant_rel [OF st(2), of i] and 3 = ns_layer_Grant [OF st(3), of i]
  show ?thesis
  proof (cases "LeaseGrant d i")
    case (Inl e)
    with 1 2 3 show ?thesis by simp
  next
    case (Inr d')
    then have "store_enc (secure_encoder (NewKeyEncoderHMAC g aeskey b)) (secure_key (NewKeyEncoderHMAC g aeskey b)) d' (D1\<lparr>leases := leases d'\<rparr>)"
      using st(1) by (auto simp: LeaseGrant_def store_enc_def split: if_splits)
    moreover from Inr 1 2 obtain D2' where "LeaseGrant D2 i = Inr D2'" "store_rel id (decrypts c) (D1\<lparr>leases := leases d'\<rparr>) D2'" by auto
    ultimately show ?thesis using 3 cb Inr by (auto intro: stack_viewI)
  qed
qed

end
