(* ===== verification/Encoded_Correct.thy ===== *)
theory Encoded_Correct
  imports Client_Stack
begin

text \<open>
  The client of \<^verbatim>\<open>internal/util/client.go\<close> in use: transparency of the namespace and of the encryption for the requests of the network, isolation of the
  rest of the cluster, round trips of the encoders, and the keys on which they fail.
\<close>

section \<open>A small cryptography\<close>

text \<open>Sums as the hash and as the stream of the authenticated cipher, and a rotation as the block cipher: enough to compute with.\<close>

definition demo_crypto :: go_crypto where
  "demo_crypto = \<lparr> aes_NewCipher = (\<lambda>k. if length k = 16 then Inr \<lparr> b_BlockSize = 16, b_Encrypt = map (\<lambda>b. 3 * b + 1) \<rparr> else Inl (ErrRpc ''key size'')),
     cipher_NewGCM = (\<lambda>b. Inr \<lparr> NonceSize = 12, Seal = (\<lambda>n. map (\<lambda>b. b + sum_list n)), Open = (\<lambda>n w. Inr (map (\<lambda>b. b - sum_list n) w)) \<rparr>),
     hmac_sha256 = (\<lambda>k m. replicate 32 (sum_list k + sum_list m)) \<rparr>"

definition demo_aeskey :: "byte list" where
  "demo_aeskey = replicate 16 7"

definition demo_hke :: hmacKeyEncoder where
  "demo_hke = NewKeyEncoderHMAC demo_crypto demo_aeskey \<lparr> b_BlockSize = 16, b_Encrypt = map (\<lambda>b. 3 * b + 1) \<rparr>"

lemma demo_crypto_ok: "crypto_ok demo_crypto"
  by (auto simp: crypto_ok_def demo_crypto_def aead_ok_def comp_def split: if_splits)

lemma demo_cipher:
  "aes_NewCipher demo_crypto demo_aeskey = Inr \<lparr> b_BlockSize = 16, b_Encrypt = map (\<lambda>b. 3 * b + 1) \<rparr>"
  "\<exists>c. NewAESCipher demo_crypto demo_aeskey = Inr c"
  by (simp_all add: NewAESCipher_def demo_crypto_def demo_aeskey_def)

lemma demo_hke_ok: "hke_ok demo_hke"
  unfolding demo_hke_def by (rule NewKeyEncoderHMAC_ok [OF demo_crypto_ok demo_cipher(1)])

lemma demo_key: "secure_key demo_hke (keyUserCtl ''bo'')"
proof -
  have "keyUserCtl ''bo'' = mk_key ''user'' ''ctl'' ''bo'' []" by (simp add: keyUserCtl_def mk_key_def)
  moreover have "(case keyEncoder_Encode (hmacEncoder demo_hke) (keyUserCtl ''bo'') of Ok e \<Rightarrow> length e < 100 | _ \<Rightarrow> False)"
    by code_simp
  ultimately show ?thesis
    unfolding secure_key_def netkey_def
    by (intro exI [of _ "''user''"] exI [of _ "''ctl''"] exI [of _ "''bo''"] exI [of _ "[]"])
       (auto simp: key_head_def rest_ok_def hmac_fits_def demo_hke_def NewKeyEncoderHMAC_def mk_key_def)
qed

lemma demo_stack_key: "stack_key demo_crypto demo_aeskey (keyUserCtl ''bo'')"
  using demo_key by (simp add: stack_key_def demo_cipher(1) demo_hke_def)

lemma demo_stack_pfx: "stack_pfx demo_crypto demo_aeskey (keyUserCtl [])"
proof -
  have "keyUserCtl [] = mk_key ''user'' ''ctl'' [] []" by (simp add: keyUserCtl_def mk_key_def)
  moreover have "key_head ''user'' ''ctl''" by (simp add: key_head_def)
  ultimately show ?thesis by (auto simp: stack_pfx_def demo_cipher(1) secure_pfx_def netpfx_def)
qed

text \<open>Empty stores at all levels.\<close>

lemma init_enc: "store_enc ke valid init_etcd init_etcd"
  by (simp add: store_enc_def init_etcd_def snap_enc_def snap_sorted_def log_enc_def)

lemma init_view:
  assumes "NewAESCipher g aeskey = Inr c" "aes_NewCipher g aeskey = Inr b"
  shows "stack_view g aeskey pfx init_etcd init_etcd"
proof (rule stack_viewI [OF assms init_enc])
  have rel: "store_rel f V init_etcd init_etcd" for f and V :: "'a \<Rightarrow> 'b \<Rightarrow> bool"
    by (simp add: store_rel_def init_etcd_def snap_rel_def snap_sorted_def)
  show "store_rel id (decrypts c) init_etcd init_etcd" by (rule rel)
  show "ns_layer pfx init_etcd init_etcd" using rel by (auto simp: ns_layer_def ns_view_def)
qed

lemma demo_view: "stack_view demo_crypto demo_aeskey ''/irc/'' init_etcd init_etcd"
  using demo_cipher init_view by blast

definition demo_cli :: "(byte list etcd, byte list) Client outcome" where
  "demo_cli = MustIrcdEtcdClient demo_crypto (\<lambda>i j. word_of_nat (i + j)) etcd_cli ''/irc/'' (Some (SymmetricKey demo_aeskey))"

lemma demo_cli_Ok: "\<exists>cli. demo_cli = Ok cli"
  using demo_cipher by (auto simp: demo_cli_def MustIrcdEtcdClient_def MustCrypto_def)

text \<open>What a put through the encoding client leaves in the store.\<close>

lemma kv_Put_store:
  assumes e: "ke_Encode ke key = Ok e" and put: "kv_Put etcd_cli ke D key v l ign prev = Ok (Inr (x, D'))"
  obtains l' where "D' = tx_end D (tx_put (revision D + 1) e v l' (current D, []))"
proof (cases "DoOp D (OpPut e v l ign prev)")
  case (Inl err)
  with put show thesis by (simp add: kv_Put_def kv_Do_def enc_range_def e etcd_cli_def on_response_def)
next
  case (Inr p)
  then obtain R d' where p: "DoOp D (OpPut e v l ign prev) = Inr (R, d')" by (cases p) simp
  with put have "d' = D'"
    by (cases "decResponse ke R") (simp_all add: kv_Put_def kv_Do_def enc_range_def e etcd_cli_def on_response_def)
  with p that show thesis by (auto simp: DoOp_def Let_def split: option.splits if_splits)
qed

section \<open>Transparency\<close>

text \<open>
  C25.  A transparent client: with a cryptography of the right sizes, a transaction of the client that the server is given, with its keys in the
  namespace, keys encrypted and values encrypted under random nonces, gives the response of the same transaction on
  the store in the clear, up to the order of the pairs in a range; it never panics, and the cluster goes on to hold
  the encrypted form of the plain store.
\<close>

theorem encrypted_Txn:
  assumes "crypto_ok g" "ns_prefix pfx" "MustIrcdEtcdClient g rnd etcd_cli pfx (Some (SymmetricKey aeskey)) = Ok cli"
    and "stack_view g aeskey pfx d D"
    and "list_all (stack_key g aeskey \<circ> cmp_key) cmps"
    and "list_all (op_fits (stack_key g aeskey) (stack_pfx g aeskey)) succ"
    and "list_all (op_fits (stack_key g aeskey) (stack_pfx g aeskey)) fail"
  shows "case Txn d cmps succ fail of
      Inl e \<Rightarrow> cl_Txn cli D cmps succ fail = Ok (Inl e)
    | Inr (r, d') \<Rightarrow> \<exists>r' D'. cl_Txn cli D cmps succ fail = Ok (Inr (r', D')) \<and> same_txn r' r \<and> stack_view g aeskey pfx d' D'"
proof (rule stack_client [OF assms(1-3)])
  fix ke valid pf cl R
  assume "encoded_client ke valid pf cl R" and eqs: "cli = keyencode_cli cl ke" "stack_view g aeskey pfx = enc_view R ke valid"
    "stack_key g aeskey = valid" "stack_pfx g aeskey = pf"
  from encoded_client.client_Txn [OF this(1) assms(4-7) [unfolded eqs]] show ?thesis
    unfolding eqs keyencode_cli_def Client.simps .
qed

theorem encrypted_Txn_witness:
  "\<exists>cli r' D'. demo_cli = Ok cli \<and> cl_Txn cli init_etcd [CmpVersion (keyUserCtl ''bo'') CEq 0]
       [OpPut (keyUserCtl ''bo'') [1, 2] 0 False False] [] = Ok (Inr (r', D')) \<and> tr_Succeeded r'"
proof -
  let ?T = "Txn init_etcd [CmpVersion (keyUserCtl ''bo'') CEq 0] [OpPut (keyUserCtl ''bo'') [1, 2 :: byte] 0 False False] []"
  have "(case ?T of Inr (r, d') \<Rightarrow> tr_Succeeded r | Inl e \<Rightarrow> False)" by code_simp
  then obtain r d' where T: "?T = Inr (r, d')" "tr_Succeeded r" by (auto split: sum.splits)
  obtain cli where cli: "demo_cli = Ok cli" using demo_cli_Ok by blast
  from encrypted_Txn [OF demo_crypto_ok default_prefix cli [unfolded demo_cli_def] demo_view, of "[CmpVersion (keyUserCtl ''bo'') CEq 0]"
      "[OpPut (keyUserCtl ''bo'') [1, 2 :: byte] 0 False False]" "[]"] T demo_stack_key cli
  show ?thesis by (auto simp: same_txn_def)
qed

text \<open>
  A watch of a key or of a prefix through the client never panics and delivers, in the clear, what the same watch
  of the plain store delivers: for every key the same events in the same order.
\<close>

lemma encrypted_Watch:
  assumes "crypto_ok g" "ns_prefix pfx" "MustIrcdEtcdClient g rnd etcd_cli pfx (Some (SymmetricKey aeskey)) = Ok cli"
    and "stack_view g aeskey pfx d D" "watch_fits (stack_key g aeskey) (stack_pfx g aeskey) key opts"
  shows "\<exists>L. cl_Watch cli D key opts r = Ok L \<and>
    (\<forall>k. filter (\<lambda>ev. ev_key ev = k) L = filter (\<lambda>ev. ev_key ev = k) (watch_events d key opts r))"
proof (rule stack_client [OF assms(1-3)])
  fix ke valid pf cl R
  assume "encoded_client ke valid pf cl R" and eqs: "cli = keyencode_cli cl ke" "stack_view g aeskey pfx = enc_view R ke valid"
    "stack_key g aeskey = valid" "stack_pfx g aeskey = pf"
  from encoded_client.client_Watch [OF this(1) assms(4,5) [unfolded eqs]] show ?thesis
    by (simp add: eqs keyencode_cli_def)
qed

text \<open>
  C26.  Isolation of the cluster: whatever requests go through a client of the server, encrypting or not, with any keys and ranges and any
  content of the cluster, they write no key that does not start with the prefix of the namespace, and log no event of such a key.
\<close>

theorem namespace_isolated:
  assumes "ns_prefix pfx" "MustIrcdEtcdClient g rnd etcd_cli pfx tlsinfo = Ok cli"
    and "cl_Txn cli D cmps succ fail = Ok (Inr (r, D')) \<or> cl_Do cli D req = Ok (Inr (r', D'))"
  shows "(\<forall>k. \<not> prefix pfx k \<longrightarrow> lookup D' k = lookup D k) \<and>
    (\<exists>evs. elog D' = elog D @ evs \<and> (\<forall>ev \<in> set evs. prefix pfx (ev_key ev)))"
  using stack_changes [OF assms(1,2)] assms(3) unfolding changes_by_def writes_inside_def range_append_prefix by blast

theorem namespace_isolated_witness:
  "\<exists>cli r D'. MustIrcdEtcdClient demo_crypto (\<lambda>i j. 0) etcd_cli ''/irc/'' None = Ok cli \<and>
     cl_Do cli init_etcd (OpPut ''/x'' [1] 0 False False) = Ok (Inr (r, D')) \<and> lookup D' ''/x'' = None \<and> lookup D' ''/irc//x'' \<noteq> None"
proof -
  obtain cli :: "(byte list etcd, byte list) Client" where cli: "MustIrcdEtcdClient demo_crypto (\<lambda>i j. 0) etcd_cli ''/irc/'' None = Ok cli"
    and c: "cli = namespace_cli etcd_cli ''/irc/''"
    by (simp add: MustIrcdEtcdClient_def)
  let ?P = "cl_Do (namespace_cli etcd_cli ''/irc/'') (init_etcd :: byte list etcd) (OpPut ''/x'' [1] 0 False False)"
  have "(case ?P of Ok (Inr (r, D)) \<Rightarrow> lookup D ''/irc//x'' \<noteq> None | _ \<Rightarrow> False)" by code_simp
  then obtain r D' where P: "?P = Ok (Inr (r, D'))" "lookup D' ''/irc//x'' \<noteq> None" by (auto split: outcome.splits sum.splits)
  from namespace_isolated [OF default_prefix cli, of init_etcd "[]" "[]" "[]" _ D' "OpPut ''/x'' [1] 0 False False" r] P c
  have "lookup D' ''/x'' = lookup init_etcd ''/x''" by auto
  then have "lookup D' ''/x'' = None" by (simp add: lookup_def current_def init_etcd_def)
  with P cli c show ?thesis by blast
qed

section \<open>Whole runs\<close>

text \<open>A request of any party through its client; leases go to the cluster.\<close>

fun cli_serve :: "('v etcd, 'v) Client \<Rightarrow> 'v request \<Rightarrow> 'v etcd \<Rightarrow> 'v etcd outcome" where
  "cli_serve cli (ReqTxn cmps succ fail) D =
     bind_outcome (cl_Txn cli D cmps succ fail) (\<lambda>r. Ok (case r of Inl e \<Rightarrow> D | Inr (resp, D') \<Rightarrow> D'))"
| "cli_serve cli (ReqOp req) D = bind_outcome (cl_Do cli D req) (\<lambda>r. Ok (case r of Inl e \<Rightarrow> D | Inr (resp, D') \<Rightarrow> D'))"
| "cli_serve cli (ReqGrant i) D = Ok (serve (ReqGrant i) D)"
| "cli_serve cli (ReqRevoke i) D = Ok (serve (ReqRevoke i) D)"

text \<open>A run: each request with the client that makes it, which has the random bytes of that request.\<close>

fun cli_serves :: "(('v etcd, 'v) Client \<times> 'v request) list \<Rightarrow> 'v etcd \<Rightarrow> 'v etcd outcome" where
  "cli_serves [] D = Ok D"
| "cli_serves ((cli, q) # qs) D = bind_outcome (cli_serve cli q D) (cli_serves qs)"

text \<open>The requests of a network: its keys and prefixes, and no revocation of a lease that others use.\<close>

fun req_fits :: "(string \<Rightarrow> bool) \<Rightarrow> (string \<Rightarrow> bool) \<Rightarrow> (int \<Rightarrow> bool) \<Rightarrow> 'v request \<Rightarrow> bool" where
  "req_fits valid pfx foreign (ReqTxn cmps succ fail) \<longleftrightarrow>
     list_all (valid \<circ> cmp_key) cmps \<and> list_all (op_fits valid pfx) succ \<and> list_all (op_fits valid pfx) fail"
| "req_fits valid pfx foreign (ReqOp req) \<longleftrightarrow> op_fits valid pfx req"
| "req_fits valid pfx foreign (ReqGrant i) \<longleftrightarrow> True"
| "req_fits valid pfx foreign (ReqRevoke i) \<longleftrightarrow> \<not> foreign i"

lemma stack_sorted: "stack_view g aeskey pfx d D \<Longrightarrow> snap_sorted (current D)"
  using ns_layer_sorted same.current_rel unfolding snap_rel_def by (elim stack_viewE) blast

lemma stack_Revoke_inside:
  assumes "stack_view g aeskey pfx d D" "\<not> foreign_lease pfx D i" "LeaseRevoke D i = Inr D'"
  shows "writes_inside ((@) pfx) D D'"
  using assms stack_sorted [OF assms(1)] by (intro LeaseRevoke_inside) (auto simp: foreign_lease_def range_append_prefix lookup_def map_of_sorted)

lemma stack_serve:
  assumes g: "crypto_ok g" "ns_prefix pfx" "MustIrcdEtcdClient g rnd etcd_cli pfx (Some (SymmetricKey aeskey)) = Ok cli"
    and v: "stack_view g aeskey pfx d D" and fit: "req_fits (stack_key g aeskey) (stack_pfx g aeskey) (foreign_lease pfx D) q"
  shows "\<exists>D'. cli_serve cli q D = Ok D' \<and> stack_view g aeskey pfx (serve q d) D' \<and> writes_inside ((@) pfx) D D'"
proof -
  have ch: "changes_by cli (writes_inside ((@) pfx))" by (rule stack_changes [OF g(2,3)])
  obtain ke valid pf cl R where ec: "encoded_client ke valid pf cl R" and eqs: "cli = keyencode_cli cl ke"
    "stack_view g aeskey pfx = enc_view R ke valid" "stack_key g aeskey = valid" "stack_pfx g aeskey = pf"
    by (rule stack_client [OF g])
  show ?thesis
  proof (cases q)
    case (ReqTxn cmps succ fail)
    with encoded_client.client_Txn [OF ec v [unfolded eqs], of cmps succ fail] fit v ch show ?thesis
      by (auto simp: eqs keyencode_cli_def changes_by_def writes_inside_refl split: sum.splits)
  next
    case (ReqOp req)
    with encoded_client.client_Do [OF ec v [unfolded eqs], of req] fit v ch show ?thesis
      by (auto simp: eqs keyencode_cli_def changes_by_def writes_inside_refl split: sum.splits)
  next
    case (ReqGrant i)
    have "LeaseGrant D i = Inr D' \<Longrightarrow> writes_inside ((@) pfx) D D'" for D'
      by (auto simp: LeaseGrant_def writes_inside_def lookup_def current_def split: if_splits)
    with ReqGrant stack_Grant [OF v, of i] v show ?thesis by (auto simp: writes_inside_refl split: sum.splits)
  next
    case (ReqRevoke i)
    with stack_Revoke [OF g(1) v, of i] stack_Revoke_inside [OF v, of i] fit v show ?thesis
      by (auto simp: writes_inside_refl split: sum.splits)
  qed
qed

lemma stack_run:
  assumes g: "crypto_ok g" "ns_prefix pfx"
  shows "stack_view g aeskey pfx d D \<Longrightarrow>
    \<forall>(cli, q) \<in> set qs. (\<exists>rnd. MustIrcdEtcdClient g rnd etcd_cli pfx (Some (SymmetricKey aeskey)) = Ok cli) \<and>
      req_fits (stack_key g aeskey) (stack_pfx g aeskey) (foreign_lease pfx D) q \<Longrightarrow>
    \<exists>D'. cli_serves qs D = Ok D' \<and> stack_view g aeskey pfx (fold serve (map snd qs) d) D' \<and> writes_inside ((@) pfx) D D'"
proof (induction qs arbitrary: d D)
  case (Cons p qs)
  then obtain cli q rnd where p: "p = (cli, q)" "MustIrcdEtcdClient g rnd etcd_cli pfx (Some (SymmetricKey aeskey)) = Ok cli"
    "req_fits (stack_key g aeskey) (stack_pfx g aeskey) (foreign_lease pfx D) q" by (cases p) auto
  from stack_serve [OF g p(2) Cons.prems(1) p(3)] obtain D1
    where D1: "cli_serve cli q D = Ok D1" "stack_view g aeskey pfx (serve q d) D1" "writes_inside ((@) pfx) D D1" by blast
  have "foreign_lease pfx D1 = foreign_lease pfx D" by (intro ext) (rule foreign_lease_kept [OF D1(3)])
  with Cons.IH [OF D1(2)] Cons.prems(2) obtain D' where "cli_serves qs D1 = Ok D'"
    "stack_view g aeskey pfx (fold serve (map snd qs) (serve q d)) D'" "writes_inside ((@) pfx) D1 D'" by auto
  with D1 show ?case by (auto intro: writes_inside_trans simp: p(1))
qed (simp add: writes_inside_refl)

text \<open>
  A whole run: any sequence of requests of the servers of a network, transactions, single operations, and the grant and
  loss of its leases, each through a client with its own random bytes, goes through without a panic, and leaves in the namespace the encrypted form of the store that the same
  sequence leaves in the clear; the rest of the cluster is as before.  So what is shown of the stores of the network holds of the
  clusters, read through the client.
\<close>

theorem encrypted_run:
  assumes "crypto_ok g" "ns_prefix pfx" "stack_view g aeskey pfx d D"
    and "\<forall>(cli, q) \<in> set qs. (\<exists>rnd. MustIrcdEtcdClient g rnd etcd_cli pfx (Some (SymmetricKey aeskey)) = Ok cli) \<and>
      req_fits (stack_key g aeskey) (stack_pfx g aeskey) (foreign_lease pfx D) q"
  shows "\<exists>D'. cli_serves qs D = Ok D' \<and> stack_view g aeskey pfx (fold serve (map snd qs) d) D' \<and>
    (\<forall>k. \<not> prefix pfx k \<longrightarrow> lookup D' k = lookup D k)"
  using stack_run [OF assms] unfolding writes_inside_def range_append_prefix by blast

definition demo_requests :: "byte list request list" where
  "demo_requests = [ReqGrant 7, ReqTxn [CmpVersion (keyUserCtl ''bo'') CEq 0] [OpPut (keyUserCtl ''bo'') [1] 7 False False] [],
     ReqOp (OpPut (keyUserCtl ''bo'') [2] 0 True False), ReqRevoke 7]"

theorem encrypted_run_witness:
  "\<exists>cli D'. demo_cli = Ok cli \<and> cli_serves (map (Pair cli) demo_requests) init_etcd = Ok D' \<and>
     stack_view demo_crypto demo_aeskey ''/irc/'' (fold serve demo_requests init_etcd) D'"
proof -
  obtain cli where cli: "demo_cli = Ok cli" using demo_cli_Ok by blast
  have "\<not> foreign_lease ''/irc/'' (init_etcd :: byte list etcd) 7" by (simp add: foreign_lease_def lookup_def current_def init_etcd_def)
  then have "req_fits (stack_key demo_crypto demo_aeskey) (stack_pfx demo_crypto demo_aeskey) (foreign_lease ''/irc/'' (init_etcd :: byte list etcd)) q"
    if "q \<in> set demo_requests" for q using that demo_stack_key by (auto simp: demo_requests_def)
  with encrypted_run [OF demo_crypto_ok default_prefix demo_view, of "map (Pair cli) demo_requests"] cli
  show ?thesis unfolding demo_cli_def by (auto simp: comp_def)
qed

section \<open>Keys\<close>

text \<open>
  Keys of the network survive encryption: every such key has an encoding, decoding the encoding gives
  the key back, and no other key of the network has the same encoding.
\<close>

theorem key_roundtrip:
  assumes "hke_ok hke" "secure_key hke k"
  shows "\<exists>e. keyEncoder_Encode (hmacEncoder hke) k = Ok e \<and> keyEncoder_Decode (hmacEncoder hke) e = Ok (Inr k) \<and>
    (\<forall>k'. secure_key hke k' \<and> keyEncoder_Encode (hmacEncoder hke) k' = Ok e \<longrightarrow> k' = k)"
proof -
  note contract = secure_contract [OF assms(1)]
  show ?thesis
    using kv_encoder.Encode [OF contract assms(2)] kv_encoder.Decode [OF contract assms(2)]
      kv_encoder.Encode [OF contract] kv_encoder.enc_eq [OF contract _ assms(2)]
    by (auto simp: secure_encoder_def keyEncoder_def)
qed

theorem key_roundtrip_witness:
  "\<exists>e. keyEncoder_Encode (hmacEncoder demo_hke) (keyUserCtl ''bo'') = Ok e \<and>
     keyEncoder_Decode (hmacEncoder demo_hke) e = Ok (Inr (keyUserCtl ''bo''))"
  using key_roundtrip [OF demo_hke_ok demo_key] by blast

text \<open>
  A decoded key is authentic: whatever bytes a store returns, if they decode to a key, then they begin with
  the tag of that key.
\<close>

lemma decoded_tag:
  assumes "hke_Decode hke e = Ok (Inr s)"
  shows "take (hke_Size hke) e = string_of (hke_h hke (bytes_of s))"
proof -
  from assms have "hke_h hke (bytes_of s) = take (hke_Size hke) (bytes_of e)"
    by (auto simp: hke_Decode_def Let_def split: if_splits)
  then have "string_of (hke_h hke (bytes_of s)) = take (hke_Size hke) (string_of (bytes_of e))"
    by (simp add: string_of_def take_map)
  then show ?thesis by simp
qed

lemma Sscanf_d_empty: "Sscanf_d [] = None"
  by code_simp

text \<open>
  C39.  Keys without a data segment break the wrapper: a nick that is empty or starts with a slash gives a key
  that is stored in the clear, and once it is stored, every read of it through the wrapper panics, whatever the
  inner encoder is.
\<close>

theorem slash_nick_panics:
  assumes "n = [] \<or> hd n = CHR ''/''" "kv_Put etcd_cli (keyEncoder ke) D (keyUserCtl n) v l ign prev = Ok (Inr (x, D'))"
  shows "kv_Get etcd_cli (keyEncoder ke) D' (keyUserCtl n) None 0 = Panic ''expected integer''"
proof -
  let ?k = "keyUserCtl n"
  have k: "?k = mk_key ''user'' ''ctl'' [] n" by (simp add: keyUserCtl_def mk_key_def)
  have h: "key_head ''user'' ''ctl''" "rest_ok n" using assms(1) by (auto simp: key_head_def rest_ok_def)
  have enc: "ke_Encode (keyEncoder ke) ?k = Ok ?k"
    using keyEncoder_Encode_no_data [OF h] by (simp add: keyEncoder_def k)
  have dec: "ke_Decode (keyEncoder ke) ?k = Panic ''expected integer''"
    using splitKey_mk_key [OF h(1) _ h(2), of "[]"] Sscanf_d_empty
    by (simp add: keyEncoder_def keyEncoder_Decode_def k numeral_3_eq_3)
  obtain l' where D': "D' = tx_end D (tx_put (revision D + 1) ?k v l' (current D, []))"
    by (rule kv_Put_store [OF enc assms(2)])
  let ?S = "filter (\<lambda>p. in_range ?k None (fst p)) (current D')"
  have "?k \<in> fst ` set (current D')"
    by (simp add: D' tx_put_def Let_def tx_end_def current_def fst_set_snap_put)
  then obtain p ps where p: "?S = p # ps" by (cases ?S) (force simp: filter_empty_conv in_range_def)+
  then have "p \<in> set ?S" by simp
  then have "fst p = ?k" by (simp add: in_range_def)
  moreover have "?k \<noteq> []" by (simp add: keyUserCtl_def)
  ultimately show ?thesis
    by (simp add: kv_Get_def kv_Do_def enc_range_def enc DoOp_def tx_range_def p decGetResponse_def dec_kv_def
        must_decode_def dec etcd_cli_def on_response_def)
qed

theorem slash_nick_panics_witness:
  "\<exists>x D'. kv_Put etcd_cli (secure_encoder demo_hke) init_etcd (keyUserCtl ''/x'') (5 :: nat) 0 False False = Ok (Inr (x, D')) \<and>
     kv_Get etcd_cli (secure_encoder demo_hke) D' (keyUserCtl ''/x'') None 0 = Panic ''expected integer''"
proof -
  let ?P = "kv_Put etcd_cli (secure_encoder demo_hke) init_etcd (keyUserCtl ''/x'') (5 :: nat) 0 False False"
  have "(case ?P of Ok (Inr p) \<Rightarrow> True | _ \<Rightarrow> False)" by code_simp
  then obtain x D' where P: "?P = Ok (Inr (x, D'))" by (auto split: outcome.splits sum.splits)
  from slash_nick_panics [of "''/x''" "hmacEncoder demo_hke"] P show ?thesis by (auto simp: secure_encoder_def)
qed

end
