(* ===== verification/Etcd_Session.thy ===== *)
theory Etcd_Session
  imports Etcd_Store
begin

text \<open>
  \<^verbatim>\<open>session.go\<close>: the goroutine that keeps one etcd session for the whole server and makes a new one when
  it is lost, and the callers of \<^verbatim>\<open>Session()\<close> that run beside it.  The state machine has one step per
  access to shared state: a caller can be overtaken between reading the ready channel and
  reading the session.  Channels are numbered in the order in which they are made, and closing
  a closed channel is a crash.  Main results: no channel is closed twice, a caller that gets no
  error gets a session, and \<^verbatim>\<open>Close\<close> gets to its end, although it never revokes the lease.
\<close>

section \<open>State\<close>

text \<open>Where the goroutine of \<^verbatim>\<open>newEtcdSession\<close> stands.\<close>

datatype go_pc =
    Creating     \<comment> \<open>in \<^verbatim>\<open>NewSession\<close>\<close>
  | Retrying     \<comment> \<open>\<^verbatim>\<open>NewSession\<close> failed; waiting a second\<close>
  | Publishing   \<comment> \<open>\<^verbatim>\<open>es.s\<close> is set; about to close \<^verbatim>\<open>readyc\<close>\<close>
  | Serving      \<comment> \<open>waiting for the end of the session\<close>
  | Renewing     \<comment> \<open>the session is over; about to make a new \<^verbatim>\<open>readyc\<close>\<close>
  | Pausing      \<comment> \<open>waiting a second\<close>
  | Closing      \<comment> \<open>in the deferred function\<close>
  | Finished
  | Crashed

record etcdSession =
  es_s :: "int option"        \<comment> \<open>the lease of \<^verbatim>\<open>es.s\<close>\<close>
  es_readyc :: nat
  es_closed :: "nat list"     \<comment> \<open>closed ready channels\<close>
  es_next :: nat              \<comment> \<open>the number of the next channel\<close>
  es_done :: bool             \<comment> \<open>\<^verbatim>\<open>ctx\<close> is cancelled\<close>
  es_donec :: bool            \<comment> \<open>\<^verbatim>\<open>donec\<close> is closed\<close>
  es_pc :: go_pc

definition newEtcdSession :: etcdSession where
  "newEtcdSession = \<lparr> es_s = None, es_readyc = 0, es_closed = [], es_next = 1, es_done = False,
     es_donec = False, es_pc = Creating \<rparr>"

text \<open>A call of \<^verbatim>\<open>Session()\<close>: what it has read, and what it returns, the lease of the session (or nil) and
  whether \<^verbatim>\<open>ctx.Err()\<close> is an error.\<close>

datatype caller =
    CallStart
  | CallWait nat
  | CallTake
  | CallGot "int option"
  | CallReturn "int option" bool

section \<open>Steps of the goroutine\<close>

text \<open>\<^verbatim>\<open>close(es.readyc)\<close>\<close>

definition publish :: "etcdSession \<Rightarrow> etcdSession" where
  "publish es =
     (if es_readyc es \<in> set (es_closed es) then es\<lparr>es_pc := Crashed\<rparr>
      else es\<lparr>es_closed := es_readyc es # es_closed es, es_pc := Serving\<rparr>)"

text \<open>\<^verbatim>\<open>es.readyc = make(chan struct)\<close>\<close>

definition renew :: "etcdSession \<Rightarrow> etcdSession" where
  "renew es = es\<lparr>es_readyc := es_next es, es_next := es_next es + 1, es_pc := Pausing\<rparr>"

text \<open>\<^verbatim>\<open>close(es.donec)\<close>\<close>

definition finish :: "etcdSession \<Rightarrow> etcdSession" where
  "finish es = (if es_donec es then es\<lparr>es_pc := Crashed\<rparr> else es\<lparr>es_donec := True, es_pc := Finished\<rparr>)"

text \<open>
  \<^verbatim>\<open>es.s.Close()\<close> revokes the lease by a request under the context of the session, which is the context
  of the goroutine: a request under a cancelled context is not made.
\<close>

definition session_Close :: "bool \<Rightarrow> int \<Rightarrow> 'v etcd \<Rightarrow> 'v etcd" where
  "session_Close ctx_done l d =
     (if ctx_done then d else case LeaseRevoke d l of Inl e \<Rightarrow> d | Inr d' \<Rightarrow> d')"

text \<open>\<^verbatim>\<open>NewSession\<close> grants a lease and may still fail after that.\<close>

inductive es_step :: "'v etcd \<times> etcdSession \<Rightarrow> 'v etcd \<times> etcdSession \<Rightarrow> bool" where
  created: "es_pc es = Creating \<Longrightarrow> LeaseGrant d l = Inr d' \<Longrightarrow>
    es_step (d, es) (d', es\<lparr>es_s := Some l, es_pc := Publishing\<rparr>)"
| create_failed: "es_pc es = Creating \<Longrightarrow> d' = d \<or> LeaseGrant d l = Inr d' \<Longrightarrow>
    es_step (d, es) (d', es\<lparr>es_pc := Retrying\<rparr>)"
| retry: "es_pc es = Retrying \<Longrightarrow> es_step (d, es) (d, es\<lparr>es_pc := Creating\<rparr>)"
| published: "es_pc es = Publishing \<Longrightarrow> es_step (d, es) (d, publish es)"
| lost: "es_pc es = Serving \<Longrightarrow> es_step (d, es) (d, es\<lparr>es_pc := Renewing\<rparr>)"
| renewed: "es_pc es = Renewing \<Longrightarrow> es_step (d, es) (d, renew es)"
| paused: "es_pc es = Pausing \<Longrightarrow> es_step (d, es) (d, es\<lparr>es_pc := Creating\<rparr>)"
| stopped: "es_pc es \<in> {Retrying, Serving, Pausing} \<Longrightarrow> es_done es \<Longrightarrow>
    es_step (d, es) (d, es\<lparr>es_pc := Closing\<rparr>)"
| closed: "es_pc es = Closing \<Longrightarrow> d' = (case es_s es of None \<Rightarrow> d | Some l \<Rightarrow> session_Close (es_done es) l d) \<Longrightarrow>
    es_step (d, es) (d', finish es)"

inductive_cases es_stepE: "es_step (d, es) (d', es')"

text \<open>A caller of \<^verbatim>\<open>Session()\<close>: read \<^verbatim>\<open>readyc\<close>, wait for it or for the context, read \<^verbatim>\<open>s\<close>.\<close>

inductive call_step :: "etcdSession \<Rightarrow> caller \<Rightarrow> caller \<Rightarrow> bool" where
  call_rc: "call_step es CallStart (CallWait (es_readyc es))"
| call_ready: "rc \<in> set (es_closed es) \<Longrightarrow> call_step es (CallWait rc) CallTake"
| call_done: "es_done es \<Longrightarrow> call_step es (CallWait rc) (CallReturn None (es_done es))"
| call_take: "call_step es CallTake (CallGot (es_s es))"
| call_err: "call_step es (CallGot s) (CallReturn s (es_done es))"

inductive_cases call_stepE: "call_step es c c'"

text \<open>
  The whole: the goroutine, any number of callers, the \<^verbatim>\<open>cancel\<close> of \<^verbatim>\<open>Close\<close>, and other parties at the store.
\<close>

record 'v ses_system =
  sy_db :: "'v etcd"
  sy_es :: etcdSession
  sy_calls :: "caller list"

inductive ses_step :: "'v ses_system \<Rightarrow> 'v ses_system \<Rightarrow> bool" where
  by_go: "es_step (sy_db s, sy_es s) (d', es') \<Longrightarrow> ses_step s (s\<lparr>sy_db := d', sy_es := es'\<rparr>)"
| by_call: "i < length (sy_calls s) \<Longrightarrow> call_step (sy_es s) (sy_calls s ! i) c \<Longrightarrow>
    ses_step s (s\<lparr>sy_calls := (sy_calls s)[i := c]\<rparr>)"
| new_call: "ses_step s (s\<lparr>sy_calls := sy_calls s @ [CallStart]\<rparr>)"
| cancel: "ses_step s (s\<lparr>sy_es := (sy_es s)\<lparr>es_done := True\<rparr>\<rparr>)"
| others: "ses_step s (s\<lparr>sy_db := serve q (sy_db s)\<rparr>)"

inductive_simps ses_step_iff: "ses_step s s'"

inductive ses_reachable :: "'v ses_system \<Rightarrow> bool" where
  ses_init: "ses_reachable \<lparr> sy_db = d, sy_es = newEtcdSession, sy_calls = [] \<rparr>"
| ses_next: "ses_reachable s \<Longrightarrow> ses_step s s' \<Longrightarrow> ses_reachable s'"

section \<open>The invariant\<close>

text \<open>
  The current channel is open exactly until the session is published, and all channels before it are closed; once
  a channel is closed a session has been set, under a real lease; and the goroutine stops only when the context
  is cancelled.
\<close>

definition chans_ok :: "nat \<Rightarrow> nat \<Rightarrow> nat list \<Rightarrow> bool" where
  "chans_ok next cur cls \<longleftrightarrow> {..<next} = insert cur (set cls)"

lemma chans_ok_publish [simp]: "chans_ok n c (c # cls) = chans_ok n c cls"
  by (simp add: chans_ok_def)

lemma chans_ok_renew: "chans_ok n c cls \<Longrightarrow> c \<in> set cls \<Longrightarrow> chans_ok (Suc n) n cls \<and> n \<notin> set cls"
  by (auto simp: chans_ok_def lessThan_Suc insert_absorb dest: sym)

lemma chans_ok_cur: "chans_ok n c cls \<Longrightarrow> c < n"
  by (auto simp: chans_ok_def set_eq_iff)

lemma chans_ok_old: "chans_ok n c cls \<Longrightarrow> x < n \<Longrightarrow> x \<notin> set cls \<Longrightarrow> x = c"
  by (auto simp: chans_ok_def set_eq_iff)

definition go_inv :: "etcdSession \<Rightarrow> bool" where
  "go_inv es \<longleftrightarrow>
     chans_ok (es_next es) (es_readyc es) (es_closed es) \<and>
     (es_pc es \<in> {Creating, Retrying, Publishing, Pausing} \<longrightarrow> es_readyc es \<notin> set (es_closed es)) \<and>
     (es_pc es \<in> {Serving, Renewing} \<longrightarrow> es_readyc es \<in> set (es_closed es)) \<and>
     (es_closed es \<noteq> [] \<or> es_pc es \<in> {Publishing, Serving, Renewing, Pausing} \<longrightarrow> es_s es \<noteq> None) \<and>
     (es_pc es \<in> {Closing, Finished} \<longrightarrow> es_done es) \<and> (es_donec es \<longleftrightarrow> es_pc es = Finished) \<and>
     es_pc es \<noteq> Crashed \<and> es_s es \<noteq> Some 0"

fun call_inv :: "etcdSession \<Rightarrow> caller \<Rightarrow> bool" where
  "call_inv es CallStart \<longleftrightarrow> True"
| "call_inv es (CallWait rc) \<longleftrightarrow> rc < es_next es"
| "call_inv es CallTake \<longleftrightarrow> es_s es \<noteq> None"
| "call_inv es (CallGot s) \<longleftrightarrow> s \<noteq> None \<and> s \<noteq> Some 0"
| "call_inv es (CallReturn s err) \<longleftrightarrow> (s \<noteq> None \<or> err) \<and> s \<noteq> Some 0"

lemma go_inv_init: "go_inv newEtcdSession"
  by (simp add: go_inv_def newEtcdSession_def chans_ok_def lessThan_Suc)

lemma go_inv_step:
  assumes "es_step (d, es) (d', es')" "go_inv es"
  shows "go_inv es'"
  using assms(1)
proof cases
  case published
  with assms(2) show ?thesis by (simp add: go_inv_def publish_def)
next
  case renewed
  with assms(2) show ?thesis using chans_ok_renew by (auto simp: go_inv_def renew_def)
qed (use assms(2) in \<open>auto simp: go_inv_def finish_def LeaseGrant_def split: if_splits\<close>)

text \<open>What never decreases: a session is never taken away, and channels are only added.\<close>

definition es_le :: "etcdSession \<Rightarrow> etcdSession \<Rightarrow> bool" where
  "es_le es es' \<longleftrightarrow> (es_s es \<noteq> None \<longrightarrow> es_s es' \<noteq> None) \<and> es_next es \<le> es_next es'"

lemma es_step_le: "es_step (d, es) (d', es') \<Longrightarrow> es_le es es'"
  by (erule es_stepE) (auto simp: es_le_def publish_def renew_def finish_def)

lemma call_inv_mono: "es_le es es' \<Longrightarrow> call_inv es c \<Longrightarrow> call_inv es' c"
  by (cases c) (auto simp: es_le_def)

lemma call_inv_step: "call_step es c c' \<Longrightarrow> go_inv es \<Longrightarrow> call_inv es c \<Longrightarrow> call_inv es c'"
  by (erule call_stepE) (auto simp: go_inv_def dest: chans_ok_cur)

lemma ses_inv:
  "ses_reachable s \<Longrightarrow> go_inv (sy_es s) \<and> (\<forall>c \<in> set (sy_calls s). call_inv (sy_es s) c)"
proof (induction rule: ses_reachable.induct)
  case (ses_next s s')
  then have g: "go_inv (sy_es s)" and c: "\<And>x. x \<in> set (sy_calls s) \<Longrightarrow> call_inv (sy_es s) x" by auto
  from ses_next.hyps(2) show ?case
  proof cases
    case (by_go d' es')
    with g c show ?thesis
      using go_inv_step [OF by_go(2)] call_inv_mono [OF es_step_le [OF by_go(2)]] by auto
  next
    case (by_call i x)
    then have "call_inv (sy_es s) x" using call_inv_step g c by (metis nth_mem)
    with by_call g c show ?thesis using set_update_subset_insert [of "sy_calls s" i x] by auto
  next
    case cancel
    with g c call_inv_mono [of "sy_es s" "(sy_es s)\<lparr>es_done := True\<rparr>"] show ?thesis
      by (auto simp: go_inv_def es_le_def)
  qed (use g c in auto)
qed (simp add: go_inv_init)

text \<open>The goroutine can always go to its end once the context is cancelled.\<close>

fun go_todo :: "go_pc \<Rightarrow> nat" where
  "go_todo Finished = 0"
| "go_todo Crashed = 0"
| "go_todo Closing = 1"
| "go_todo Retrying = 2"
| "go_todo Serving = 2"
| "go_todo Pausing = 2"
| "go_todo _ = 3"

interpretation go_end: progress es_step "\<lambda>(d, es). go_inv es \<and> es_done es" "\<lambda>(d, es). es_pc es = Finished" "\<lambda>(d, es). go_todo (es_pc es)"
proof
  fix s :: "'v etcd \<times> etcdSession"
  assume *: "case s of (d, es) \<Rightarrow> go_inv es \<and> es_done es" "\<not> (case s of (d, es) \<Rightarrow> es_pc es = Finished)"
  obtain d es where s: "s = (d, es)" by fastforce
  with * have inv: "go_inv es" "es_done es" "es_pc es \<noteq> Finished" by auto
  have "\<exists>d' es'. es_step (d, es) (d', es') \<and> es_done es' \<and> go_todo (es_pc es') < go_todo (es_pc es)"
  proof (cases "es_pc es")
    case Creating
    with create_failed [OF Creating, of d d] inv show ?thesis by fastforce
  next
    case Publishing
    with published [OF Publishing, of d] inv show ?thesis by (fastforce simp: publish_def go_inv_def)
  next
    case Renewing
    with renewed [OF Renewing, of d] inv show ?thesis by (fastforce simp: renew_def)
  next
    case Closing
    with closed [OF Closing refl, of d] inv show ?thesis by (fastforce simp: finish_def go_inv_def)
  qed (use inv stopped [of es d] in \<open>fastforce simp: go_inv_def\<close>)+
  with inv(1) show "\<exists>s'. es_step s s' \<and> (case s' of (d, es) \<Rightarrow> go_inv es \<and> es_done es) \<and>
      (case s' of (d, es) \<Rightarrow> go_todo (es_pc es)) < (case s of (d, es) \<Rightarrow> go_todo (es_pc es))"
    using go_inv_step by (fastforce simp: s)
qed

section \<open>A run\<close>

text \<open>The first session is made under lease 7, a caller reads it, and the server is closed.\<close>

definition demo_es :: "go_pc \<Rightarrow> nat list \<Rightarrow> bool \<Rightarrow> etcdSession" where
  "demo_es pc cs dn = \<lparr> es_s = Some 7, es_readyc = 0, es_closed = cs, es_next = 1, es_done = dn,
     es_donec = (pc = Finished), es_pc = pc \<rparr>"

definition demo_ses :: "etcdSession \<Rightarrow> caller list \<Rightarrow> nat ses_system" where
  "demo_ses es cs = \<lparr> sy_db = init_etcd\<lparr>leases := [7]\<rparr>, sy_es = es, sy_calls = cs \<rparr>"

lemma demo_ses_reachable:
  "ses_reachable (demo_ses (demo_es Serving [0] False) [CallStart])"
  "ses_reachable (demo_ses (demo_es Serving [0] False) [CallReturn (Some 7) False])"
  "ses_reachable (demo_ses (demo_es Closing [0] True) [CallReturn (Some 7) False])"
proof -
  note defs = demo_ses_def demo_es_def newEtcdSession_def
  let ?s0 = "\<lparr> sy_db = init_etcd, sy_es = newEtcdSession, sy_calls = [] \<rparr> :: nat ses_system"
  have "LeaseGrant (init_etcd :: nat etcd) 7 = Inr (init_etcd\<lparr>leases := [7]\<rparr>)" by (simp add: LeaseGrant_def init_etcd_def)
  then have "ses_step ?s0 (demo_ses (demo_es Publishing [] False) [])"
    using by_go [of ?s0, OF created] by (simp add: defs)
  then have r: "ses_reachable (demo_ses (demo_es Publishing [] False) [])" by (rule ses_next [OF ses_init])
  have "ses_step (demo_ses (demo_es Publishing [] False) []) (demo_ses (demo_es Serving [0] False) [])"
    using by_go [of "demo_ses (demo_es Publishing [] False) []", OF published] by (simp add: defs publish_def)
  note r = ses_next [OF r this]
  have "ses_step (demo_ses es cs) (demo_ses es (cs @ [CallStart]))" for es cs
    using new_call [of "demo_ses es cs"] by (simp add: demo_ses_def)
  from ses_next [OF r this] show s: "ses_reachable (demo_ses (demo_es Serving [0] False) [CallStart])" by simp
  have call: "ses_step (demo_ses es [c]) (demo_ses es [c'])" if "call_step es c c'" for es c c'
    using by_call [of 0 "demo_ses es [c]" c'] that by (simp add: demo_ses_def)
  have "call_step (demo_es Serving [0] False) CallStart (CallWait 0)"
    "call_step (demo_es Serving [0] False) (CallWait 0) CallTake"
    "call_step (demo_es Serving [0] False) CallTake (CallGot (Some 7))"
    "call_step (demo_es Serving [0] False) (CallGot (Some 7)) (CallReturn (Some 7) False)"
    using call_rc [of "demo_es Serving [0] False"] call_ready [of 0 "demo_es Serving [0] False"]
      call_take [of "demo_es Serving [0] False"] call_err [of "demo_es Serving [0] False" "Some 7"] by (simp_all add: demo_es_def)
  from this [THEN call] s show t: "ses_reachable (demo_ses (demo_es Serving [0] False) [CallReturn (Some 7) False])"
    by (blast intro: ses_next)
  have "ses_step (demo_ses (demo_es Serving [0] False) cs) (demo_ses (demo_es Serving [0] True) cs)" for cs
    using cancel [of "demo_ses (demo_es Serving [0] False) cs"] by (simp add: defs)
  moreover have "ses_step (demo_ses (demo_es Serving [0] True) cs) (demo_ses (demo_es Closing [0] True) cs)" for cs
    using by_go [of "demo_ses (demo_es Serving [0] True) cs", OF stopped] by (simp add: defs)
  ultimately show "ses_reachable (demo_ses (demo_es Closing [0] True) [CallReturn (Some 7) False])"
    using t by (blast intro: ses_next)
qed

section \<open>Properties\<close>



text \<open>
  C32.  No wakeup is lost: a caller of \<^verbatim>\<open>Session()\<close> that waits is blocked only while the server has no
  session and is not being closed.
\<close>

theorem session_no_lost_wakeup:
  assumes "ses_reachable s" "c \<in> set (sy_calls s)" "\<not> (\<exists>c'. call_step (sy_es s) c c')" "\<not> (\<exists>x err. c = CallReturn x err)"
  shows "c = CallWait (es_readyc (sy_es s)) \<and> \<not> es_done (sy_es s) \<and>
    es_pc (sy_es s) \<in> {Creating, Retrying, Publishing, Pausing}"
proof (cases c)
  case (CallWait rc)
  with assms(3) have w: "rc \<notin> set (es_closed (sy_es s))" "\<not> es_done (sy_es s)"
    by (auto intro: call_step.intros)
  have g: "go_inv (sy_es s)" and "rc < es_next (sy_es s)" using ses_inv [OF assms(1)] assms(2) CallWait by fastforce+
  then have "rc = es_readyc (sy_es s)" using w(1) chans_ok_old unfolding go_inv_def by blast
  with g w CallWait show ?thesis by (cases "es_pc (sy_es s)") (simp_all add: go_inv_def)
qed (use assms(3,4) in \<open>auto intro: call_step.intros\<close>)

theorem session_no_lost_wakeup_witness:
  "\<not> (\<exists>c'. call_step newEtcdSession (CallWait 0) c') \<and> es_pc newEtcdSession \<in> {Creating, Retrying, Publishing, Pausing}"
proof -
  define s where "s c = (\<lparr> sy_db = init_etcd, sy_es = newEtcdSession, sy_calls = c \<rparr> :: nat ses_system)" for c
  have "ses_step (s []) (s [CallStart])" using new_call [of "s []"] by (simp add: s_def)
  moreover have "ses_step (s [CallStart]) (s [CallWait 0])"
    using by_call [of 0 "s [CallStart]" "CallWait 0"] call_rc [of newEtcdSession] by (simp add: s_def newEtcdSession_def)
  ultimately have r: "ses_reachable (s [CallWait 0])" using ses_init unfolding s_def by (blast intro: ses_next)
  have b: "\<not> (\<exists>c'. call_step newEtcdSession (CallWait 0) c')" by (auto elim: call_stepE simp: newEtcdSession_def)
  from session_no_lost_wakeup [OF r, of "CallWait 0"] b show ?thesis by (simp add: s_def)
qed

text \<open>
  \<^verbatim>\<open>Close\<close> returns: once the context is cancelled, the goroutine can always run to its end by at most
  three steps of its own, and then \<^verbatim>\<open>donec\<close> is closed.
\<close>

theorem session_close_ends:
  assumes "ses_reachable s" "es_done (sy_es s)"
  shows "\<exists>n d' es'. n \<le> 3 \<and> (es_step ^^ n) (sy_db s, sy_es s) (d', es') \<and> es_pc es' = Finished \<and> es_donec es'"
proof -
  have inv: "go_inv (sy_es s)" using ses_inv [OF assms(1)] by simp
  then have "go_todo (es_pc (sy_es s)) \<le> 3" by (cases "es_pc (sy_es s)") simp_all
  moreover from go_end.ends_within [of "(sy_db s, sy_es s)"] inv assms(2) obtain n d' es' where
    n: "n \<le> go_todo (es_pc (sy_es s))" "(es_step ^^ n) (sy_db s, sy_es s) (d', es')" "go_inv es'" "es_pc es' = Finished" by auto
  ultimately show ?thesis by (intro exI [of _ n] exI [of _ d'] exI [of _ es']) (simp add: go_inv_def)
qed

theorem session_close_ends_witness:
  "\<exists>n d' es'. n \<le> 3 \<and> (es_step ^^ n) (init_etcd\<lparr>leases := [7]\<rparr> :: nat etcd, demo_es Closing [0] True) (d', es') \<and> es_pc es' = Finished"
  using session_close_ends [OF demo_ses_reachable(3)] by (auto simp: demo_ses_def demo_es_def)

text \<open>
  \<^verbatim>\<open>Close\<close> never gives the lease back: the deferred function runs only when the context is cancelled, and its request
  to revoke the lease is made under that context; the store and with it the users of the session stay until
  the lease expires.
\<close>

theorem session_close_keeps_lease:
  assumes "ses_reachable s" "es_pc (sy_es s) = Closing" "es_step (sy_db s, sy_es s) (d', es')"
  shows "d' = sy_db s \<and> es_pc es' = Finished"
proof -
  have "go_inv (sy_es s)" using ses_inv [OF assms(1)] by blast
  with assms(2) have "es_done (sy_es s)" "\<not> es_donec (sy_es s)" by (simp_all add: go_inv_def)
  with assms(2,3) show ?thesis by (auto elim!: es_stepE simp: finish_def session_Close_def split: option.splits)
qed

theorem session_close_keeps_lease_witness:
  "\<exists>es'. es_step (init_etcd\<lparr>leases := [7]\<rparr> :: nat etcd, demo_es Closing [0] True) (init_etcd\<lparr>leases := [7]\<rparr>, es') \<and> es_pc es' = Finished"
proof -
  let ?s = "demo_ses (demo_es Closing [0] True) [CallReturn (Some 7) False]"
  have st: "es_step (sy_db ?s, sy_es ?s)
      (case es_s (sy_es ?s) of None \<Rightarrow> sy_db ?s | Some l \<Rightarrow> session_Close (es_done (sy_es ?s)) l (sy_db ?s), finish (sy_es ?s))"
    by (rule closed) (simp_all add: demo_ses_def demo_es_def)
  have "es_pc (sy_es ?s) = Closing" by (simp add: demo_ses_def demo_es_def)
  from session_close_keeps_lease [OF demo_ses_reachable(3) this st] st
  have "es_step (sy_db ?s, sy_es ?s) (sy_db ?s, finish (sy_es ?s)) \<and> es_pc (finish (sy_es ?s)) = Finished" by simp
  then show ?thesis unfolding demo_ses_def ses_system.simps by blast
qed

end
