(* ===== verification/Irc_Conn.thy ===== *)
theory Irc_Conn
  imports Irc_Values
begin

text \<open>
  \<^verbatim>\<open>conn.go\<close>: a connection with a reader goroutine, a writer goroutine, the goroutines that send and receive through
  it, and \<^verbatim>\<open>Close\<close>.  The state machine has one step per channel operation, and one per message decoded from or encoded to the
  socket; sending on a closed channel or closing a channel twice is a crash.  The socket is a list of what \<^verbatim>\<open>Decode\<close>
  will return, a message, nil for a line that does not parse, or an error; once it is closed, \<^verbatim>\<open>Decode\<close> and \<^verbatim>\<open>Encode\<close> fail.  Main results: messages are received in
  the order in which they arrived, neither goroutine ever blocks on reporting its error, and \<^verbatim>\<open>Close\<close> gets to its end without a crash.
\<close>

section \<open>State\<close>

datatype read_pc = RDecode | RError error | RPush "Message option" | RDone

datatype write_pc = WSelect | WEncode Message | WError error | WDone

datatype close_pc = Open | Stopped | Hungup | Closed | Crashed

record Conn =
  c_in :: "(error + Message option) list"   \<comment> \<open>what the socket still holds\<close>
  c_rch :: "Message option list"            \<comment> \<open>the buffered channel \<^verbatim>\<open>rch\<close>\<close>
  c_errc :: "error list"                    \<comment> \<open>the buffered channel \<^verbatim>\<open>errc\<close>\<close>
  c_sent :: "Message list"                  \<comment> \<open>what was written to the socket\<close>
  c_got :: "Message option list"            \<comment> \<open>what was received from \<^verbatim>\<open>rch\<close>\<close>
  c_read :: read_pc
  c_write :: write_pc
  c_close :: close_pc

definition rch_cap :: nat where "rch_cap = 1024"
definition errc_cap :: nat where "errc_cap = 2"

definition NewConn :: "(error + Message option) list \<Rightarrow> Conn" where
  "NewConn ins = \<lparr> c_in = ins, c_rch = [], c_errc = [], c_sent = [], c_got = [], c_read = RDecode, c_write = WSelect, c_close = Open \<rparr>"

text \<open>\<^verbatim>\<open>close(c.stopc)\<close>, then \<^verbatim>\<open>c.rwc.Close()\<close>, then \<^verbatim>\<open>c.wg.Wait()\<close> and \<^verbatim>\<open>close(c.errc)\<close>.\<close>

definition stopped :: "Conn \<Rightarrow> bool" where "stopped c \<longleftrightarrow> c_close c \<noteq> Open"
definition hungup :: "Conn \<Rightarrow> bool" where "hungup c \<longleftrightarrow> c_close c \<in> {Hungup, Closed, Crashed}"

text \<open>\<^verbatim>\<open>c.errc <- err\<close>, possible while there is room: on a closed channel it is a crash.\<close>

definition report :: "error \<Rightarrow> Conn \<Rightarrow> Conn" where
  "report e c = (if c_close c = Closed then c\<lparr>c_close := Crashed\<rparr> else c\<lparr>c_errc := c_errc c @ [e]\<rparr>)"

section \<open>Steps\<close>

inductive read_step :: "Conn \<Rightarrow> Conn \<Rightarrow> bool" where
  decode_ok: "c_read c = RDecode \<Longrightarrow> \<not> hungup c \<Longrightarrow> c_in c = Inr d # ins \<Longrightarrow> read_step c (c\<lparr>c_in := ins, c_read := RPush d\<rparr>)"
| decode_err: "c_read c = RDecode \<Longrightarrow> \<not> hungup c \<Longrightarrow> c_in c = Inl e # ins \<Longrightarrow> read_step c (c\<lparr>c_in := ins, c_read := RError e\<rparr>)"
| decode_closed: "c_read c = RDecode \<Longrightarrow> hungup c \<Longrightarrow> read_step c (c\<lparr>c_read := RError (ErrConn ''closed'')\<rparr>)"
| read_error: "c_read c = RError e \<Longrightarrow> length (c_errc c) < errc_cap \<Longrightarrow> read_step c ((report e c)\<lparr>c_read := RDone\<rparr>)"
| read_push: "c_read c = RPush d \<Longrightarrow> length (c_rch c) < rch_cap \<Longrightarrow> read_step c (c\<lparr>c_rch := c_rch c @ [d], c_read := RDecode\<rparr>)"
| read_stop: "c_read c = RPush d \<Longrightarrow> stopped c \<Longrightarrow> read_step c (c\<lparr>c_read := RDone\<rparr>)"

text \<open>\<open>write_take\<close> is the rendezvous on the unbuffered \<^verbatim>\<open>wch\<close> with a \<^verbatim>\<open>SendMsg\<close>.\<close>

inductive write_step :: "Conn \<Rightarrow> Conn \<Rightarrow> bool" where
  write_take: "c_write c = WSelect \<Longrightarrow> write_step c (c\<lparr>c_write := WEncode m\<rparr>)"
| write_ok: "c_write c = WEncode m \<Longrightarrow> \<not> hungup c \<Longrightarrow> write_step c (c\<lparr>c_sent := c_sent c @ [m], c_write := WSelect\<rparr>)"
| write_err: "c_write c = WEncode m \<Longrightarrow> write_step c (c\<lparr>c_write := WError e\<rparr>)"
| write_error: "c_write c = WError e \<Longrightarrow> length (c_errc c) < errc_cap \<Longrightarrow> write_step c ((report e c)\<lparr>c_write := WDone\<rparr>)"
| write_stop: "c_write c = WSelect \<Longrightarrow> stopped c \<Longrightarrow> write_step c (c\<lparr>c_write := WDone\<rparr>)"

inductive close_step :: "Conn \<Rightarrow> Conn \<Rightarrow> bool" where
  close_stopc: "c_close c = Open \<Longrightarrow> close_step c (c\<lparr>c_close := Stopped\<rparr>)"
| close_rwc: "c_close c = Stopped \<Longrightarrow> close_step c (c\<lparr>c_close := Hungup\<rparr>)"
| close_errc: "c_close c = Hungup \<Longrightarrow> c_read c = RDone \<Longrightarrow> c_write c = WDone \<Longrightarrow> close_step c (c\<lparr>c_close := Closed\<rparr>)"

text \<open>The users of the connection: receive a message or an error, or write past the writer (\<^verbatim>\<open>SendMsgSync\<close>).\<close>

inductive use_step :: "Conn \<Rightarrow> Conn \<Rightarrow> bool" where
  receive: "c_rch c = d # ds \<Longrightarrow> use_step c (c\<lparr>c_rch := ds, c_got := c_got c @ [d]\<rparr>)"
| receive_err: "c_errc c = e # es \<Longrightarrow> use_step c (c\<lparr>c_errc := es\<rparr>)"
| send_sync: "\<not> hungup c \<Longrightarrow> use_step c (c\<lparr>c_sent := c_sent c @ [m]\<rparr>)"

definition conn_step :: "Conn \<Rightarrow> Conn \<Rightarrow> bool" where
  "conn_step c c' \<longleftrightarrow> read_step c c' \<or> write_step c c' \<or> close_step c c' \<or> use_step c c'"

inductive conn_reachable :: "(error + Message option) list \<Rightarrow> Conn \<Rightarrow> bool" for ins where
  conn_init: "conn_reachable ins (NewConn ins)"
| conn_next: "conn_reachable ins c \<Longrightarrow> conn_step c c' \<Longrightarrow> conn_reachable ins c'"

section \<open>The invariant\<close>

text \<open>How many errors a goroutine can have reported.\<close>

definition reports :: "Conn \<Rightarrow> nat" where
  "reports c = (if c_read c = RDone then 1 else 0) + (if c_write c = WDone then 1 else 0)"

definition pending :: "Conn \<Rightarrow> Message option list" where
  "pending c = (case c_read c of RPush d \<Rightarrow> [d] | _ \<Rightarrow> [])"

definition received :: "Conn \<Rightarrow> Message option list" where
  "received c = c_got c @ c_rch c @ pending c"

definition conn_inv :: "(error + Message option) list \<Rightarrow> Conn \<Rightarrow> bool" where
  "conn_inv ins c \<longleftrightarrow> length (c_errc c) \<le> reports c \<and> length (c_rch c) \<le> rch_cap \<and> c_close c \<noteq> Crashed \<and>
     (c_close c = Closed \<longrightarrow> c_read c = RDone \<and> c_write c = WDone) \<and>
     (c_read c \<notin> {RDone} \<and> (\<forall>e. c_read c \<noteq> RError e) \<longrightarrow> ins = map Inr (received c) @ c_in c) \<and>
     (\<exists>rest. ins = map Inr (received c) @ rest)"

lemma inv_read:
  assumes "read_step c c'" "conn_inv ins c"
  shows "conn_inv ins c'"
  using assms(1)
proof cases
  case (read_stop d)
  with assms(2) show ?thesis by (auto simp: conn_inv_def reports_def received_def pending_def)
qed (use assms(2) in \<open>auto simp: conn_inv_def reports_def received_def pending_def report_def\<close>)

lemma inv_write: "write_step c c' \<Longrightarrow> conn_inv ins c \<Longrightarrow> conn_inv ins c'"
  by (erule write_step.cases) (auto simp: conn_inv_def reports_def received_def pending_def report_def)

lemma inv_close: "close_step c c' \<Longrightarrow> conn_inv ins c \<Longrightarrow> conn_inv ins c'"
  by (erule close_step.cases) (auto simp: conn_inv_def reports_def received_def pending_def)

lemma inv_use: "use_step c c' \<Longrightarrow> conn_inv ins c \<Longrightarrow> conn_inv ins c'"
  by (erule use_step.cases) (auto simp: conn_inv_def reports_def received_def pending_def)

lemma reachable_conn_inv: "conn_reachable ins c \<Longrightarrow> conn_inv ins c"
proof (induction rule: conn_reachable.induct)
  case conn_init
  show ?case by (simp add: conn_inv_def NewConn_def reports_def received_def pending_def)
next
  case (conn_next c c')
  then show ?case unfolding conn_step_def using inv_read inv_write inv_close inv_use by blast
qed

section \<open>Properties\<close>

definition demo_msg :: "Message option" where
  "demo_msg = Some \<lparr> mPrefix = None, mCommand = ''PING'', mParams = [''x''] \<rparr>"

text \<open>The reader has decoded a message and pushed it, the user has received it, and \<^verbatim>\<open>Close\<close> has begun.\<close>

lemma demo_conn_reachable:
  "conn_reachable [Inr demo_msg] ((NewConn [Inr demo_msg])\<lparr>c_in := [], c_got := [demo_msg], c_close := Stopped\<rparr>)"
proof -
  let ?c = "NewConn [Inr demo_msg]"
  have "conn_step ?c (?c\<lparr>c_in := [], c_read := RPush demo_msg\<rparr>)"
    unfolding conn_step_def using decode_ok [of ?c demo_msg "[]"] by (simp add: NewConn_def hungup_def)
  note r = conn_next [OF conn_init this]
  let ?c = "(NewConn [Inr demo_msg])\<lparr>c_in := [], c_read := RPush demo_msg\<rparr>"
  have "conn_step ?c (?c\<lparr>c_rch := [demo_msg], c_read := RDecode\<rparr>)"
    unfolding conn_step_def using read_push [of ?c demo_msg] by (simp add: NewConn_def rch_cap_def)
  note r = conn_next [OF r this]
  let ?c = "?c\<lparr>c_rch := [demo_msg], c_read := RDecode\<rparr>"
  have "conn_step ?c (?c\<lparr>c_rch := [], c_got := [demo_msg]\<rparr>)"
    unfolding conn_step_def using receive [of ?c demo_msg "[]"] by (simp add: NewConn_def)
  note r = conn_next [OF r this]
  let ?c = "?c\<lparr>c_rch := [], c_got := [demo_msg]\<rparr>"
  have "conn_step ?c (?c\<lparr>c_close := Stopped\<rparr>)"
    unfolding conn_step_def using close_stopc [of ?c] by (simp add: NewConn_def)
  from conn_next [OF r this] show ?thesis by (simp add: NewConn_def)
qed



text \<open>What is left of a \<^verbatim>\<open>Close\<close> that has begun: its own steps, and those of the reader and the writer.\<close>

fun read_todo :: "read_pc \<Rightarrow> nat" where
  "read_todo RDecode = 2" | "read_todo (RError e) = 1" | "read_todo (RPush d) = 1" | "read_todo RDone = 0"

fun write_todo :: "write_pc \<Rightarrow> nat" where
  "write_todo WSelect = 1" | "write_todo (WEncode m) = 2" | "write_todo (WError e) = 1" | "write_todo WDone = 0"

fun close_todo :: "close_pc \<Rightarrow> nat" where
  "close_todo Stopped = 2" | "close_todo Hungup = 1" | "close_todo _ = 0"

abbreviation own_step :: "Conn \<Rightarrow> Conn \<Rightarrow> bool" where
  "own_step \<equiv> sup read_step (sup write_step close_step)"

lemma read_advances:
  assumes "conn_inv ins c" "c_close c = Hungup" "c_read c \<noteq> RDone"
  shows "\<exists>c'. read_step c c' \<and> c_close c' = Hungup \<and> c_write c' = c_write c \<and> read_todo (c_read c') < read_todo (c_read c)"
proof (cases "c_read c")
  case RDecode
  with decode_closed [OF RDecode] assms(2) show ?thesis by (fastforce simp: hungup_def)
next
  case (RError e)
  with assms have "length (c_errc c) < errc_cap" by (simp add: conn_inv_def reports_def errc_cap_def split: if_splits)
  with read_error [OF RError] RError assms(2) show ?thesis by (fastforce simp: report_def)
next
  case (RPush d)
  with read_stop [OF RPush] assms(2) show ?thesis by (fastforce simp: stopped_def)
qed (use assms in simp)

lemma write_advances:
  assumes "conn_inv ins c" "c_close c = Hungup" "c_write c \<noteq> WDone"
  shows "\<exists>c'. write_step c c' \<and> c_close c' = Hungup \<and> c_read c' = c_read c \<and> write_todo (c_write c') < write_todo (c_write c)"
proof (cases "c_write c")
  case WSelect
  with write_stop [OF WSelect] assms(2) show ?thesis by (fastforce simp: stopped_def)
next
  case (WEncode m)
  with write_err [OF WEncode, of "ErrConn ''closed''"] assms(2) show ?thesis by fastforce
next
  case (WError e)
  with assms have "length (c_errc c) < errc_cap" by (simp add: conn_inv_def reports_def errc_cap_def split: if_splits)
  with write_error [OF WError] WError assms(2) show ?thesis by (fastforce simp: report_def)
qed (use assms in simp)

interpretation conn_close: progress own_step "\<lambda>c. conn_inv ins c \<and> c_close c \<noteq> Open" "\<lambda>c. c_close c = Closed"
    "\<lambda>c. read_todo (c_read c) + write_todo (c_write c) + close_todo (c_close c)" for ins
proof
  fix c assume c: "conn_inv ins c \<and> c_close c \<noteq> Open" "c_close c \<noteq> Closed"
  then have inv: "conn_inv ins c" and "c_close c \<in> {Stopped, Hungup}" by (cases "c_close c"; simp add: conn_inv_def)+
  then consider (stop) "c_close c = Stopped" | (reads) "c_close c = Hungup" "c_read c \<noteq> RDone"
    | (writes) "c_close c = Hungup" "c_write c \<noteq> WDone" | (errc) "c_close c = Hungup" "c_read c = RDone" "c_write c = WDone" by auto
  then show "\<exists>c'. own_step c c' \<and> (conn_inv ins c' \<and> c_close c' \<noteq> Open) \<and>
      read_todo (c_read c') + write_todo (c_write c') + close_todo (c_close c') <
      read_todo (c_read c) + write_todo (c_write c) + close_todo (c_close c)"
  proof cases
    case stop
    then show ?thesis using close_rwc [OF stop] inv_close [OF close_rwc [OF stop] inv] by (intro exI [of _ "c\<lparr>c_close := Hungup\<rparr>"]) auto
  next
    case reads
    with read_advances [OF inv reads] inv_read [OF _ inv] show ?thesis by fastforce
  next
    case writes
    with write_advances [OF inv writes] inv_write [OF _ inv] show ?thesis by fastforce
  next
    case errc
    then show ?thesis using close_errc [OF errc] inv_close [OF close_errc [OF errc] inv] by (intro exI [of _ "c\<lparr>c_close := Closed\<rparr>"]) auto
  qed
qed

text \<open>
  \<^verbatim>\<open>Close\<close> gets to its end: from every reachable state in which it has begun, the reader, the writer and
  \<^verbatim>\<open>Close\<close> itself can run, without help of the client or the users of the connection, to the state in which both goroutines are done and all channels are closed.
\<close>

theorem conn_close_ends:
  assumes "conn_reachable ins c" "c_close c \<noteq> Open"
  shows "\<exists>c'. (sup read_step (sup write_step close_step))\<^sup>*\<^sup>* c c' \<and> c_close c' = Closed \<and>
    c_read c' = RDone \<and> c_write c' = WDone"
  using conn_close.ends [of ins c] reachable_conn_inv [OF assms(1)] assms(2) by (auto simp: conn_inv_def)

theorem conn_close_ends_witness:
  "\<exists>c'. (sup read_step (sup write_step close_step))\<^sup>*\<^sup>* ((NewConn [Inr demo_msg])\<lparr>c_in := [], c_got := [demo_msg], c_close := Stopped\<rparr>) c' \<and>
     c_close c' = Closed"
  using conn_close_ends [OF demo_conn_reachable] by auto

end
