(* ===== verification/Irc_Main.thy ===== *)
theory Irc_Main
  imports Client_Stack Irc_Server Ircdctl
begin

text \<open>
  The entry points: \<^verbatim>\<open>cmd/etcdircd/main.go\<close>, \<^verbatim>\<open>internal/util/config.go\<close>, the rest of \<^verbatim>\<open>internal/util/client.go\<close>, and the flags
  and the client of \<^verbatim>\<open>cmd/ircdctl\<close>.  \<open>main_start\<close> is everything that \<^verbatim>\<open>main\<close> does before it serves: it panics, or it gives the configuration, the listener and the
  client with which the server runs.  Reading files, YAML, opening sockets, loading certificates, dialling etcd and negotiating the key are
  fields of the environment.
\<close>

section \<open>Configuration files\<close>

record IrcCfg =
  ic_Config :: Config
  EtcdPrefix :: string
  EtcdCryptoKeyFile :: string
  EtcdCryptoCertFile :: string
  EtcdCryptoCAFile :: string
  IrcdKeyFile :: string
  IrcdCertFile :: string
  IrcdCAFile :: string
  IrcdClientCerts :: bool
  IrcdDebugTeeDir :: string

record TLSInfo =
  KeyFile :: string
  CertFile :: string
  CAFile :: string

text \<open>A configuration of the etcd client: the endpoints of the default, or what a YAML file gives.\<close>

datatype 'y etcd_Config = Endpoints "string list" | Yaml_Config 'y

record ('s, 'y) os_env =
  ioutil_ReadFile :: "string \<Rightarrow> error + byte list"
  yaml_Unmarshal :: "byte list \<Rightarrow> IrcCfg \<Rightarrow> error + IrcCfg"
  net_Listen :: "string \<Rightarrow> error option"
  ServerConfig :: "TLSInfo \<Rightarrow> error option"
  etcdyaml_NewConfig :: "string \<Rightarrow> error + 'y"
  etcd_New :: "'y etcd_Config \<Rightarrow> error + ('s, byte list) Client"
  NewKeyExchange :: "TLSInfo \<Rightarrow> exchange"
  crypto :: go_crypto
  random :: "nat \<Rightarrow> random"

definition default_IrcCfg :: IrcCfg where
  "default_IrcCfg = \<lparr> ic_Config = NewConfig, EtcdPrefix = ''/irc/'', EtcdCryptoKeyFile = [], EtcdCryptoCertFile = [], EtcdCryptoCAFile = [],
     IrcdKeyFile = [], IrcdCertFile = [], IrcdCAFile = [], IrcdClientCerts = False, IrcdDebugTeeDir = [] \<rparr>"

definition NewIrcCfgFromFile :: "('s, 'y) os_env \<Rightarrow> string \<Rightarrow> error + IrcCfg" where
  "NewIrcCfgFromFile sys f =
     (if f = [] then Inr default_IrcCfg
      else case ioutil_ReadFile sys f of Inl err \<Rightarrow> Inl err | Inr b \<Rightarrow> yaml_Unmarshal sys b default_IrcCfg)"

definition MustEtcdClient :: "('s, 'y) os_env \<Rightarrow> string \<Rightarrow> ('s, byte list) Client outcome" where
  "MustEtcdClient sys etcdYamlPath =
     bind_outcome
       (if etcdYamlPath \<noteq> []
        then (case etcdyaml_NewConfig sys etcdYamlPath of Inl err \<Rightarrow> Panic ''config'' | Inr fcfg \<Rightarrow> Ok (Yaml_Config fcfg))
        else Ok (Endpoints [''http://localhost:2379'']))
       (\<lambda>etcdCfg. case etcd_New sys etcdCfg of Inl err \<Rightarrow> Panic ''client'' | Inr cli \<Rightarrow> Ok cli)"

definition etcd_tls :: "IrcCfg \<Rightarrow> TLSInfo" where
  "etcd_tls cfg = \<lparr> KeyFile = EtcdCryptoKeyFile cfg, CertFile = EtcdCryptoCertFile cfg, CAFile = EtcdCryptoCAFile cfg \<rparr>"

section \<open>The server\<close>

record flags =
  etcdYaml :: string
  ircYaml :: string
  listen :: string
  noEtcdCrypto :: bool
  noIRCTLS :: bool

datatype clientAuth = NoClientCert | RequireAndVerifyClientCert

text \<open>A listener and what is around it.\<close>

datatype listener = TCP string | TLS listener TLSInfo clientAuth | TeeListener listener string

record 's serving =
  sv_Config :: Config
  sv_ln :: listener
  sv_cli :: "('s, byte list) Client"

text \<open>A command line without arguments is the demo mode.\<close>

definition demo_mode :: "nat \<Rightarrow> flags \<Rightarrow> flags" where
  "demo_mode args fl = (if args = 1 then fl\<lparr>noEtcdCrypto := True, noIRCTLS := True\<rparr> else fl)"

definition tls_listener :: "('s, 'y) os_env \<Rightarrow> flags \<Rightarrow> IrcCfg \<Rightarrow> listener \<Rightarrow> listener outcome" where
  "tls_listener sys fl cfg ln =
     (if noIRCTLS fl then Ok ln
      else if IrcdKeyFile cfg = [] then Panic ''no IRC TLS defined''
      else let tlsinfo = \<lparr> KeyFile = IrcdKeyFile cfg, CertFile = IrcdCertFile cfg, CAFile = IrcdCAFile cfg \<rparr> in
        case ServerConfig sys tlsinfo of
          Some err \<Rightarrow> Panic ''tls''
        | None \<Rightarrow> Ok (TLS ln tlsinfo (if IrcdClientCerts cfg then RequireAndVerifyClientCert else NoClientCert)))"

definition main_start :: "('s, 'y) os_env \<Rightarrow> nat \<Rightarrow> flags \<Rightarrow> 's serving outcome" where
  "main_start sys args flags =
     (let fl = demo_mode args flags in
      case NewIrcCfgFromFile sys (ircYaml fl) of Inl err \<Rightarrow> Panic ''config'' | Inr ircCfg \<Rightarrow>
      if IrcdClientCerts ircCfg then Panic ''no support for ircd client certs'' else
      case net_Listen sys (listen fl) of Some lerr \<Rightarrow> Panic ''listen'' | None \<Rightarrow>
      bind_outcome (tls_listener sys fl ircCfg (TCP (listen fl))) (\<lambda>ln.
      let ln' = (if IrcdDebugTeeDir ircCfg \<noteq> [] then TeeListener ln (IrcdDebugTeeDir ircCfg) else ln) in
      bind_outcome (MustEtcdClient sys (etcdYaml fl)) (\<lambda>cli.
      let tlsinfo = (if noEtcdCrypto fl then None else Some (etcd_tls ircCfg)) in
      bind_outcome (MustIrcdEtcdClient (crypto sys) (random sys) cli (EtcdPrefix ircCfg) (map_option (NewKeyExchange sys) tlsinfo)) (\<lambda>scli.
      Ok \<lparr> sv_Config = ic_Config ircCfg, sv_ln = ln', sv_cli = scli \<rparr>))))"

section \<open>The tool\<close>

text \<open>The variables of \<^verbatim>\<open>ircdctl.go\<close>, and which flag is bound to which of them.\<close>

datatype flag_var = V_ConfigPath | V_DisableEtcdCrypto | V_Target | V_OperGlobal

record ctl_vars =
  flagConfigPath :: string
  flagEtcdConfigPath :: string
  flagDisableEtcdCrypto :: bool
  flagTarget :: string
  flagOperGlobal :: bool

datatype ctl_cmd = OperMk | OperRm | OperLs | Notice

definition persistent_flags :: "(string \<times> flag_var) list" where
  "persistent_flags = [(''etcdircd-yaml'', V_ConfigPath), (''etcdclient-yaml'', V_ConfigPath), (''disable-etcdcrypto'', V_DisableEtcdCrypto)]"

definition cmd_flags :: "ctl_cmd \<Rightarrow> (string \<times> flag_var) list" where
  "cmd_flags cmd = (case cmd of OperMk \<Rightarrow> [(''global'', V_OperGlobal)] | Notice \<Rightarrow> [(''target'', V_Target)] | _ \<Rightarrow> [])"

definition init_vars :: ctl_vars where
  "init_vars = \<lparr> flagConfigPath = [], flagEtcdConfigPath = [], flagDisableEtcdCrypto = False, flagTarget = [], flagOperGlobal = False \<rparr>"

text \<open>\<^verbatim>\<open>strconv.ParseBool\<close>; a boolean flag without a value is given as \<^verbatim>\<open>true\<close>.\<close>

definition ParseBool :: "string \<Rightarrow> bool option" where
  "ParseBool v =
     (if v \<in> set [''1'', ''t'', ''T'', ''true'', ''TRUE'', ''True''] then Some True
      else if v \<in> set [''0'', ''f'', ''F'', ''false'', ''FALSE'', ''False''] then Some False
      else None)"

fun set_var :: "flag_var \<Rightarrow> string \<Rightarrow> ctl_vars \<Rightarrow> ctl_vars option" where
  "set_var V_ConfigPath v x = Some (x\<lparr>flagConfigPath := v\<rparr>)"
| "set_var V_DisableEtcdCrypto v x = map_option (\<lambda>b. x\<lparr>flagDisableEtcdCrypto := b\<rparr>) (ParseBool v)"
| "set_var V_Target v x = Some (x\<lparr>flagTarget := v\<rparr>)"
| "set_var V_OperGlobal v x = map_option (\<lambda>b. x\<lparr>flagOperGlobal := b\<rparr>) (ParseBool v)"

text \<open>The flags of a command line in order, as names and values; an unknown flag or a bad value is an error.\<close>

fun parse_flags :: "(string \<times> flag_var) list \<Rightarrow> (string \<times> string) list \<Rightarrow> ctl_vars \<Rightarrow> ctl_vars option" where
  "parse_flags table [] x = Some x"
| "parse_flags table ((name, v) # given) x =
     (case map_of table name of None \<Rightarrow> None | Some var \<Rightarrow>
      case set_var var v x of None \<Rightarrow> None | Some x' \<Rightarrow> parse_flags table given x')"

definition mustClient :: "('s, 'y) os_env \<Rightarrow> ctl_vars \<Rightarrow> ('s, byte list) Client outcome" where
  "mustClient sys x =
     (case NewIrcCfgFromFile sys (flagConfigPath x) of Inl err \<Rightarrow> Exit 1 | Inr ircCfg \<Rightarrow>
      bind_outcome (MustEtcdClient sys (flagEtcdConfigPath x)) (\<lambda>cli.
      let tlsinfo = (if flagDisableEtcdCrypto x then None else Some (etcd_tls ircCfg)) in
      MustIrcdEtcdClient (crypto sys) (random sys) cli (EtcdPrefix ircCfg) (map_option (NewKeyExchange sys) tlsinfo)))"

text \<open>The commands check the number of their arguments before they make a client.\<close>

definition arg_count :: "ctl_cmd \<Rightarrow> nat \<Rightarrow> bool" where
  "arg_count cmd n = (case cmd of OperMk \<Rightarrow> n = 2 | OperRm \<Rightarrow> n = 1 | OperLs \<Rightarrow> True | Notice \<Rightarrow> n = 1)"

definition ctl_body :: "ctl_cmd \<Rightarrow> ctl_vars \<Rightarrow> string list \<Rightarrow> string list io" where
  "ctl_body cmd x args =
     (case cmd of
        OperMk \<Rightarrow> runOperMk (flagOperGlobal x) args
      | OperRm \<Rightarrow> runOperRm args
      | OperLs \<Rightarrow> runOperLs
      | Notice \<Rightarrow> runNotice (flagTarget x) args)"

definition ctl_main :: "('s, 'y) os_env \<Rightarrow> ctl_cmd \<Rightarrow> (string \<times> string) list \<Rightarrow> string list \<Rightarrow>
    (('s, byte list) Client \<times> string list io) outcome" where
  "ctl_main sys cmd given args =
     (case parse_flags (persistent_flags @ cmd_flags cmd) given init_vars of
        None \<Rightarrow> Exit 1
      | Some x \<Rightarrow>
          if \<not> arg_count cmd (length args) then Exit 1
          else bind_outcome (mustClient sys x) (\<lambda>cli. Ok (cli, ctl_body cmd x args)))"

section \<open>What a started server is\<close>

text \<open>The certificate under which a listener serves, if it does.\<close>

fun listener_tls :: "listener \<Rightarrow> (TLSInfo \<times> clientAuth) option" where
  "listener_tls (TCP addr) = None"
| "listener_tls (TLS ln info auth) = Some (info, auth)"
| "listener_tls (TeeListener ln dir) = listener_tls ln"

lemma main_startE:
  assumes "main_start sys args flags = Ok sv" "fl = demo_mode args flags"
  obtains cfg cli where "NewIrcCfgFromFile sys (ircYaml fl) = Inr cfg" "\<not> IrcdClientCerts cfg"
    "MustEtcdClient sys (etcdYaml fl) = Ok cli" "sv_Config sv = ic_Config cfg"
    "MustIrcdEtcdClient (crypto sys) (random sys) cli (EtcdPrefix cfg)
       (if noEtcdCrypto fl then None else Some (NewKeyExchange sys (etcd_tls cfg))) = Ok (sv_cli sv)"
    "\<exists>ln. tls_listener sys fl cfg (TCP (listen fl)) = Ok ln \<and> listener_tls (sv_ln sv) = listener_tls ln"
proof -
  from assms obtain cfg where c: "NewIrcCfgFromFile sys (ircYaml fl) = Inr cfg" "\<not> IrcdClientCerts cfg"
    by (auto simp: main_start_def Let_def split: sum.splits if_splits)
  with assms have "net_Listen sys (listen fl) = None" by (auto simp: main_start_def Let_def split: option.splits)
  with assms c that show thesis
    by (auto simp: main_start_def Let_def bind_outcome_Ok_iff split: if_splits)
qed

text \<open>A single put through the encrypting client, down to the cluster.\<close>

lemma stack_Put:
  assumes cli: "MustIrcdEtcdClient g rnd etcd_cli pfx (Some kx) = Ok cli"
    and put: "cl_Do cli D (OpPut key v l ign prev) = Ok (Inr (r, D'))"
  obtains aeskey b a e kv old where "kx = SymmetricKey aeskey" "aes_NewCipher g aeskey = Inr b" "cipher_NewGCM g b = Inr a"
    "keyEncoder_Encode (hmacEncoder (NewKeyEncoderHMAC g aeskey b)) key = Ok e"
    "elog D' = elog D @ [PutEvent (pfx @ e) kv old]" "kv_Value kv = aead_Encrypt a (rnd 0) v"
proof -
  let ?ns = "if pfx \<noteq> [] then namespace_cli etcd_cli pfx else etcd_cli"
  from cli obtain aeskey b a where k: "kx = SymmetricKey aeskey" "aes_NewCipher g aeskey = Inr b" "cipher_NewGCM g b = Inr a"
    and c: "cli = keyencode_cli (crypto_cli ?ns (aeadCipher a) rnd) (keyEncoder (hmacEncoder (NewKeyEncoderHMAC g aeskey b)))"
    by (auto simp: MustIrcdEtcdClient_def MustCrypto_def Let_def NewAESCipher_def split: exchange.splits sum.splits if_splits)
  let ?w = "aead_Encrypt a (rnd 0) v"
  from put obtain e r1 where e: "keyEncoder_Encode (hmacEncoder (NewKeyEncoderHMAC g aeskey b)) key = Ok e"
    and 1: "cl_Do ?ns D (OpPut e ?w l ign prev) = Ok (Inr (r1, D'))"
    by (auto simp: c keyencode_cli_def kv_Do_def crypto_cli_def crypto_Do_def enc_range_def keyEncoder_def aeadCipher_def bind_outcome_Ok_iff
        simp del: bind_outcome.simps dest!: on_response_Ok)
  then obtain r2 where "DoOp D (OpPut (pfx @ e) ?w l ign prev) = Inr (r2, D')"
    by (auto simp: namespace_cli_def ns_Do_def etcd_cli_def split: if_splits dest!: on_response_Ok)
  then obtain kv old where "elog D' = elog D @ [PutEvent (pfx @ e) kv old]" "kv_Value kv = ?w"
    by (auto simp: DoOp_def Let_def tx_end_def tx_put_def split: option.splits if_splits)
  with k e that show thesis by blast
qed

end
