(* ===== verification/Main_Correct.thy ===== *)
theory Main_Correct
  imports Irc_Main Encoded_Correct
begin

text \<open>
  What a server and the tool are once they have started: how they listen, where their data goes, and that they meet.
\<close>

section \<open>A small system\<close>

text \<open>One configuration file that names certificates, and a cluster at every endpoint.\<close>

definition demo_cfg :: IrcCfg where
  "demo_cfg = default_IrcCfg\<lparr>EtcdCryptoKeyFile := ''ek'', IrcdKeyFile := ''ik''\<rparr>"

definition demo_sys :: "(byte list etcd, unit) os_env" where
  "demo_sys = \<lparr> ioutil_ReadFile = (\<lambda>f. if f = ''irc.yaml'' then Inr [1] else Inl ErrEOF),
     yaml_Unmarshal = (\<lambda>b cfg. Inr demo_cfg), net_Listen = (\<lambda>a. None), ServerConfig = (\<lambda>t. None),
     etcdyaml_NewConfig = (\<lambda>f. Inr ()), etcd_New = (\<lambda>c. Inr etcd_cli), NewKeyExchange = (\<lambda>t. SymmetricKey demo_aeskey),
     crypto = demo_crypto, random = (\<lambda>i j. word_of_nat (i + j)) \<rparr>"

definition demo_flags :: flags where
  "demo_flags = \<lparr> etcdYaml = [], ircYaml = ''irc.yaml'', listen = ''127.0.0.1:6667'', noEtcdCrypto = False, noIRCTLS = False \<rparr>"

lemma demo_start: "\<exists>sv. main_start demo_sys 2 demo_flags = Ok sv"
  using demo_cipher
  by (auto simp: main_start_def demo_sys_def demo_flags_def demo_mode_def NewIrcCfgFromFile_def demo_cfg_def default_IrcCfg_def
      tls_listener_def MustEtcdClient_def MustIrcdEtcdClient_def MustCrypto_def Let_def)

section \<open>The server\<close>



section \<open>The tool\<close>

lemma parse_flags_etcd: "parse_flags table given x = Some y \<Longrightarrow> flagEtcdConfigPath y = flagEtcdConfigPath x"
proof (induction table given x rule: parse_flags.induct)
  case (2 table name v given x)
  then obtain var x' where x: "map_of table name = Some var" "set_var var v x = Some x'" "parse_flags table given x' = Some y"
    by (auto split: option.splits)
  moreover from x(2) have "flagEtcdConfigPath x' = flagEtcdConfigPath x" by (cases var) auto
  ultimately show ?case using "2.IH" by simp
qed simp

text \<open>
  The tool cannot be pointed at a cluster: whatever flags a command is given, \<^verbatim>\<open>--etcdclient-yaml\<close> among them, a command that runs talks to the
  default endpoint, since no flag is bound to the path of the etcd configuration.
\<close>

theorem tool_ignores_etcd_config:
  assumes "ctl_main sys cmd given args = Ok (cli, body)"
  shows "\<exists>base pfx tlsinfo. etcd_New sys (Endpoints [''http://localhost:2379'']) = Inr base \<and>
    MustIrcdEtcdClient (crypto sys) (random sys) base pfx tlsinfo = Ok cli"
proof -
  from assms obtain x where x: "parse_flags (persistent_flags @ cmd_flags cmd) given init_vars = Some x" "mustClient sys x = Ok cli"
    by (auto simp: ctl_main_def bind_outcome_Ok_iff split: option.splits if_splits)
  have e: "flagEtcdConfigPath x = []" using parse_flags_etcd [OF x(1)] by (simp add: init_vars_def)
  from x(2) obtain cfg base where "MustEtcdClient sys [] = Ok base" and cli: "MustIrcdEtcdClient (crypto sys) (random sys) base (EtcdPrefix cfg)
      (map_option (NewKeyExchange sys) (if flagDisableEtcdCrypto x then None else Some (etcd_tls cfg))) = Ok cli"
    by (auto simp: mustClient_def e Let_def bind_outcome_Ok_iff split: sum.splits)
  then have "etcd_New sys (Endpoints [''http://localhost:2379'']) = Inr base"
    by (auto simp: MustEtcdClient_def split: sum.splits)
  with cli show ?thesis by blast
qed

theorem tool_ignores_etcd_config_witness:
  "\<exists>cli body pfx tlsinfo. ctl_main demo_sys OperLs [(''etcdclient-yaml'', ''irc.yaml''), (''disable-etcdcrypto'', ''true'')] [] = Ok (cli, body) \<and>
     MustIrcdEtcdClient (crypto demo_sys) (random demo_sys) etcd_cli pfx tlsinfo = Ok cli"
proof -
  let ?C = "ctl_main demo_sys OperLs [(''etcdclient-yaml'', ''irc.yaml''), (''disable-etcdcrypto'', ''true'')] []"
  have "\<exists>p. ?C = Ok p"
    by (simp add: ctl_main_def persistent_flags_def cmd_flags_def init_vars_def ParseBool_def arg_count_def mustClient_def demo_sys_def
        NewIrcCfgFromFile_def MustEtcdClient_def MustIrcdEtcdClient_def)
  then obtain cli body where C: "?C = Ok (cli, body)" by auto
  from tool_ignores_etcd_config [OF C] C show ?thesis by (auto simp: demo_sys_def)
qed

text \<open>
  The tool and the server meet: with the configuration file of a running server, whose cluster is at the default endpoint,
  and with the encryption as the server has it, a command of the tool gets the same client as the server, so it acts on the same network.
\<close>

theorem tool_meets_server:
  assumes "main_start sys n fl = Ok sv" "n \<noteq> 1" "etcdYaml fl = []" "arg_count cmd (length args)"
    and "given = (''etcdircd-yaml'', ircYaml fl) # (if noEtcdCrypto fl then [(''disable-etcdcrypto'', ''true'')] else [])"
  shows "\<exists>body. ctl_main sys cmd given args = Ok (sv_cli sv, body)"
proof -
  have fl: "demo_mode n fl = fl" using assms(2) by (simp add: demo_mode_def)
  let ?x = "init_vars\<lparr>flagConfigPath := ircYaml fl, flagDisableEtcdCrypto := noEtcdCrypto fl\<rparr>"
  have x: "parse_flags (persistent_flags @ cmd_flags cmd) given init_vars = Some ?x"
    by (simp add: assms(5) persistent_flags_def init_vars_def ParseBool_def)
  from assms(1) obtain cfg cli where c: "NewIrcCfgFromFile sys (ircYaml fl) = Inr cfg" "MustEtcdClient sys (etcdYaml fl) = Ok cli"
    "MustIrcdEtcdClient (crypto sys) (random sys) cli (EtcdPrefix cfg)
       (if noEtcdCrypto fl then None else Some (NewKeyExchange sys (etcd_tls cfg))) = Ok (sv_cli sv)"
    by (rule main_startE [OF _ fl [symmetric]])
  then have "mustClient sys ?x = Ok (sv_cli sv)"
    using assms(3) by (simp add: mustClient_def init_vars_def Let_def split: if_splits)
  with x assms(4) show ?thesis by (simp add: ctl_main_def)
qed

theorem tool_meets_server_witness:
  "\<exists>sv body. main_start demo_sys 2 demo_flags = Ok sv \<and>
     ctl_main demo_sys Notice [(''etcdircd-yaml'', ''irc.yaml'')] [''hello''] = Ok (sv_cli sv, body)"
proof -
  obtain sv where sv: "main_start demo_sys 2 demo_flags = Ok sv" using demo_start by blast
  from tool_meets_server [OF sv, of Notice "[''hello'']"] sv show ?thesis by (auto simp: demo_flags_def arg_count_def)
qed

end
