(* ===== verification/Irc_Serve.thy ===== *)
theory Irc_Serve
  imports Irc_Prelude
begin

text \<open>
  The goroutines of a server: \<^verbatim>\<open>Serve\<close> and \<^verbatim>\<open>Close\<close> of \<^verbatim>\<open>server.go\<close>, the life of \<^verbatim>\<open>handleConn\<close> around its commands, and
  the watchers of a client with the \<^verbatim>\<open>Close\<close> of \<^verbatim>\<open>etcd_client.go\<close> that waits for them.  What the commands and the watchers do to the store is in
  other theories; here a step is one channel, context or wait group operation.  A step is \<^emph>\<open>helped\<close> if it needs something from outside: a new connection, an event of a watch, room in the
  socket, a session, or the end of a command loop.  Main results: \<^verbatim>\<open>Serve\<close> returns only when all its goroutines are done and then closes the session once; it gets there without help, unless
  a watcher writes to its socket.
\<close>

section \<open>State\<close>

datatype watcher_pc =
    WRange      \<comment> \<open>waiting for the watch channel\<close>
  | WSend       \<comment> \<open>in \<^verbatim>\<open>SendMsg\<close>, under the context of the client\<close>
  | WSync       \<comment> \<open>in \<^verbatim>\<open>SendMsgSync\<close>, writing to the socket\<close>
  | WSession    \<comment> \<open>in \<^verbatim>\<open>Session()\<close>, under the context of the server\<close>
  | WAfter      \<comment> \<open>the monitor has returned\<close>
  | WDrain      \<comment> \<open>draining the watch channel until it closes\<close>
  | WLeave      \<comment> \<open>about to call \<^verbatim>\<open>ec.wg.Done()\<close>\<close>
  | WDone

record watcher =
  w_pc :: watcher_pc
  w_user :: bool       \<comment> \<open>the watcher of the user, which cancels the client; the others watch a channel\<close>
  w_ctx :: bool        \<comment> \<open>the context of its channel is cancelled\<close>

datatype handler_pc =
    HRun        \<comment> \<open>in the handshake or the loop of \<^verbatim>\<open>handleConn\<close>\<close>
  | HCancel     \<comment> \<open>\<^verbatim>\<open>ec.cancel()\<close>\<close>
  | HWait       \<comment> \<open>\<^verbatim>\<open>ec.wg.Wait()\<close>\<close>
  | HClose      \<comment> \<open>\<^verbatim>\<open>c.Close()\<close>\<close>
  | HLeave      \<comment> \<open>\<^verbatim>\<open>wg.Done()\<close>\<close>
  | HEnded

record handler =
  h_pc :: handler_pc
  h_client :: bool
  h_ctx :: bool               \<comment> \<open>the context of the client is cancelled\<close>
  h_wg :: int                 \<comment> \<open>\<^verbatim>\<open>ec.wg\<close>\<close>
  h_ws :: "watcher list"
  h_closes :: nat             \<comment> \<open>how often the socket was closed\<close>

datatype serve_pc = Accepting | Waiting | ClosingSession | Returned | Crashed

record serve_state =
  sv_pc :: serve_pc
  sv_ctx :: bool              \<comment> \<open>the context of the etcd client is cancelled\<close>
  sv_wg :: int
  sv_hs :: "handler list"
  sv_ses :: nat               \<comment> \<open>how often the session was closed\<close>

definition init_serve :: serve_state where
  "init_serve = \<lparr> sv_pc = Accepting, sv_ctx = False, sv_wg = 0, sv_hs = [], sv_ses = 0 \<rparr>"

definition new_watcher :: "bool \<Rightarrow> watcher" where
  "new_watcher user = \<lparr> w_pc = WRange, w_user = user, w_ctx = False \<rparr>"

definition new_handler :: handler where
  "new_handler = \<lparr> h_pc = HRun, h_client = False, h_ctx = False, h_wg = 0, h_ws = [], h_closes = 0 \<rparr>"

section \<open>Steps\<close>

text \<open>A watcher, under a client context that is cancelled or not: \<^verbatim>\<open>monitorMsg\<close> and \<^verbatim>\<open>monitorPart\<close> are the steps before \<^term>\<open>WAfter\<close>.
  The watch channel closes when its context is cancelled.\<close>

inductive watch_step :: "bool \<Rightarrow> bool \<Rightarrow> watcher \<Rightarrow> watcher \<Rightarrow> bool" where
  w_event: "w_pc w = WRange \<Longrightarrow> p \<in> {WSend, WSync, WSession, WAfter} \<Longrightarrow> watch_step True ctx w (w\<lparr>w_pc := p\<rparr>)"
| w_closed: "w_pc w = WRange \<Longrightarrow> ctx \<or> w_ctx w \<Longrightarrow> watch_step False ctx w (w\<lparr>w_pc := WAfter\<rparr>)"
| w_sent: "w_pc w = WSend \<Longrightarrow> p \<in> {WRange, WAfter} \<Longrightarrow> watch_step True ctx w (w\<lparr>w_pc := p\<rparr>)"
| w_send_ctx: "w_pc w = WSend \<Longrightarrow> ctx \<Longrightarrow> watch_step False ctx w (w\<lparr>w_pc := WAfter\<rparr>)"
| w_synced: "w_pc w = WSync \<Longrightarrow> watch_step True ctx w (w\<lparr>w_pc := WAfter\<rparr>)"
| w_session: "w_pc w = WSession \<Longrightarrow> p \<in> {WRange, WSend, WAfter} \<Longrightarrow> watch_step True ctx w (w\<lparr>w_pc := p\<rparr>)"
| w_unwatch: "\<not> w_user w \<Longrightarrow> watch_step True ctx w (w\<lparr>w_ctx := True\<rparr>)"
| w_after: "w_pc w = WAfter \<Longrightarrow> \<not> w_user w \<Longrightarrow> watch_step False ctx w (w\<lparr>w_pc := WDrain\<rparr>)"
| w_drained: "w_pc w = WDrain \<Longrightarrow> ctx \<or> w_ctx w \<Longrightarrow> watch_step False ctx w (w\<lparr>w_pc := WLeave\<rparr>)"

text \<open>A handler, under the context of the etcd client: its watchers start while its commands run; \<open>h_abort\<close> is the end of a
  handshake that made a client under a cancelled context.\<close>

inductive handler_step :: "bool \<Rightarrow> bool \<Rightarrow> handler \<Rightarrow> handler \<Rightarrow> bool" where
  h_register: "h_pc h = HRun \<Longrightarrow> \<not> h_client h \<Longrightarrow>
    handler_step True ctx h (h\<lparr>h_client := True, h_wg := h_wg h + 1, h_ws := h_ws h @ [new_watcher True]\<rparr>)"
| h_join: "h_pc h = HRun \<Longrightarrow> h_client h \<Longrightarrow>
    handler_step True ctx h (h\<lparr>h_wg := h_wg h + 2, h_ws := h_ws h @ [new_watcher False, new_watcher False]\<rparr>)"
| h_refused: "h_pc h = HRun \<Longrightarrow> \<not> h_client h \<Longrightarrow> handler_step True ctx h (h\<lparr>h_pc := HClose\<rparr>)"
| h_abort: "h_pc h = HRun \<Longrightarrow> h_client h \<Longrightarrow> ctx \<Longrightarrow> handler_step True ctx h (h\<lparr>h_pc := HClose\<rparr>)"
| h_return: "h_pc h = HRun \<Longrightarrow> h_client h \<Longrightarrow> handler_step True ctx h (h\<lparr>h_pc := HCancel\<rparr>)"
| h_cancel: "h_pc h = HCancel \<Longrightarrow> handler_step False ctx h (h\<lparr>h_ctx := True, h_pc := HWait\<rparr>)"
| h_wait: "h_pc h = HWait \<Longrightarrow> h_wg h = 0 \<Longrightarrow> handler_step False ctx h (h\<lparr>h_pc := HClose\<rparr>)"
| h_close: "h_pc h = HClose \<Longrightarrow> handler_step False ctx h (h\<lparr>h_closes := h_closes h + 1, h_pc := HLeave\<rparr>)"
| h_watch: "i < length (h_ws h) \<Longrightarrow> watch_step b (ctx \<or> h_ctx h) (h_ws h ! i) w \<Longrightarrow> handler_step b ctx h (h\<lparr>h_ws := (h_ws h)[i := w]\<rparr>)"
| h_user_cancel: "i < length (h_ws h) \<Longrightarrow> w_pc (h_ws h ! i) = WAfter \<Longrightarrow> w_user (h_ws h ! i) \<Longrightarrow>
    handler_step False ctx h (h\<lparr>h_ctx := True, h_ws := (h_ws h)[i := (h_ws h ! i)\<lparr>w_pc := WDrain\<rparr>]\<rparr>)"
| h_watch_done: "i < length (h_ws h) \<Longrightarrow> w_pc (h_ws h ! i) = WLeave \<Longrightarrow>
    handler_step False ctx h (h\<lparr>h_wg := h_wg h - 1, h_ws := (h_ws h)[i := (h_ws h ! i)\<lparr>w_pc := WDone\<rparr>]\<rparr>)"

text \<open>The server; a command that panics ends the process.\<close>

inductive serve_step :: "bool \<Rightarrow> serve_state \<Rightarrow> serve_state \<Rightarrow> bool" where
  accept: "sv_pc s = Accepting \<Longrightarrow> serve_step True s (s\<lparr>sv_wg := sv_wg s + 1, sv_hs := sv_hs s @ [new_handler]\<rparr>)"
| accept_err: "sv_pc s = Accepting \<Longrightarrow> serve_step True s (s\<lparr>sv_pc := Waiting\<rparr>)"
| ctx_done: "sv_pc s \<noteq> Crashed \<Longrightarrow> serve_step True s (s\<lparr>sv_ctx := True\<rparr>)"
| handler: "sv_pc s \<noteq> Crashed \<Longrightarrow> i < length (sv_hs s) \<Longrightarrow> handler_step b (sv_ctx s) (sv_hs s ! i) h \<Longrightarrow>
    serve_step b s (s\<lparr>sv_hs := (sv_hs s)[i := h]\<rparr>)"
| panicked: "sv_pc s \<noteq> Crashed \<Longrightarrow> i < length (sv_hs s) \<Longrightarrow> h_pc (sv_hs s ! i) = HRun \<Longrightarrow> serve_step True s (s\<lparr>sv_pc := Crashed\<rparr>)"
| handler_done: "sv_pc s \<noteq> Crashed \<Longrightarrow> i < length (sv_hs s) \<Longrightarrow> h_pc (sv_hs s ! i) = HLeave \<Longrightarrow>
    serve_step False s (s\<lparr>sv_wg := sv_wg s - 1, sv_hs := (sv_hs s)[i := (sv_hs s ! i)\<lparr>h_pc := HEnded\<rparr>]\<rparr>)"
| waited: "sv_pc s = Waiting \<Longrightarrow> sv_wg s = 0 \<Longrightarrow> serve_step False s (s\<lparr>sv_pc := ClosingSession\<rparr>)"
| ses_closed: "sv_pc s = ClosingSession \<Longrightarrow> serve_step False s (s\<lparr>sv_ses := sv_ses s + 1, sv_pc := Returned\<rparr>)"

inductive_cases serve_stepE: "serve_step b s s'"

inductive serve_reachable :: "serve_state \<Rightarrow> bool" where
  serve_init: "serve_reachable init_serve"
| serve_next: "serve_reachable s \<Longrightarrow> serve_step b s s' \<Longrightarrow> serve_reachable s'"

section \<open>The invariant\<close>

text \<open>The wait groups count the goroutines that are not done; a handler that waited has no live watcher; the socket is closed once.\<close>

abbreviation w_ended :: "watcher \<Rightarrow> bool" where "w_ended w \<equiv> w_pc w = WDone"
abbreviation h_ended :: "handler \<Rightarrow> bool" where "h_ended h \<equiv> h_pc h = HEnded"

definition handler_inv :: "bool \<Rightarrow> handler \<Rightarrow> bool" where
  "handler_inv ctx h \<longleftrightarrow>
     h_wg h = int (live w_ended (h_ws h)) \<and>
     (h_pc h \<in> {HClose, HLeave, HEnded} \<longrightarrow> ctx \<or> live w_ended (h_ws h) = 0) \<and>
     (h_pc h = HWait \<longrightarrow> h_ctx h) \<and>
     h_closes h = (if h_pc h \<in> {HLeave, HEnded} then 1 else 0) \<and>
     (\<not> h_client h \<longrightarrow> h_ws h = [])"

definition serve_inv :: "serve_state \<Rightarrow> bool" where
  "serve_inv s \<longleftrightarrow>
     (\<forall>h \<in> set (sv_hs s). handler_inv (sv_ctx s) h) \<and>
     sv_wg s = int (live h_ended (sv_hs s)) \<and>
     (sv_pc s \<in> {ClosingSession, Returned} \<longrightarrow> live h_ended (sv_hs s) = 0) \<and>
     sv_ses s = (if sv_pc s = Returned then 1 else sv_ses s) \<and> (sv_pc s \<in> {Accepting, Waiting, ClosingSession} \<longrightarrow> sv_ses s = 0)"

lemma watch_not_done: "watch_step b ctx w w' \<Longrightarrow> w_ended w' = w_ended w"
  by (erule watch_step.cases) auto

lemma handler_step_inv:
  assumes "handler_step b ctx h h'" "handler_inv ctx h"
  shows "handler_inv ctx h' \<and> h_ended h' = h_ended h"
  using assms(1)
proof cases
  case (h_watch i w)
  then have "int (live w_ended ((h_ws h)[i := w])) = int (live w_ended (h_ws h))"
    using live_update [of i "h_ws h" w_ended w] watch_not_done by auto
  then show ?thesis using assms(2) h_watch by (auto simp: handler_inv_def)
next
  case (h_user_cancel i)
  then show ?thesis
    using assms(2) live_update [of i "h_ws h" w_ended "(h_ws h ! i)\<lparr>w_pc := WDrain\<rparr>"] by (auto simp: handler_inv_def)
next
  case (h_watch_done i)
  then have "int (live w_ended ((h_ws h)[i := (h_ws h ! i)\<lparr>w_pc := WDone\<rparr>])) = int (live w_ended (h_ws h)) - 1"
    using live_update [of i "h_ws h" w_ended "(h_ws h ! i)\<lparr>w_pc := WDone\<rparr>"] by simp
  then show ?thesis using assms(2) h_watch_done by (auto simp: handler_inv_def)
qed (use assms(2) in \<open>auto simp: handler_inv_def new_watcher_def live_def\<close>)

lemma handler_inv_ctx: "handler_inv ctx h \<Longrightarrow> handler_inv True h"
  by (auto simp: handler_inv_def)

lemma serve_step_inv:
  assumes "serve_step b s s'" "serve_inv s"
  shows "serve_inv s'"
  using assms(1)
proof cases
  case accept
  with assms(2) show ?thesis by (auto simp: serve_inv_def handler_inv_def new_handler_def live_def)
next
  case ctx_done
  with assms(2) handler_inv_ctx show ?thesis by (auto simp: serve_inv_def)
next
  case (handler i h)
  then have "handler_inv (sv_ctx s) h \<and> h_ended h = h_ended (sv_hs s ! i)" using assms(2) handler_step_inv by (auto simp: serve_inv_def)
  moreover from this have "int (live h_ended ((sv_hs s)[i := h])) = int (live h_ended (sv_hs s))"
    using live_update [of i "sv_hs s" h_ended h] handler by auto
  moreover have "set ((sv_hs s)[i := h]) \<subseteq> insert h (set (sv_hs s))" by (rule set_update_subset_insert)
  ultimately show ?thesis using assms(2) handler by (auto simp: serve_inv_def)
next
  case (handler_done i)
  let ?h = "(sv_hs s ! i)\<lparr>h_pc := HEnded\<rparr>"
  have "int (live h_ended ((sv_hs s)[i := ?h])) = int (live h_ended (sv_hs s)) - 1"
    using live_update [of i "sv_hs s" h_ended ?h] handler_done by simp
  moreover have "handler_inv (sv_ctx s) ?h" using assms(2) handler_done nth_mem by (fastforce simp: serve_inv_def handler_inv_def)
  moreover have "set ((sv_hs s)[i := ?h]) \<subseteq> insert ?h (set (sv_hs s))" by (rule set_update_subset_insert)
  ultimately show ?thesis using assms(2) handler_done by (auto simp: serve_inv_def)
qed (use assms(2) in \<open>auto simp: serve_inv_def\<close>)

lemma reachable_serve_inv: "serve_reachable s \<Longrightarrow> serve_inv s"
  by (induction rule: serve_reachable.induct) (auto simp: serve_step_inv, simp add: serve_inv_def init_serve_def live_def)

section \<open>Getting to the end\<close>

text \<open>What is left to do once no connection is accepted and no command runs.\<close>

fun w_todo :: "watcher_pc \<Rightarrow> nat" where
  "w_todo WAfter = 3" | "w_todo WDrain = 2" | "w_todo WLeave = 1" | "w_todo WDone = 0" | "w_todo _ = 4"

fun h_todo :: "handler_pc \<Rightarrow> nat" where
  "h_todo HRun = 5" | "h_todo HCancel = 4" | "h_todo HWait = 3" | "h_todo HClose = 2" | "h_todo HLeave = 1" | "h_todo HEnded = 0"

definition handler_todo :: "handler \<Rightarrow> nat" where
  "handler_todo h = h_todo (h_pc h) + sum_list (map (w_todo \<circ> w_pc) (h_ws h))"

fun serve_todo :: "serve_pc \<Rightarrow> nat" where
  "serve_todo Waiting = 2" | "serve_todo ClosingSession = 1" | "serve_todo _ = 0"

text \<open>No watcher waits for the socket or for a session, and the commands have ended.\<close>

definition handler_free :: "handler \<Rightarrow> bool" where
  "handler_free h \<longleftrightarrow> h_pc h \<noteq> HRun \<and> (\<forall>w \<in> set (h_ws h). w_pc w \<notin> {WSync, WSession})"

definition serve_free :: "serve_state \<Rightarrow> bool" where
  "serve_free s \<longleftrightarrow> sv_pc s \<in> {Waiting, ClosingSession, Returned} \<and> (\<forall>h \<in> set (sv_hs s). handler_free h)"

lemma watcher_advances:
  assumes "i < length (h_ws h)" "\<not> w_ended (h_ws h ! i)" "w_pc (h_ws h ! i) \<notin> {WSync, WSession}" "h_ctx h"
  shows "\<exists>w h'. handler_step False ctx h h' \<and> h_pc h' = h_pc h \<and> h_ws h' = (h_ws h)[i := w] \<and>
    w_pc w \<notin> {WSync, WSession} \<and> w_todo (w_pc w) < w_todo (w_pc (h_ws h ! i))"
proof (cases "w_pc (h_ws h ! i)")
  case WRange
  have "watch_step False (ctx \<or> h_ctx h) (h_ws h ! i) ((h_ws h ! i)\<lparr>w_pc := WAfter\<rparr>)" using assms(4) by (intro w_closed [OF WRange]) simp
  from h_watch [OF assms(1) this] WRange show ?thesis by fastforce
next
  case WSend
  have "watch_step False (ctx \<or> h_ctx h) (h_ws h ! i) ((h_ws h ! i)\<lparr>w_pc := WAfter\<rparr>)" using assms(4) by (intro w_send_ctx [OF WSend]) simp
  from h_watch [OF assms(1) this] WSend show ?thesis by fastforce
next
  case WAfter
  show ?thesis
  proof (cases "w_user (h_ws h ! i)")
    case True
    from h_user_cancel [OF assms(1) WAfter True] WAfter show ?thesis by fastforce
  next
    case False
    from h_watch [OF assms(1) w_after [OF WAfter False]] WAfter show ?thesis by fastforce
  qed
next
  case WDrain
  have "watch_step False (ctx \<or> h_ctx h) (h_ws h ! i) ((h_ws h ! i)\<lparr>w_pc := WLeave\<rparr>)" using assms(4) by (intro w_drained [OF WDrain]) simp
  from h_watch [OF assms(1) this] WDrain show ?thesis by fastforce
next
  case WLeave
  from h_watch_done [OF assms(1) WLeave] WLeave show ?thesis by fastforce
qed (use assms in auto)

lemma handler_advances:
  assumes inv: "handler_inv ctx h" and free: "handler_free h" and pc: "h_pc h \<notin> {HLeave, HEnded}"
  shows "\<exists>h'. handler_step False ctx h h' \<and> handler_free h' \<and> handler_todo h' < handler_todo h"
proof (cases "h_pc h")
  case HCancel
  with h_cancel [OF HCancel] free show ?thesis by (fastforce simp: handler_free_def handler_todo_def)
next
  case HClose
  with h_close [OF HClose] free show ?thesis by (fastforce simp: handler_free_def handler_todo_def)
next
  case HWait
  show ?thesis
  proof (cases "live w_ended (h_ws h) = 0")
    case True
    with inv have "h_wg h = 0" by (simp add: handler_inv_def)
    from h_wait [OF HWait this] HWait free show ?thesis by (fastforce simp: handler_free_def handler_todo_def)
  next
    case False
    then obtain i where i: "i < length (h_ws h)" "\<not> w_ended (h_ws h ! i)" by (auto simp: live_0 in_set_conv_nth)
    moreover have "w_pc (h_ws h ! i) \<notin> {WSync, WSession}" "h_ctx h" using i(1) free inv HWait by (auto simp: handler_free_def handler_inv_def)
    ultimately obtain w h' where h': "handler_step False ctx h h'" "h_pc h' = h_pc h" "h_ws h' = (h_ws h)[i := w]"
      "w_pc w \<notin> {WSync, WSession}" "w_todo (w_pc w) < w_todo (w_pc (h_ws h ! i))" using watcher_advances by blast
    have "handler_todo h' < handler_todo h"
      using sum_update_less [OF i(1), of "w_todo \<circ> w_pc" w] h'(2,3,5) by (simp add: handler_todo_def)
    moreover have "handler_free h'"
      using h'(2-4) free set_update_subset_insert [of "h_ws h" i w] by (auto simp: handler_free_def)
    ultimately show ?thesis using h'(1) by blast
  qed
qed (use free pc in \<open>auto simp: handler_free_def\<close>)

interpretation serve_end: progress "serve_step False" "\<lambda>s. serve_inv s \<and> serve_free s" "\<lambda>s. sv_pc s = Returned"
    "\<lambda>s. serve_todo (sv_pc s) + sum_list (map handler_todo (sv_hs s))"
proof
  fix s assume *: "serve_inv s \<and> serve_free s" "sv_pc s \<noteq> Returned"
  let ?goal = "\<lambda>s'. serve_step False s s' \<and> serve_free s' \<and>
    serve_todo (sv_pc s') + sum_list (map handler_todo (sv_hs s')) < serve_todo (sv_pc s) + sum_list (map handler_todo (sv_hs s))"
  have "\<exists>s'. ?goal s'"
  proof (cases "sv_pc s = Waiting \<and> sv_wg s \<noteq> 0")
    case True
    with * have "live h_ended (sv_hs s) \<noteq> 0" by (simp add: serve_inv_def)
    then obtain i where i: "i < length (sv_hs s)" "\<not> h_ended (sv_hs s ! i)" by (auto simp: live_0 in_set_conv_nth)
    then have h: "handler_inv (sv_ctx s) (sv_hs s ! i)" "handler_free (sv_hs s ! i)" using * by (auto simp: serve_inv_def serve_free_def)
    have upd: "?goal s'" if "serve_step False s s'" "sv_pc s' = sv_pc s" "sv_hs s' = (sv_hs s)[i := h']" "handler_free h'"
        "handler_todo h' < handler_todo (sv_hs s ! i)" for s' h'
      using that * sum_update_less [OF i(1), of handler_todo h'] set_update_subset_insert [of "sv_hs s" i h'] by (auto simp: serve_free_def)
    show ?thesis
    proof (cases "h_pc (sv_hs s ! i) = HLeave")
      case leave: True
      from upd [OF handler_done [OF _ i(1) leave]] True h(2) leave show ?thesis by (fastforce simp: handler_free_def handler_todo_def)
    next
      case False
      with i(2) obtain h' where "handler_step False (sv_ctx s) (sv_hs s ! i) h'" "handler_free h'" "handler_todo h' < handler_todo (sv_hs s ! i)"
        using handler_advances [OF h] by auto
      with upd [OF handler [OF _ i(1)]] True show ?thesis by fastforce
    qed
  next
    case False
    with * consider "sv_pc s = Waiting" "sv_wg s = 0" | "sv_pc s = ClosingSession" by (auto simp: serve_free_def)
    then show ?thesis
    proof cases
      case 1
      with waited [OF 1] * show ?thesis by (fastforce simp: serve_free_def)
    next
      case 2
      with ses_closed [OF 2] * show ?thesis by (fastforce simp: serve_free_def)
    qed
  qed
  with * show "\<exists>s'. serve_step False s s' \<and> (serve_inv s' \<and> serve_free s') \<and>
      serve_todo (sv_pc s') + sum_list (map handler_todo (sv_hs s')) < serve_todo (sv_pc s) + sum_list (map handler_todo (sv_hs s))"
    using serve_step_inv by blast
qed

section \<open>Properties\<close>

lemma reachable_steps: "(serve_step b)\<^sup>*\<^sup>* s s' \<Longrightarrow> serve_reachable s \<Longrightarrow> serve_reachable s'"
  by (induction rule: rtranclp_induct) (auto intro: serve_next)

text \<open>A connection that registered and ended while \<^verbatim>\<open>Accept\<close> failed; its watcher is at \<open>p\<close>.\<close>

definition demo_handler :: "handler_pc \<Rightarrow> watcher_pc \<Rightarrow> handler" where
  "demo_handler hp wp = new_handler\<lparr>h_pc := hp, h_client := True, h_wg := 1, h_ws := [(new_watcher True)\<lparr>w_pc := wp\<rparr>]\<rparr>"

definition demo_serve :: "serve_pc \<Rightarrow> handler \<Rightarrow> serve_state" where
  "demo_serve p h = init_serve\<lparr>sv_pc := p, sv_wg := 1, sv_hs := [h]\<rparr>"

lemma demo_serve_reachable:
  "serve_reachable (demo_serve Waiting (demo_handler HCancel WRange))"
  "serve_reachable (demo_serve Waiting (demo_handler HCancel WSync))"
proof -
  have h: "serve_reachable (demo_serve p h')" if "serve_reachable (demo_serve p h)" "handler_step b False h h'" "p \<noteq> Crashed" for p h h' b
    using serve_next [OF that(1) handler [of _ 0 b h']] that(2,3) by (simp add: demo_serve_def init_serve_def)
  have "serve_reachable (demo_serve Accepting new_handler)"
    using serve_next [OF serve_init accept] by (simp add: demo_serve_def init_serve_def)
  from h [OF this h_register [of new_handler]] have r: "serve_reachable (demo_serve Accepting (demo_handler HRun WRange))"
    by (simp add: demo_handler_def new_handler_def new_watcher_def)
  have wait: "serve_reachable (demo_serve Waiting h)" if "serve_reachable (demo_serve Accepting h)" for h
    using serve_next [OF that accept_err] by (simp add: demo_serve_def init_serve_def)
  have ret: "serve_reachable (demo_serve Waiting (demo_handler HCancel p))" if "serve_reachable (demo_serve Accepting (demo_handler HRun p))" for p
    using wait [OF h [OF that h_return]] by (simp add: demo_handler_def new_handler_def)
  from ret [OF r] show "serve_reachable (demo_serve Waiting (demo_handler HCancel WRange))" .
  have "watch_step True False (new_watcher True) ((new_watcher True)\<lparr>w_pc := WSync\<rparr>)" by (rule w_event) (simp_all add: new_watcher_def)
  then have "handler_step True False (demo_handler HRun WRange) (demo_handler HRun WSync)"
    using h_watch [of 0 "demo_handler HRun WRange" True False "(new_watcher True)\<lparr>w_pc := WSync\<rparr>"]
    by (simp add: demo_handler_def new_handler_def new_watcher_def)
  from ret [OF h [OF r this]] show "serve_reachable (demo_serve Waiting (demo_handler HCancel WSync))" by simp
qed


text \<open>
  C35.  \<^verbatim>\<open>Serve\<close> gets to its end: once \<^verbatim>\<open>Accept\<close> has failed and the command loops have ended, and while no watcher is writing to a socket or waiting for a
  session, the goroutines of the server get to the return of \<^verbatim>\<open>Serve\<close> without help from outside.
\<close>

theorem serve_ends:
  assumes "serve_reachable s" "serve_free s"
  shows "\<exists>s'. (serve_step False)\<^sup>*\<^sup>* s s' \<and> sv_pc s' = Returned"
  using serve_end.ends [of s] reachable_serve_inv [OF assms(1)] assms(2) by blast

theorem serve_ends_witness:
  "\<exists>s'. (serve_step False)\<^sup>*\<^sup>* (demo_serve Waiting (demo_handler HCancel WRange)) s' \<and> sv_pc s' = Returned"
  using serve_ends [OF demo_serve_reachable(1)]
  by (simp add: serve_free_def handler_free_def demo_serve_def demo_handler_def new_watcher_def init_serve_def new_handler_def)


text \<open>The state of a client whose \<^verbatim>\<open>Close\<close> waits for a watcher that writes to the socket.\<close>

definition stuck :: "nat \<Rightarrow> nat \<Rightarrow> serve_state \<Rightarrow> bool" where
  "stuck i j s \<longleftrightarrow> i < length (sv_hs s) \<and> j < length (h_ws (sv_hs s ! i)) \<and> h_pc (sv_hs s ! i) \<in> {HCancel, HWait} \<and>
     w_pc (h_ws (sv_hs s ! i) ! j) = WSync"

lemma stuck_handler:
  assumes "handler_step False ctx h h'" "handler_inv ctx h" "j < length (h_ws h)" "h_pc h \<in> {HCancel, HWait}" "w_pc (h_ws h ! j) = WSync"
  shows "j < length (h_ws h') \<and> h_pc h' \<in> {HCancel, HWait} \<and> w_pc (h_ws h' ! j) = WSync"
  using assms(1)
proof cases
  case (h_watch i w)
  have "\<not> watch_step False c v w" if "w_pc v = WSync" for c v by (auto elim: watch_step.cases simp: that)
  with h_watch assms(3-5) show ?thesis by (cases "i = j") auto
next
  case h_wait
  have "live w_ended (h_ws h) \<noteq> 0" unfolding live_0 using assms(5) nth_mem [OF assms(3)] by force
  with h_wait assms(2) show ?thesis by (simp add: handler_inv_def)
next
  case (h_user_cancel i)
  with assms(3-5) show ?thesis by (cases "i = j") auto
next
  case (h_watch_done i)
  with assms(3-5) show ?thesis by (cases "i = j") auto
qed (use assms(3-5) in auto)

lemma stuck_step:
  assumes "serve_step False s s'" "serve_inv s" "stuck i j s"
  shows "stuck i j s'"
  using assms(1)
proof cases
  case (handler k h)
  show ?thesis
  proof (cases "k = i")
    case True
    with handler assms(2,3) stuck_handler [of "sv_ctx s" "sv_hs s ! i" h j] show ?thesis
      by (auto simp: stuck_def serve_inv_def)
  qed (use handler assms(3) in \<open>auto simp: stuck_def\<close>)
next
  case (handler_done k)
  with assms(3) show ?thesis by (cases "k = i") (auto simp: stuck_def)
qed (use assms(3) in \<open>auto simp: stuck_def\<close>)

text \<open>
  C36.  A dead peer blocks the shutdown: while a watcher is in \<^verbatim>\<open>SendMsgSync\<close> of a connection whose loop has ended, the goroutines of
  the server by themselves never close its socket and \<^verbatim>\<open>Serve\<close> never returns, because \<^verbatim>\<open>Close\<close> of the client waits for the watcher before the socket is closed.
\<close>

theorem shutdown_blocked:
  assumes "serve_reachable s" "stuck i j s" "(serve_step False)\<^sup>*\<^sup>* s s'"
  shows "sv_pc s' \<noteq> Returned \<and> h_closes (sv_hs s' ! i) = 0"
proof -
  have "serve_inv s' \<and> stuck i j s'"
    using assms(3,2) reachable_serve_inv [OF assms(1)]
    by (induction rule: rtranclp_induct) (auto intro: serve_step_inv stuck_step)
  then show ?thesis
    by (auto simp: stuck_def serve_inv_def handler_inv_def live_0)
qed

theorem shutdown_blocked_witness:
  "sv_pc (demo_serve Waiting (demo_handler HCancel WSync)) \<noteq> Returned \<and> h_closes (sv_hs (demo_serve Waiting (demo_handler HCancel WSync)) ! 0) = 0"
  by (rule shutdown_blocked [OF demo_serve_reachable(2), of 0 0])
     (simp_all add: stuck_def demo_serve_def demo_handler_def init_serve_def new_handler_def)

end
