(* ===== verification/Irc_Wire.thy ===== *)
theory Irc_Wire
  imports Go_Strings Irc_Values
begin

text \<open>
  The wire format: parsing and printing of messages in the vendored \<^verbatim>\<open>sorcix/irc.v2\<close>, and its encoder and decoder of a stream of
  lines.  \<^verbatim>\<open>strings.ToUpper\<close> of a text that is not ASCII follows the tables of Unicode, which are an argument.  Main results: what is encoded
  is decoded again, also in sequence, and a message that was received is sent on as one line of at most 512 bytes.
\<close>

section \<open>Strings\<close>

abbreviation CR :: char where "CR \<equiv> CHR 0x0d"
abbreviation LF :: char where "LF \<equiv> CHR 0x0a"

definition cutset :: "char \<Rightarrow> bool" where
  "cutset c \<longleftrightarrow> c = CR \<or> c = LF"

definition TrimFunc :: "string \<Rightarrow> string" where
  "TrimFunc s = rev (dropWhile cutset (rev (dropWhile cutset s)))"

fun Index :: "string \<Rightarrow> string \<Rightarrow> nat option" where
  "Index s sub = (if HasPrefix s sub then Some 0 else case s of [] \<Rightarrow> None | c # cs \<Rightarrow> map_option Suc (Index cs sub))"

declare Index.simps [simp del]

definition upper_char :: "char \<Rightarrow> char" where
  "upper_char c = (if CHR ''a'' \<le> c \<and> c \<le> CHR ''z'' then char_of (of_char c - 32 :: nat) else c)"

definition ToUpper :: "(string \<Rightarrow> string) \<Rightarrow> string \<Rightarrow> string" where
  "ToUpper unicode s = (if list_all (\<lambda>c. c < CHR 0x80) s then map upper_char s else unicode s)"

section \<open>Prefixes\<close>

definition ParsePrefix :: "string \<Rightarrow> Prefix" where
  "ParsePrefix raw =
     (let user = (case IndexByte raw (CHR ''!'') of None \<Rightarrow> 0 | Some u \<Rightarrow> u);
          host = (case IndexByte raw (CHR ''@'') of None \<Rightarrow> 0 | Some h \<Rightarrow> h)
      in if 0 < user \<and> user < host
         then \<lparr> pName = take user raw, pUser = take (host - (user + 1)) (drop (user + 1) raw), pHost = drop (host + 1) raw \<rparr>
         else if 0 < user then \<lparr> pName = take user raw, pUser = drop (user + 1) raw, pHost = [] \<rparr>
         else if 0 < host then \<lparr> pName = take host raw, pUser = [], pHost = drop (host + 1) raw \<rparr>
         else \<lparr> pName = raw, pUser = [], pHost = [] \<rparr>)"

definition prefix_writeTo :: "Prefix \<Rightarrow> string" where
  "prefix_writeTo p = pName p @ (if pUser p \<noteq> [] then CHR ''!'' # pUser p else []) @ (if pHost p \<noteq> [] then CHR ''@'' # pHost p else [])"

section \<open>Messages\<close>

text \<open>The parameters of \<open>raw\<close> after the command, which ends at \<open>j\<close>.\<close>

definition parse_params :: "string \<Rightarrow> nat \<Rightarrow> string list" where
  "parse_params raw j =
     (case Index (drop j raw) '' :'' of
        None \<Rightarrow> Split (drop (j + 1) raw) (CHR '' '')
      | Some i0 \<Rightarrow>
          let j' = j + 1; i = i0 + j' - 1 in
          (if j' < i then Split (take (i - j') (drop j' raw)) (CHR '' '') else []) @ [drop (i + 2) raw])"

text \<open>The prefix and the index of the command, unless the line is invalid.\<close>

definition parse_start :: "string \<Rightarrow> (Prefix option \<times> nat) option" where
  "parse_start raw =
     (if raw ! 0 = CHR '':'' then
        (case IndexByte raw (CHR '' '') of
           None \<Rightarrow> None
         | Some i \<Rightarrow> if i < 2 then None else Some (Some (ParsePrefix (take (i - 1) (drop 1 raw))), i + 1))
      else Some (None, 0))"

definition ParseMessage :: "(string \<Rightarrow> string) \<Rightarrow> string \<Rightarrow> Message option" where
  "ParseMessage unicode line =
     (let raw = TrimFunc line in
      if length raw < 2 then None
      else case parse_start raw of
        None \<Rightarrow> None
      | Some (pfx, i) \<Rightarrow>
          let k = (case IndexByte (drop i raw) (CHR '' '') of None \<Rightarrow> 0 | Some k \<Rightarrow> k) in
          if 0 < k
          then Some \<lparr> mPrefix = pfx, mCommand = ToUpper unicode (take k (drop i raw)), mParams = parse_params raw (i + k) \<rparr>
          else Some \<lparr> mPrefix = pfx, mCommand = ToUpper unicode (drop i raw), mParams = [] \<rparr>)"

definition maxLength :: nat where "maxLength = 510"

definition needs_colon :: "string \<Rightarrow> bool" where
  "needs_colon trailing \<longleftrightarrow> trailing = [] \<or> CHR '' '' \<in> set trailing \<or> hd trailing = CHR '':''"

text \<open>The message before it is cut to the maximal length.\<close>

definition message_buffer :: "Message \<Rightarrow> string" where
  "message_buffer m =
     (case mPrefix m of None \<Rightarrow> [] | Some p \<Rightarrow> CHR '':'' # prefix_writeTo p @ '' '') @ mCommand m @
     (if 1 < length (mParams m) then CHR '' '' # Join (butlast (mParams m)) '' '' else []) @
     (if mParams m \<noteq> [] then CHR '' '' # (if needs_colon (last (mParams m)) then '':'' else []) @ last (mParams m) else [])"

definition Bytes :: "Message \<Rightarrow> string" where
  "Bytes m = take maxLength (message_buffer m)"

definition prefix_Len :: "Prefix \<Rightarrow> nat" where
  "prefix_Len p = length (pName p) + (if pUser p \<noteq> [] then length (pUser p) + 1 else 0) + (if pHost p \<noteq> [] then length (pHost p) + 1 else 0)"

definition message_Len :: "Message \<Rightarrow> nat" where
  "message_Len m =
     (case mPrefix m of None \<Rightarrow> 0 | Some p \<Rightarrow> prefix_Len p + 2) + length (mCommand m) +
     (if mParams m \<noteq> [] then length (mParams m) + sum_list (map length (mParams m)) + (if needs_colon (last (mParams m)) then 1 else 0) else 0)"

section \<open>Streams\<close>

text \<open>\<^verbatim>\<open>Decode\<close> reads up to a line feed and parses the line; the end of the input before that is an error.\<close>

definition Decode :: "(string \<Rightarrow> string) \<Rightarrow> string \<Rightarrow> (error + Message option) \<times> string" where
  "Decode unicode s =
     (case IndexByte s LF of None \<Rightarrow> (Inl ErrEOF, []) | Some i \<Rightarrow> (Inr (ParseMessage unicode (take (i + 1) s)), drop (i + 1) s))"

definition Encode :: "Message \<Rightarrow> string" where
  "Encode m = Bytes m @ [CR, LF]"

section \<open>The length\<close>

lemma Join_length: "ps \<noteq> [] \<Longrightarrow> length (Join ps '' '') + 1 = length ps + sum_list (map length ps)"
  by (induction ps "'' ''" rule: Join.induct) auto

lemma message_Len_buffer: "message_Len m = length (message_buffer m)"
proof (cases "mParams m" rule: rev_cases)
  case (snoc ps p)
  have "length (prefix_writeTo q) = prefix_Len q" for q by (simp add: prefix_writeTo_def prefix_Len_def)
  moreover have "ps \<noteq> [] \<Longrightarrow> length (Join ps '' '') + 1 = length ps + sum_list (map length ps)" by (rule Join_length)
  ultimately show ?thesis by (auto simp: snoc message_Len_def message_buffer_def split: option.split)
qed (simp add: message_Len_def message_buffer_def prefix_writeTo_def prefix_Len_def split: option.split)

lemma Bytes_length: "length (Bytes m) = min maxLength (message_Len m)"
  by (simp add: Bytes_def message_Len_buffer min.commute)

section \<open>Round trip\<close>

text \<open>What the format can carry: middle parameters are words, names have no separators, and nothing has line ends.\<close>

definition is_word :: "string \<Rightarrow> bool" where
  "is_word s \<longleftrightarrow> s \<noteq> [] \<and> CHR '' '' \<notin> set s \<and> hd s \<noteq> CHR '':''"

definition no_ends :: "string \<Rightarrow> bool" where
  "no_ends s \<longleftrightarrow> CR \<notin> set s \<and> LF \<notin> set s"

definition prefix_ok :: "Prefix \<Rightarrow> bool" where
  "prefix_ok p \<longleftrightarrow> pName p \<noteq> [] \<and> CHR '' '' \<notin> set (prefix_writeTo p) \<and> CHR ''!'' \<notin> set (pName p @ pHost p) \<and>
     CHR ''@'' \<notin> set (pName p @ pUser p)"

definition wire_ok :: "Message \<Rightarrow> bool" where
  "wire_ok m \<longleftrightarrow> (\<forall>p. mPrefix m = Some p \<longrightarrow> prefix_ok p) \<and> is_word (mCommand m) \<and>
     list_all (\<lambda>c. c < CHR 0x80 \<and> \<not> (CHR ''a'' \<le> c \<and> c \<le> CHR ''z'')) (mCommand m) \<and>
     list_all is_word (butlast (mParams m)) \<and> no_ends (message_buffer m) \<and> 2 \<le> message_Len m \<and> message_Len m \<le> maxLength"

lemma IndexByte_append: "c \<notin> set xs \<Longrightarrow> IndexByte (xs @ c # ys) c = Some (length xs)"
  by (induction xs) auto

text \<open>An index into a suffix as an index into the whole.\<close>

definition shift :: "nat \<Rightarrow> nat option \<Rightarrow> nat option" where
  "shift n = map_option ((+) n)"

lemma shift_simps [simp]: "shift 0 x = x" "map_option Suc (shift n x) = shift (Suc n) x" "shift m (shift n x) = shift (m + n) x"
    "shift n None = None" "shift n (Some i) = Some (n + i)"
  by (cases x; simp add: shift_def)+

lemma IndexByte_skip: "c \<notin> set xs \<Longrightarrow> IndexByte (xs @ ys) c = shift (length xs) (IndexByte ys c)"
  by (induction xs) auto

lemma ParsePrefix_write:
  assumes "prefix_ok p"
  shows "ParsePrefix (prefix_writeTo p) = p"
proof -
  obtain n u h where p: "p = \<lparr> pName = n, pUser = u, pHost = h \<rparr>" by (cases p) auto
  with assms have n: "n \<noteq> []" "CHR ''!'' \<notin> set n" "CHR ''@'' \<notin> set n" "CHR ''@'' \<notin> set u" "CHR ''!'' \<notin> set h"
    by (auto simp: prefix_ok_def)
  have U: "IndexByte (prefix_writeTo p) (CHR ''!'') = (if u \<noteq> [] then Some (length n) else None)"
    using n by (auto simp: p prefix_writeTo_def IndexByte_append IndexByte_None)
  have H: "IndexByte (prefix_writeTo p) (CHR ''@'') = (if h \<noteq> [] then Some (length n + (if u \<noteq> [] then length u + 1 else 0)) else None)"
    using n by (auto simp: p prefix_writeTo_def IndexByte_append IndexByte_skip IndexByte_None)
  show ?thesis
    using n unfolding ParsePrefix_def U H by (auto simp: p prefix_writeTo_def Let_def)
qed

lemma Index_word: "CHR '' '' \<notin> set p \<Longrightarrow> Index (p @ s) '' :'' = shift (length p) (Index s '' :'')"
  by (induction p) (auto simp: Index.simps [of "_ # _"] HasPrefix_def)

lemma Index_words:
  "list_all is_word ps \<Longrightarrow> Index (concat (map ((#) (CHR '' '')) ps) @ s) '' :'' =
    shift (length (concat (map ((#) (CHR '' '')) ps))) (Index s '' :'')"
proof (induction ps)
  case (Cons p ps)
  then have p: "CHR '' '' \<notin> set p" "p \<noteq> []" "hd p \<noteq> CHR '':''" by (simp_all add: is_word_def)
  let ?t = "concat (map ((#) (CHR '' '')) ps) @ s"
  have "Index (CHR '' '' # p @ ?t) '' :'' = map_option Suc (Index (p @ ?t) '' :'')"
    using p by (cases p) (simp_all add: Index.simps [of "_ # _"] HasPrefix_def)
  with Cons p show ?case by (simp add: Index_word)
qed simp

lemma spaced_Join: "ps \<noteq> [] \<Longrightarrow> CHR '' '' # Join ps '' '' = concat (map ((#) (CHR '' '')) ps)"
  by (induction ps "'' ''" rule: Join.induct) auto

text \<open>The parameters as they are printed, read back.\<close>

definition params_text :: "string list \<Rightarrow> string" where
  "params_text ps = (if 1 < length ps then CHR '' '' # Join (butlast ps) '' '' else []) @
     (if ps \<noteq> [] then CHR '' '' # (if needs_colon (last ps) then '':'' else []) @ last ps else [])"

lemma parse_params_text:
  assumes "ps \<noteq> []" "list_all is_word (butlast ps)"
  shows "parse_params (xs @ params_text ps) (length xs) = ps"
proof -
  obtain qs t where ps: "ps = qs @ [t]" using assms(1) by (cases ps rule: rev_cases) auto
  let ?Q = "concat (map ((#) (CHR '' '')) qs)"
  have q: "list_all is_word qs" using assms(2) by (simp add: ps)
  have qt: "(if 1 < length ps then CHR '' '' # Join (butlast ps) '' '' else []) = ?Q" using spaced_Join [of qs] by (auto simp: ps)
  have split: "Split (drop 1 ?Q) (CHR '' '') = qs" if "qs \<noteq> []"
    using spaced_Join [OF that] Split_Join [OF that, of "CHR '' ''"] q by (auto simp: list_all_iff is_word_def dest!: sym [of "_ # _"])
  show ?thesis
  proof (cases "needs_colon t")
    case True
    then have tx: "params_text ps = ?Q @ '' :'' @ t" unfolding params_text_def qt by (simp add: ps)
    have "Index (?Q @ '' :'' @ t) '' :'' = Some (length ?Q)" using Index_words [OF q, of "'' :'' @ t"] by (simp add: Index.simps HasPrefix_def)
    moreover have "1 < length ?Q" if "qs \<noteq> []" using that q by (cases qs) (auto simp: is_word_def)
    ultimately show ?thesis
      unfolding parse_params_def tx using split by (cases "qs = []") (auto simp: Let_def ps)
  next
    case False
    then have t: "is_word t" by (simp add: needs_colon_def is_word_def)
    from False have tx: "params_text ps = concat (map ((#) (CHR '' '')) ps)" unfolding params_text_def qt by (simp add: ps)
    have "list_all is_word ps" using q t by (simp add: ps)
    from Index_words [OF this, of "[]"] have "Index (concat (map ((#) (CHR '' '')) ps)) '' :'' = None" by (simp add: Index.simps HasPrefix_def)
    moreover have "Split (drop 1 (concat (map ((#) (CHR '' '')) ps))) (CHR '' '') = ps"
      using spaced_Join [OF assms(1)] Split_Join [OF assms(1), of "CHR '' ''"] \<open>list_all is_word ps\<close>
      by (auto simp: list_all_iff is_word_def dest!: sym [of "_ # _"])
    ultimately show ?thesis unfolding parse_params_def tx by simp
  qed
qed

lemma TrimFunc_clean: "no_ends s \<Longrightarrow> TrimFunc (s @ [CR, LF]) = s"
proof -
  assume "no_ends s"
  then have "\<not> cutset c" if "c \<in> set s" for c using that by (auto simp: cutset_def no_ends_def)
  then have "dropWhile cutset (rev s) = rev s" "s = [] \<or> dropWhile cutset (s @ [CR, LF]) = s @ [CR, LF]"
    by (auto simp: dropWhile_eq_self_iff hd_rev neq_Nil_conv)
  then show ?thesis by (auto simp: TrimFunc_def cutset_def)
qed

lemma ToUpper_id:
  assumes "list_all (\<lambda>c. c < CHR 0x80 \<and> \<not> (CHR ''a'' \<le> c \<and> c \<le> CHR ''z'')) s"
  shows "ToUpper unicode s = s"
  using assms by (auto simp: ToUpper_def upper_char_def list_all_iff intro!: map_idI)

lemma buffer_params: "message_buffer m =
    (case mPrefix m of None \<Rightarrow> [] | Some p \<Rightarrow> CHR '':'' # prefix_writeTo p @ '' '') @ mCommand m @ params_text (mParams m)"
  by (simp add: message_buffer_def params_text_def)

lemma parse_start_buffer:
  assumes "wire_ok m"
  shows "\<exists>i. parse_start (message_buffer m) = Some (mPrefix m, i) \<and> drop i (message_buffer m) = mCommand m @ params_text (mParams m) \<and>
    take i (message_buffer m) @ mCommand m @ params_text (mParams m) = message_buffer m \<and> i \<le> length (message_buffer m)"
proof (cases "mPrefix m")
  case None
  have "mCommand m \<noteq> [] \<and> hd (mCommand m) \<noteq> CHR '':''" using assms by (simp add: wire_ok_def is_word_def)
  then show ?thesis by (cases "mCommand m") (auto simp: buffer_params None parse_start_def)
next
  case (Some p)
  then have p: "prefix_ok p" using assms by (simp add: wire_ok_def)
  let ?r = "mCommand m @ params_text (mParams m)" and ?w = "prefix_writeTo p"
  have "CHR '' '' \<notin> set (CHR '':'' # ?w)" "?w \<noteq> []" using p by (auto simp: prefix_ok_def prefix_writeTo_def)
  then have "IndexByte ((CHR '':'' # ?w) @ CHR '' '' # ?r) (CHR '' '') = Some (length ?w + 1)" "?w \<noteq> []"
    using IndexByte_append [of "CHR '' ''" "CHR '':'' # ?w" ?r] by auto
  then have "parse_start (message_buffer m) = Some (Some (ParsePrefix ?w), length ?w + 2)"
    by (simp add: parse_start_def buffer_params Some)
  then show ?thesis using ParsePrefix_write [OF p] by (simp add: buffer_params Some)
qed

lemma parse_Encode:
  assumes ok: "wire_ok m"
  shows "ParseMessage unicode (Encode m) = Some m"
proof -
  let ?b = "message_buffer m" and ?c = "mCommand m" and ?t = "params_text (mParams m)"
  from ok have line: "Bytes m = ?b" "TrimFunc (?b @ [CR, LF]) = ?b" "\<not> length ?b < 2"
    by (simp_all add: wire_ok_def Bytes_def message_Len_buffer TrimFunc_clean)
  from parse_start_buffer [OF ok] obtain i where i: "parse_start ?b = Some (mPrefix m, i)" "drop i ?b = ?c @ ?t"
    "take i ?b @ ?c @ ?t = ?b" "i \<le> length ?b" by blast
  have c: "CHR '' '' \<notin> set ?c" "?c \<noteq> []" "ToUpper unicode ?c = ?c" using ok ToUpper_id by (auto simp: wire_ok_def is_word_def)
  show ?thesis
  proof (cases "mParams m = []")
    case True
    then have "IndexByte (?c @ ?t) (CHR '' '') = None" using c by (simp add: params_text_def IndexByte_None)
    with line i c True show ?thesis
      by (simp add: ParseMessage_def Encode_def params_text_def)
  next
    case False
    then obtain u where "?t = CHR '' '' # u" by (cases "1 < length (mParams m)") (auto simp: params_text_def)
    then have "IndexByte (?c @ ?t) (CHR '' '') = Some (length ?c)" using c by (simp add: IndexByte_append)
    moreover have "parse_params ?b (i + length ?c) = mParams m"
      using parse_params_text [OF False, of "take i ?b @ ?c"] ok i(3,4) by (simp add: wire_ok_def)
    ultimately show ?thesis
      using line i(1,2) c
      by (simp add: ParseMessage_def Encode_def)
  qed
qed

text \<open>A stream is decoded message by message.\<close>

primrec decodes :: "(string \<Rightarrow> string) \<Rightarrow> nat \<Rightarrow> string \<Rightarrow> (error + Message option) list \<times> string" where
  "decodes unicode 0 s = ([], s)"
| "decodes unicode (Suc n) s = (let (r, s') = Decode unicode s; (rs, s'') = decodes unicode n s' in (r # rs, s''))"

lemma Decode_Encode: "wire_ok m \<Longrightarrow> Decode unicode (Encode m @ s) = (Inr (Some m), s)"
proof -
  assume ok: "wire_ok m"
  then have "LF \<notin> set (Bytes m @ [CR])" by (auto simp: wire_ok_def Bytes_def no_ends_def dest: in_set_takeD)
  from IndexByte_append [OF this, of s] have "IndexByte (Encode m @ s) LF = Some (length (Bytes m @ [CR]))" by (simp add: Encode_def)
  moreover have "length (Encode m) = length (Bytes m) + 2" by (simp add: Encode_def)
  ultimately show ?thesis using parse_Encode [OF ok] by (simp add: Decode_def)
qed

section \<open>One line per message\<close>

text \<open>\<open>has m c\<close>: the byte occurs somewhere in the message.\<close>

definition msg_chars :: "Message \<Rightarrow> char set" where
  "msg_chars m = (case mPrefix m of None \<Rightarrow> {} | Some p \<Rightarrow> set (pName p) \<union> set (pUser p) \<union> set (pHost p)) \<union>
     set (mCommand m) \<union> \<Union> (set ` set (mParams m))"

lemma set_Join: "set (Join ps sep) \<subseteq> \<Union> (set ` set ps) \<union> set sep"
  by (induction ps sep rule: Join.induct) auto

lemma set_Split: "p \<in> set (Split s c) \<Longrightarrow> set p \<subseteq> set s"
proof (induction s arbitrary: p)
  case (Cons x s)
  then show ?case by (cases "Split s c") (fastforce split: if_splits)+
qed simp

lemma prefix_chars: "set (prefix_writeTo p) \<subseteq> set (pName p) \<union> set (pUser p) \<union> set (pHost p) \<union> set ''!@''"
  by (auto simp: prefix_writeTo_def)

lemma params_chars: "set (params_text ps) \<subseteq> \<Union> (set ` set ps) \<union> set '' :''"
proof (cases ps rule: rev_cases)
  case (snoc qs t)
  with set_Join [of qs "'' ''"] show ?thesis by (auto simp: params_text_def split: if_splits)
qed (simp add: params_text_def)

lemma buffer_chars: "set (message_buffer m) \<subseteq> msg_chars m \<union> set '' :!@''"
proof (cases "mPrefix m")
  case None
  with params_chars [of "mParams m"] show ?thesis by (auto simp: buffer_params msg_chars_def)
next
  case (Some p)
  with params_chars [of "mParams m"] prefix_chars [of p] show ?thesis by (auto simp: buffer_params msg_chars_def)
qed

lemma ParsePrefix_chars: "set (pName (ParsePrefix s)) \<union> set (pUser (ParsePrefix s)) \<union> set (pHost (ParsePrefix s)) \<subseteq> set s"
  by (auto simp: ParsePrefix_def Let_def split: option.splits if_splits dest: in_set_takeD in_set_dropD)

lemma parse_params_chars:
  assumes "p \<in> set (parse_params s j)"
  shows "set p \<subseteq> set s"
proof -
  have t: "set (take n (drop i s)) \<subseteq> set s" for n i using set_take_subset set_drop_subset by (metis subset_trans)
  have d: "set (drop i s) \<subseteq> set s" for i by (rule set_drop_subset)
  from assms consider i where "p \<in> set (Split (drop i s) (CHR '' ''))" | n i where "p \<in> set (Split (take n (drop i s)) (CHR '' ''))"
    | i where "p = drop i s"
    by (auto simp: parse_params_def Let_def split: option.splits if_splits)
  then show ?thesis using t d set_Split by cases blast+
qed

lemma upper_LF: "c \<noteq> LF \<Longrightarrow> upper_char c \<noteq> LF"
proof
  assume c: "c \<noteq> LF" and u: "upper_char c = LF"
  then have b: "CHR ''a'' \<le> c" "c \<le> CHR ''z''" "(char_of (of_char c - 32 :: nat) :: char) = LF"
    by (simp_all add: upper_char_def split: if_splits)
  then have l: "97 \<le> (of_char c :: nat)" "(of_char c :: nat) \<le> 122" by (simp_all add: less_eq_char_def)
  from b(3) have "of_char (char_of (of_char c - 32 :: nat) :: char) = (of_char LF :: nat)" by (rule arg_cong)
  then have "(of_char c - 32) mod 256 = (10 :: nat)" by simp
  with l show False by simp
qed

lemma dropWhile_last: "P x \<Longrightarrow> dropWhile P (xs @ [x]) = (if dropWhile P xs = [] then [] else dropWhile P xs @ [x])"
  by (induction xs) simp_all

lemma TrimFunc_line: "LF \<notin> set s \<Longrightarrow> LF \<notin> set (TrimFunc (s @ [LF]))"
proof -
  have "cutset LF" by (simp add: cutset_def)
  from dropWhile_last [of cutset, OF this] this have "set (TrimFunc (s @ [LF])) \<subseteq> set s"
    unfolding TrimFunc_def by (auto dest!: set_dropWhileD)
  then show "LF \<notin> set s \<Longrightarrow> LF \<notin> set (TrimFunc (s @ [LF]))" by blast
qed

lemma IndexByte_line: "IndexByte s c = Some i \<Longrightarrow> \<exists>l. take (i + 1) s = l @ [c] \<and> c \<notin> set l"
proof (induction s arbitrary: i)
  case (Cons x s)
  show ?case
  proof (cases "x = c")
    case False
    with Cons obtain k l where "i = Suc k" "take (k + 1) s = l @ [c] \<and> c \<notin> set l" by (auto split: if_splits)
    with False have "take (i + 1) (x # s) = (x # l) @ [c] \<and> c \<notin> set (x # l)" by simp
    then show ?thesis by blast
  qed (use Cons in auto)
qed simp

lemma ParseMessage_parts:
  assumes "ParseMessage unicode line = Some m"
  shows "\<exists>j. parse_start (TrimFunc line) = Some (mPrefix m, j) \<and>
    ((\<exists>n. mCommand m = ToUpper unicode (take n (drop j (TrimFunc line)))) \<or> mCommand m = ToUpper unicode (drop j (TrimFunc line))) \<and>
    (mParams m = [] \<or> (\<exists>n. mParams m = parse_params (TrimFunc line) n))"
proof -
  define raw where "raw = TrimFunc line"
  have "case parse_start raw of None \<Rightarrow> False | Some (pfx, i) \<Rightarrow>
      (\<exists>k. m = \<lparr> mPrefix = pfx, mCommand = ToUpper unicode (take k (drop i raw)), mParams = parse_params raw (i + k) \<rparr>) \<or>
      m = \<lparr> mPrefix = pfx, mCommand = ToUpper unicode (drop i raw), mParams = [] \<rparr>"
    using assms unfolding ParseMessage_def raw_def [symmetric] Let_def
    by (simp split: if_splits option.splits prod.splits) blast+
  then show ?thesis unfolding raw_def [symmetric] by (auto split: option.splits)
qed

lemma Decode_chars:
  assumes "Decode unicode s = (Inr (Some m), rest)" "\<forall>t. LF \<notin> set t \<longrightarrow> LF \<notin> set (unicode t)"
  shows "LF \<notin> msg_chars m"
proof -
  from assms(1) obtain i where i: "IndexByte s LF = Some i" and m: "ParseMessage unicode (take (i + 1) s) = Some m"
    by (auto simp: Decode_def split: option.splits)
  obtain l where l: "take (i + 1) s = l @ [LF]" "LF \<notin> set l" using IndexByte_line [OF i] by blast
  define raw where "raw = TrimFunc (take (i + 1) s)"
  have raw: "LF \<notin> set raw" unfolding raw_def l(1) by (rule TrimFunc_line [OF l(2)])
  then have sub: "LF \<notin> set t" if "set t \<subseteq> set raw" for t using that by blast
  have dt: "set (take n (drop j raw)) \<subseteq> set raw" "set (drop j raw) \<subseteq> set raw" for n j
    by (auto dest: in_set_takeD in_set_dropD)
  have up: "LF \<notin> set (ToUpper unicode t)" if "set t \<subseteq> set raw" for t
  proof -
    have "LF \<notin> set (map upper_char t)" using sub [OF that] upper_LF by (metis image_iff list.set_map)
    then show ?thesis using sub [OF that] assms(2) unfolding ToUpper_def by presburger
  qed
  from ParseMessage_parts [OF m] obtain j
    where st: "parse_start raw = Some (mPrefix m, j)"
      and c: "(\<exists>n. mCommand m = ToUpper unicode (take n (drop j raw))) \<or> mCommand m = ToUpper unicode (drop j raw)"
      and q: "mParams m = [] \<or> (\<exists>n. mParams m = parse_params raw n)"
    unfolding raw_def by blast
  have "LF \<notin> set (pName x) \<union> set (pUser x) \<union> set (pHost x)" if "mPrefix m = Some x" for x
  proof -
    from st that obtain n where "x = ParsePrefix (take n (drop 1 raw))" by (auto simp: parse_start_def split: if_splits option.splits)
    with ParsePrefix_chars [of "take n (drop 1 raw)"] dt(1) [of n 1] sub show ?thesis by (metis subset_trans subset_iff raw)
  qed
  moreover have "LF \<notin> set (mCommand m)" using c up dt by metis
  moreover have "LF \<notin> set t" if "t \<in> set (mParams m)" for t using q that sub parse_params_chars by (metis empty_iff list.set(1))
  ultimately show ?thesis unfolding msg_chars_def by (auto split: option.split)
qed

section \<open>Properties\<close>

text \<open>C37. Every sequence of messages the format can carry (names without separators, middle parameters that are words, commands in upper
  case, no line ends, at most 510 bytes each), written to a connection one after the other with \<^verbatim>\<open>Encode\<close>, is read back by as many calls of
  \<^verbatim>\<open>Decode\<close>: the same messages, each with its prefix, command and parameters, in the same order, and nothing of what follows on the
  connection is consumed.\<close>

theorem wire_roundtrip:
  "list_all wire_ok ms \<Longrightarrow> decodes unicode (length ms) (concat (map Encode ms) @ s) = (map (Inr \<circ> Some) ms, s)"
  by (induction ms) (simp_all add: Decode_Encode)

theorem wire_roundtrip_witness:
  "decodes id 2 (concat (map Encode
     [\<lparr> mPrefix = Some \<lparr> pName = ''ann'', pUser = ''a'', pHost = ''h'' \<rparr>, mCommand = ''PRIVMSG'', mParams = [''#c'', ''hi all''] \<rparr>,
      \<lparr> mPrefix = None, mCommand = ''PING'', mParams = [] \<rparr>]) @ ''QU'') =
   ([Inr (Some \<lparr> mPrefix = Some \<lparr> pName = ''ann'', pUser = ''a'', pHost = ''h'' \<rparr>, mCommand = ''PRIVMSG'', mParams = [''#c'', ''hi all''] \<rparr>),
     Inr (Some \<lparr> mPrefix = None, mCommand = ''PING'', mParams = [] \<rparr>)], ''QU'')"
proof -
  let ?a = "\<lparr> mPrefix = Some \<lparr> pName = ''ann'', pUser = ''a'', pHost = ''h'' \<rparr>, mCommand = ''PRIVMSG'', mParams = [''#c'', ''hi all''] \<rparr>"
  let ?b = "\<lparr> mPrefix = None, mCommand = ''PING'', mParams = [] \<rparr>"
  have "wire_ok ?a" "wire_ok ?b"
    by (simp_all add: wire_ok_def is_word_def no_ends_def prefix_ok_def prefix_writeTo_def message_buffer_def message_Len_buffer
      needs_colon_def maxLength_def less_eq_char_def less_char_def)
  then show ?thesis using wire_roundtrip [of "[?a, ?b]" id "''QU''"] by (simp add: numeral_2_eq_2)
qed

text \<open>C38. No message that a connection delivers can be used to smuggle a second line to those it is sent on to: whatever bytes were
  received, a message that \<^verbatim>\<open>Decode\<close> returned has no line feed in its encoding but the one that ends it, and its encoding has at most
  512 bytes.\<close>

theorem wire_one_line:
  assumes "Decode unicode s = (Inr (Some m), rest)" "\<forall>t. LF \<notin> set t \<longrightarrow> LF \<notin> set (unicode t)"
  shows "LF \<notin> set (Bytes m) \<and> length (Encode m) \<le> 512"
proof -
  have "LF \<notin> set (message_buffer m)" using Decode_chars [OF assms] buffer_chars [of m] by auto
  then show ?thesis by (auto simp: Bytes_def Encode_def maxLength_def dest: in_set_takeD)
qed

theorem wire_one_line_witness:
  "let m = \<lparr> mPrefix = None, mCommand = ''JOIN'', mParams = [''#c'' @ [CR] @ ''x''] \<rparr> in LF \<notin> set (Bytes m) \<and> length (Encode m) \<le> 512"
proof -
  have "Decode id (''join #c'' @ [CR] @ ''x'' @ [CR, LF]) =
      (Inr (Some \<lparr> mPrefix = None, mCommand = ''JOIN'', mParams = [''#c'' @ [CR] @ ''x''] \<rparr>), [])"
    by code_simp
  from wire_one_line [OF this] show ?thesis by (simp add: Let_def)
qed

end
