(* ===== verification/Irc_Tee.thy ===== *)
theory Irc_Tee
  imports Irc_Prelude
begin

text \<open>
  The debugging listener of \<^verbatim>\<open>internal/util/tee.go\<close>, which copies what the clients send to one file per pair of addresses.  The listener below, the opening of files and
  the writes to them are arguments with the results they give; a file is its content, and every write appends to it.  Main results: the file holds exactly the bytes that the server
  was given, also when writing fails, and while it does not fail the server sees the reads of the socket unchanged.
\<close>

section \<open>Connections and files\<close>

record net_conn =
  cn_RemoteAddr :: string
  cn_LocalAddr :: string

record teeConn =
  tc_Conn :: net_conn
  tc_file :: string            \<comment> \<open>the path of the file that \<^verbatim>\<open>r\<close> writes to and \<^verbatim>\<open>c\<close> closes\<close>

type_synonym files = "string \<rightharpoonup> string"

text \<open>\<^verbatim>\<open>filepath.Join\<close>, up to the spelling of the path that \<^verbatim>\<open>Clean\<close> gives.\<close>

definition path_Join :: "string \<Rightarrow> string \<Rightarrow> string" where
  "path_Join dir name = (if dir = [] then name else dir @ ''/'' @ name)"

definition tee_name :: "net_conn \<Rightarrow> string" where
  "tee_name cn = cn_RemoteAddr cn @ ''_'' @ cn_LocalAddr cn @ ''.out''"

text \<open>\<^verbatim>\<open>os.OpenFile\<close> for appending, which creates a missing file.\<close>

definition open_append :: "(string \<Rightarrow> 'e option) \<Rightarrow> string \<Rightarrow> files \<Rightarrow> 'e + files" where
  "open_append fails path fs = (case fails path of Some e \<Rightarrow> Inl e | None \<Rightarrow> Inr (fs(path \<mapsto> case fs path of None \<Rightarrow> [] | Some s \<Rightarrow> s)))"

text \<open>\<^verbatim>\<open>Accept\<close>: its result, the connections it closes, and the files.\<close>

definition tee_Accept :: "(string \<Rightarrow> 'e option) \<Rightarrow> string \<Rightarrow> 'e + net_conn \<Rightarrow> files \<Rightarrow> ('e + teeConn) \<times> net_conn list \<times> files" where
  "tee_Accept fails dir accepted fs =
     (case accepted of
        Inl e \<Rightarrow> (Inl e, [], fs)
      | Inr cn \<Rightarrow> let path = path_Join dir (tee_name cn) in
          (case open_append fails path fs of
             Inl e \<Rightarrow> (Inl e, [cn], fs)
           | Inr fs' \<Rightarrow> (Inr \<lparr> tc_Conn = cn, tc_file = path \<rparr>, [], fs')))"

text \<open>\<^verbatim>\<open>Read\<close> of \<^verbatim>\<open>io.TeeReader\<close>, given what the socket returned: the bytes and the error for the caller, and the file.  \<open>write\<close> is the count and the error of a write to the file.\<close>

definition TeeReader_Read :: "(string \<Rightarrow> nat \<times> 'e option) \<Rightarrow> string \<times> 'e option \<Rightarrow> string \<Rightarrow> (string \<times> 'e option) \<times> string" where
  "TeeReader_Read write r file =
     (if fst r = [] then (r, file)
      else let (n, werr) = write (fst r); file' = file @ take n (fst r) in
        if werr \<noteq> None then ((take n (fst r), werr), file') else (r, file'))"

definition tee_Read :: "(string \<Rightarrow> nat \<times> 'e option) \<Rightarrow> teeConn \<Rightarrow> string \<times> 'e option \<Rightarrow> files \<Rightarrow> (string \<times> 'e option) \<times> files" where
  "tee_Read write tc r fs =
     (let (r', file') = TeeReader_Read write r (case fs (tc_file tc) of None \<Rightarrow> [] | Some s \<Rightarrow> s) in (r', fs(tc_file tc \<mapsto> file')))"

fun tee_Reads :: "(string \<Rightarrow> nat \<times> 'e option) \<Rightarrow> teeConn \<Rightarrow> (string \<times> 'e option) list \<Rightarrow> files \<Rightarrow> (string \<times> 'e option) list \<times> files" where
  "tee_Reads write tc [] fs = ([], fs)"
| "tee_Reads write tc (r # rs) fs = (let (r', fs') = tee_Read write tc r fs; (rs', fs'') = tee_Reads write tc rs fs' in (r' # rs', fs''))"

text \<open>\<^verbatim>\<open>Close\<close> closes the file and then the connection, whose error is the result; \<open>tee_event\<close> is what was closed.\<close>

datatype tee_event = FileClosed string | ConnClosed net_conn

definition tee_Close :: "(net_conn \<Rightarrow> 'e option) \<Rightarrow> teeConn \<Rightarrow> tee_event list \<Rightarrow> 'e option \<times> tee_event list" where
  "tee_Close conn_Close tc closed = (conn_Close (tc_Conn tc), closed @ [FileClosed (tc_file tc), ConnClosed (tc_Conn tc)])"

section \<open>The copy\<close>

text \<open>What \<^verbatim>\<open>io.Writer\<close> promises: a write that is cut short returns an error.\<close>

definition writer :: "(string \<Rightarrow> nat \<times> 'e option) \<Rightarrow> bool" where
  "writer write \<longleftrightarrow> (\<forall>d. snd (write d) = None \<longrightarrow> fst (write d) = length d)"

lemma TeeReader_logs: "writer write \<Longrightarrow> TeeReader_Read write r file = (r', file') \<Longrightarrow> file' = file @ fst r'"
proof -
  assume w: "writer write" and t: "TeeReader_Read write r file = (r', file')"
  obtain n werr where nw: "write (fst r) = (n, werr)" by fastforce
  with w have "werr = None \<Longrightarrow> n = length (fst r)" unfolding writer_def by (metis fst_conv snd_conv)
  with t nw show "file' = file @ fst r'" by (auto simp: TeeReader_Read_def Let_def split: if_splits)
qed

text \<open>The file of a connection gets exactly the bytes that its reader is given, and no other file changes.\<close>

lemma tee_Reads_log:
  assumes "writer write"
  shows "tee_Reads write tc rs fs = (rs', fs') \<Longrightarrow> fs (tc_file tc) = Some old \<Longrightarrow>
    fs' = fs(tc_file tc \<mapsto> old @ concat (map fst rs'))"
proof (induction rs arbitrary: fs rs' fs' old)
  case (Cons r rs)
  obtain r1 f1 where r1: "TeeReader_Read write r old = (r1, f1)" by fastforce
  let ?fs1 = "fs(tc_file tc \<mapsto> f1)"
  obtain rs1 fs1 where rec: "tee_Reads write tc rs ?fs1 = (rs1, fs1)" by fastforce
  from Cons.IH [OF rec] TeeReader_logs [OF assms r1] Cons.prems r1 rec show ?case by (auto simp: tee_Read_def fun_upd_triv)
qed (simp add: fun_upd_idem)

text \<open>An accepted connection starts its copy after what the file held before.\<close>

theorem tee_logs:
  assumes "writer write" "tee_Accept fails dir (Inr cn) fs = (Inr tc, cs, fs1)" "tee_Reads write tc rs fs1 = (rs', fs2)"
  shows "cs = [] \<and> fs2 = fs(path_Join dir (tee_name cn) \<mapsto> (case fs (path_Join dir (tee_name cn)) of None \<Rightarrow> [] | Some s \<Rightarrow> s) @ concat (map fst rs'))"
proof -
  from assms(2) have tc: "cs = []" "tc_file tc = path_Join dir (tee_name cn)"
    "fs1 = fs(path_Join dir (tee_name cn) \<mapsto> case fs (path_Join dir (tee_name cn)) of None \<Rightarrow> [] | Some s \<Rightarrow> s)"
    by (auto simp: tee_Accept_def open_append_def Let_def split: option.splits sum.splits)
  then show ?thesis using tee_Reads_log [OF assms(1,3)] by simp
qed

text \<open>While the writes succeed, the reads of the server are those of the socket.\<close>

lemma tee_transparent: "(\<And>d. snd (write d) = None) \<Longrightarrow> fst (tee_Reads write tc rs fs) = rs"
  by (induction rs arbitrary: fs) (simp_all add: tee_Read_def TeeReader_Read_def Let_def split_beta)

text \<open>A file that cannot be opened closes the connection, and \<^verbatim>\<open>Accept\<close> fails as it does when the listener fails.\<close>

lemma tee_Accept_fails:
  "fails (path_Join dir (tee_name cn)) = Some e \<Longrightarrow> tee_Accept fails dir (Inr cn) fs = (Inl e, [cn], fs)"
  by (simp add: tee_Accept_def open_append_def Let_def)

text \<open>Nothing stays open: an accepted connection that is closed has its socket and the file of its addresses closed, once each, whatever closing returns.\<close>

lemma tee_closes:
  assumes "tee_Accept fails dir (Inr cn) fs = (Inr tc, cs, fs1)"
  shows "tee_Close conn_Close tc closed = (conn_Close cn, closed @ [FileClosed (path_Join dir (tee_name cn)), ConnClosed cn])"
  using assms by (auto simp: tee_Close_def tee_Accept_def open_append_def Let_def split: option.splits)

theorem tee_logs_witness:
  "tee_Reads (\<lambda>d. (1, if length d = 1 then None else Some ''full'')) \<lparr> tc_Conn = \<lparr> cn_RemoteAddr = ''r'', cn_LocalAddr = ''l'' \<rparr>, tc_file = ''r_l.out'' \<rparr>
     [(''N'', None), (''ICK'', None)] [''r_l.out'' \<mapsto> []] =
   ([(''N'', None), (''I'', Some ''full'')], [''r_l.out'' \<mapsto> ''NI''])"
proof -
  let ?wr = "\<lambda>d. (1 :: nat, if length d = 1 then None else Some ''full'')"
  let ?cn = "\<lparr> cn_RemoteAddr = ''r'', cn_LocalAddr = ''l'' \<rparr>" let ?tc = "\<lparr> tc_Conn = ?cn, tc_file = ''r_l.out'' \<rparr>"
  have w: "writer ?wr" by (simp add: writer_def)
  have a: "tee_Accept (\<lambda>_. None) [] (Inr ?cn) Map.empty = (Inr ?tc, [], [''r_l.out'' \<mapsto> []])"
    by (simp add: tee_Accept_def open_append_def path_Join_def tee_name_def Let_def)
  obtain fs2 where r: "tee_Reads ?wr ?tc [(''N'', None), (''ICK'', None)] [''r_l.out'' \<mapsto> []] = ([(''N'', None), (''I'', Some ''full'')], fs2)"
    by (simp add: tee_Read_def TeeReader_Read_def Let_def)
  from tee_logs [OF w a r] r show ?thesis by (simp add: path_Join_def tee_name_def)
qed

end
