(* ===== verification/Watch_Forward.thy ===== *)
theory Watch_Forward
  imports Kv_Client
begin

text \<open>
  The goroutines of the watch layers, \<^verbatim>\<open>keyencode/watch.go\<close> and the vendored \<^verbatim>\<open>clientv3/namespace/watch.go\<close> and \<^verbatim>\<open>etcdcrypto/watch.go\<close>: every \<^verbatim>\<open>Watch\<close> starts one that takes
  the responses of the watch below, translates their events and hands them to the caller, and \<^verbatim>\<open>Close\<close> stops them and waits.  The three differ in the
  translation \<open>dec\<close> of an event and in \<open>below\<close>, whether \<^verbatim>\<open>Close\<close> first closes the watcher below.  A step is \<^emph>\<open>helped\<close> if it needs
  something from outside: a response or the end of the watch below, the cancellation of its context, or a caller that receives.  Main results: the caller gets the translated responses in order,
  without loss or repetition; \<^verbatim>\<open>Close\<close> gets to its end when the watches below have ended, and may wait for ever when one is idle.
\<close>

section \<open>State\<close>

datatype 'v fwd_pc =
    FRange                     \<comment> \<open>at \<^verbatim>\<open>for wr := range wch\<close>\<close>
  | FSelect "'v event list"    \<comment> \<open>in the \<^verbatim>\<open>select\<close>, with a decoded response\<close>
  | FReturn                    \<comment> \<open>at the deferred \<^verbatim>\<open>close(plaintextWch)\<close>\<close>
  | FLeave                     \<comment> \<open>at \<^verbatim>\<open>w.wg.Done()\<close>\<close>
  | FDone
  | FPanicked

record ('v, 'w) fwd =
  f_pc :: "'w fwd_pc"
  f_wch :: "'v event list list"    \<comment> \<open>the responses that wait in the watch below\<close>
  f_open :: bool                   \<comment> \<open>the channel of the watch below is open\<close>
  f_ctx :: bool                    \<comment> \<open>its context is cancelled\<close>
  f_out :: "'w event list list"    \<comment> \<open>what the caller has received\<close>
  f_closes :: nat                  \<comment> \<open>how often \<^verbatim>\<open>plaintextWch\<close> was closed\<close>
  f_seen :: "'v event list list"   \<comment> \<open>every response of the watch below so far\<close>

datatype closer_pc = CIdle | CWait | CReturned

record ('v, 'w) fwd_watcher =
  wk_wg :: int
  wk_stopc :: bool             \<comment> \<open>\<^verbatim>\<open>stopc\<close> is closed\<close>
  wk_fwds :: "('v, 'w) fwd list"
  wk_closer :: closer_pc       \<comment> \<open>a caller of \<^verbatim>\<open>Close\<close>\<close>

definition NewWatcher :: "('v, 'w) fwd_watcher" where
  "NewWatcher = \<lparr> wk_wg = 0, wk_stopc = False, wk_fwds = [], wk_closer = CIdle \<rparr>"

definition new_fwd :: "('v, 'w) fwd" where
  "new_fwd = \<lparr> f_pc = FRange, f_wch = [], f_open = True, f_ctx = False, f_out = [], f_closes = 0, f_seen = [] \<rparr>"

section \<open>Steps\<close>

inductive fwd_step :: "('v event \<Rightarrow> 'w event outcome) \<Rightarrow> bool \<Rightarrow> bool \<Rightarrow> ('v, 'w) fwd \<Rightarrow> ('v, 'w) fwd \<Rightarrow> bool" for dec where
  f_arrive: "f_open f \<Longrightarrow> fwd_step dec True stop f (f\<lparr>f_wch := f_wch f @ [wr], f_seen := f_seen f @ [wr]\<rparr>)"
| f_shut: "f_open f \<Longrightarrow> fwd_step dec True stop f (f\<lparr>f_open := False\<rparr>)"
| f_cancel: "fwd_step dec True stop f (f\<lparr>f_ctx := True\<rparr>)"
| f_range: "f_pc f = FRange \<Longrightarrow> f_wch f = wr # ws \<Longrightarrow> traverse dec wr = Ok dr \<Longrightarrow>
    fwd_step dec False stop f (f\<lparr>f_pc := FSelect dr, f_wch := ws\<rparr>)"
| f_panic: "f_pc f = FRange \<Longrightarrow> f_wch f = wr # ws \<Longrightarrow> traverse dec wr = Panic e \<Longrightarrow>
    fwd_step dec False stop f (f\<lparr>f_pc := FPanicked, f_wch := ws\<rparr>)"
| f_end: "f_pc f = FRange \<Longrightarrow> f_wch f = [] \<Longrightarrow> \<not> f_open f \<Longrightarrow> fwd_step dec False stop f (f\<lparr>f_pc := FReturn\<rparr>)"
| f_send: "f_pc f = FSelect dr \<Longrightarrow> fwd_step dec True stop f (f\<lparr>f_pc := FRange, f_out := f_out f @ [dr]\<rparr>)"
| f_ctx_done: "f_pc f = FSelect dr \<Longrightarrow> f_ctx f \<Longrightarrow> fwd_step dec False stop f (f\<lparr>f_pc := FReturn\<rparr>)"
| f_stopped: "f_pc f = FSelect dr \<Longrightarrow> stop \<Longrightarrow> fwd_step dec False stop f (f\<lparr>f_pc := FReturn\<rparr>)"
| f_return: "f_pc f = FReturn \<Longrightarrow> fwd_step dec False stop f (f\<lparr>f_pc := FLeave, f_closes := f_closes f + 1\<rparr>)"

text \<open>The watcher; a goroutine that panics ends the process.\<close>

definition crashed :: "('v, 'w) fwd_watcher \<Rightarrow> bool" where
  "crashed w \<longleftrightarrow> (\<exists>f \<in> set (wk_fwds w). f_pc f = FPanicked)"

inductive wk_step :: "('v event \<Rightarrow> 'w event outcome) \<Rightarrow> bool \<Rightarrow> bool \<Rightarrow> ('v, 'w) fwd_watcher \<Rightarrow> ('v, 'w) fwd_watcher \<Rightarrow> bool" for dec below where
  wk_Watch: "\<not> crashed w \<Longrightarrow> wk_step dec below True w (w\<lparr>wk_wg := wk_wg w + 1, wk_fwds := wk_fwds w @ [new_fwd]\<rparr>)"
| wk_forward: "\<not> crashed w \<Longrightarrow> i < length (wk_fwds w) \<Longrightarrow> fwd_step dec b (wk_stopc w) (wk_fwds w ! i) f \<Longrightarrow>
    wk_step dec below b w (w\<lparr>wk_fwds := (wk_fwds w)[i := f]\<rparr>)"
| wk_leave: "\<not> crashed w \<Longrightarrow> i < length (wk_fwds w) \<Longrightarrow> f_pc (wk_fwds w ! i) = FLeave \<Longrightarrow>
    wk_step dec below False w (w\<lparr>wk_wg := wk_wg w - 1, wk_fwds := (wk_fwds w)[i := (wk_fwds w ! i)\<lparr>f_pc := FDone\<rparr>]\<rparr>)"
| wk_Close: "\<not> crashed w \<Longrightarrow> wk_closer w = CIdle \<Longrightarrow> wk_step dec below True w (w\<lparr>wk_stopc := True, wk_closer := CWait,
    wk_fwds := (if below then map (f_open_update (\<lambda>_. False)) (wk_fwds w) else wk_fwds w)\<rparr>)"
| wk_waited: "\<not> crashed w \<Longrightarrow> wk_closer w = CWait \<Longrightarrow> wk_wg w = 0 \<Longrightarrow> wk_step dec below False w (w\<lparr>wk_closer := CReturned\<rparr>)"

inductive wk_reachable :: "('v event \<Rightarrow> 'w event outcome) \<Rightarrow> bool \<Rightarrow> ('v, 'w) fwd_watcher \<Rightarrow> bool" for dec below where
  wk_init: "wk_reachable dec below NewWatcher"
| wk_next: "wk_reachable dec below w \<Longrightarrow> wk_step dec below b w w' \<Longrightarrow> wk_reachable dec below w'"

section \<open>The invariant\<close>

text \<open>What a goroutine holds between the watch below and its caller.\<close>

fun in_flight :: "'v fwd_pc \<Rightarrow> 'v event list list" where
  "in_flight (FSelect dr) = [dr]"
| "in_flight _ = []"

abbreviation f_ended :: "('v, 'w) fwd \<Rightarrow> bool" where "f_ended f \<equiv> f_pc f = FDone"

definition fwd_inv :: "('v event \<Rightarrow> 'w event outcome) \<Rightarrow> ('v, 'w) fwd \<Rightarrow> bool" where
  "fwd_inv dec f \<longleftrightarrow>
     (\<exists>taken dropped. f_seen f = taken @ dropped @ f_wch f \<and> map (traverse dec) taken = map Ok (f_out f) @ map Ok (in_flight (f_pc f)) \<and>
        (f_pc f \<in> {FReturn, FLeave, FDone, FPanicked} \<or> dropped = [])) \<and>
     f_closes f = (if f_pc f \<in> {FLeave, FDone} then 1 else 0)"

lemma fwd_step_inv:
  assumes "fwd_step dec b stop f f'" "fwd_inv dec f"
  shows "fwd_inv dec f' \<and> f_ended f' = f_ended f"
proof -
  from assms(2) obtain t d where td: "f_seen f = t @ d @ f_wch f" "map (traverse dec) t = map Ok (f_out f) @ map Ok (in_flight (f_pc f))"
    "f_pc f \<in> {FReturn, FLeave, FDone, FPanicked} \<or> d = []" "f_closes f = (if f_pc f \<in> {FLeave, FDone} then 1 else 0)"
    by (auto simp: fwd_inv_def)
  have selected: "\<exists>t' wr. f_seen f = t' @ [wr] @ f_wch f \<and> map (traverse dec) t' = map Ok (f_out f)" if pc: "f_pc f = FSelect dr" for dr
  proof -
    from td pc obtain t' wr where "t = t' @ [wr]" by (cases t rule: rev_cases) auto
    with td pc show ?thesis by auto
  qed
  show ?thesis using assms(1)
  proof cases
    case (f_arrive wr)
    with td show ?thesis by (auto simp: fwd_inv_def)
  next
    case (f_range wr ws dr)
    with td have "f_seen f = (t @ [wr]) @ [] @ ws" "map (traverse dec) (t @ [wr]) = map Ok (f_out f) @ map Ok [dr]" by auto
    with f_range td(4) show ?thesis unfolding fwd_inv_def by (intro conjI exI [of _ "t @ [wr]"] exI [of _ "[]"]) simp_all
  next
    case (f_panic wr ws e)
    with td have "f_seen f = t @ [wr] @ ws" "map (traverse dec) t = map Ok (f_out f)" by auto
    with f_panic td(4) show ?thesis unfolding fwd_inv_def by (fastforce intro: exI [of _ t])
  next
    case (f_send dr)
    with td show ?thesis unfolding fwd_inv_def by (fastforce intro: exI [of _ t])
  next
    case (f_ctx_done dr)
    from selected [OF f_ctx_done(3)] f_ctx_done td(4) show ?thesis unfolding fwd_inv_def by fastforce
  next
    case (f_stopped dr)
    from selected [OF f_stopped(3)] f_stopped td(4) show ?thesis unfolding fwd_inv_def by fastforce
  qed (use td in \<open>auto simp: fwd_inv_def\<close>)
qed

text \<open>A goroutine panics only on a response that does not decode.\<close>

definition panic_inv :: "('v event \<Rightarrow> 'w event outcome) \<Rightarrow> ('v, 'w) fwd \<Rightarrow> bool" where
  "panic_inv dec f \<longleftrightarrow> set (f_wch f) \<subseteq> set (f_seen f) \<and> (f_pc f = FPanicked \<longrightarrow> (\<exists>wr \<in> set (f_seen f). \<exists>e. traverse dec wr = Panic e))"

lemma fwd_step_panic: "fwd_step dec b stop f f' \<Longrightarrow> panic_inv dec f \<Longrightarrow> panic_inv dec f'"
  by (induction rule: fwd_step.induct) (auto simp: panic_inv_def)

definition wk_inv :: "('v event \<Rightarrow> 'w event outcome) \<Rightarrow> ('v, 'w) fwd_watcher \<Rightarrow> bool" where
  "wk_inv dec w \<longleftrightarrow> (\<forall>f \<in> set (wk_fwds w). fwd_inv dec f) \<and> wk_wg w = int (live f_ended (wk_fwds w)) \<and> (wk_closer w = CIdle \<longleftrightarrow> \<not> wk_stopc w)"

lemma wk_step_inv:
  assumes "wk_step dec below b w w'" "wk_inv dec w"
  shows "wk_inv dec w'"
  using assms(1)
proof cases
  case wk_Watch
  with assms(2) show ?thesis by (auto simp: wk_inv_def fwd_inv_def new_fwd_def live_def)
next
  case (wk_forward i f)
  then have "fwd_inv dec f \<and> f_ended f = f_ended (wk_fwds w ! i)" using fwd_step_inv [OF wk_forward(4)] assms(2) wk_forward(3) by (simp add: wk_inv_def)
  moreover from this have "int (live f_ended ((wk_fwds w)[i := f])) = int (live f_ended (wk_fwds w))"
    using live_update [of i "wk_fwds w" f_ended f] wk_forward by auto
  ultimately show ?thesis using assms(2) wk_forward set_update_subset_insert [of "wk_fwds w" i f] by (auto simp: wk_inv_def)
next
  case (wk_leave i)
  let ?f = "(wk_fwds w ! i)\<lparr>f_pc := FDone\<rparr>"
  have "int (live f_ended ((wk_fwds w)[i := ?f])) = int (live f_ended (wk_fwds w)) - 1"
    using live_update [of i "wk_fwds w" f_ended ?f] wk_leave by simp
  moreover have "fwd_inv dec (wk_fwds w ! i)" using assms(2) wk_leave by (auto simp: wk_inv_def)
  then have "fwd_inv dec ?f" using wk_leave(5) by (auto simp: fwd_inv_def)
  ultimately show ?thesis using assms(2) wk_leave set_update_subset_insert [of "wk_fwds w" i ?f] by (auto simp: wk_inv_def)
next
  case wk_Close
  have "live f_ended (map (f_open_update (\<lambda>_. False)) fs) = live f_ended fs" for fs :: "('a, 'b) fwd list"
    by (induction fs) (simp_all add: live_def)
  moreover have "fwd_inv dec (f_open_update (\<lambda>_. False) f) = fwd_inv dec f" for f by (simp add: fwd_inv_def)
  ultimately show ?thesis using assms(2) wk_Close by (auto simp: wk_inv_def)
qed (use assms(2) in \<open>auto simp: wk_inv_def\<close>)

lemma reachable_wk_inv: "wk_reachable dec below w \<Longrightarrow> wk_inv dec w"
  by (induction rule: wk_reachable.induct) (auto simp: wk_step_inv, simp add: wk_inv_def NewWatcher_def live_def)

section \<open>Getting to the end\<close>

text \<open>A goroutine that waits for a response, and one that does not and can decode what it has.\<close>

definition idle :: "('v, 'w) fwd \<Rightarrow> bool" where
  "idle f \<longleftrightarrow> f_pc f = FRange \<and> f_wch f = [] \<and> f_open f"

definition fwd_free :: "('v event \<Rightarrow> 'w event outcome) \<Rightarrow> ('v, 'w) fwd \<Rightarrow> bool" where
  "fwd_free dec f \<longleftrightarrow> f_pc f \<noteq> FPanicked \<and> \<not> idle f \<and> (\<forall>wr \<in> set (f_wch f). \<exists>dr. traverse dec wr = Ok dr)"

definition closing :: "('v event \<Rightarrow> 'w event outcome) \<Rightarrow> ('v, 'w) fwd_watcher \<Rightarrow> bool" where
  "closing dec w \<longleftrightarrow> wk_closer w \<noteq> CIdle \<and> (\<forall>f \<in> set (wk_fwds w). fwd_free dec f)"

fun f_todo :: "'v fwd_pc \<Rightarrow> nat" where
  "f_todo FRange = 4" | "f_todo (FSelect _) = 3" | "f_todo FReturn = 2" | "f_todo FLeave = 1" | "f_todo _ = 0"

lemma fwd_advances:
  assumes "fwd_free dec f" "f_pc f \<notin> {FLeave, FDone}"
  shows "\<exists>f'. fwd_step dec False True f f' \<and> fwd_free dec f' \<and> f_todo (f_pc f') < f_todo (f_pc f)"
proof (cases "f_pc f")
  case FRange
  show ?thesis
  proof (cases "f_wch f")
    case Nil
    with FRange assms have "\<not> f_open f" by (simp add: fwd_free_def idle_def)
    from f_end [OF FRange Nil this] FRange Nil show ?thesis by (fastforce simp: fwd_free_def idle_def)
  next
    case (Cons wr ws)
    with assms obtain dr where "traverse dec wr = Ok dr" by (auto simp: fwd_free_def)
    from f_range [OF FRange Cons this] FRange Cons assms(1) show ?thesis by (fastforce simp: fwd_free_def idle_def)
  qed
next
  case (FSelect dr)
  from f_stopped [OF FSelect] FSelect assms(1) show ?thesis by (fastforce simp: fwd_free_def idle_def)
next
  case FReturn
  from f_return [OF FReturn] FReturn assms(1) show ?thesis by (fastforce simp: fwd_free_def idle_def)
qed (use assms in \<open>auto simp: fwd_free_def\<close>)

interpretation watch_end: progress "wk_step dec below False" "\<lambda>w. wk_inv dec w \<and> closing dec w" "\<lambda>w. wk_closer w = CReturned"
    "\<lambda>w. sum_list (map (f_todo \<circ> f_pc) (wk_fwds w)) + (if wk_closer w = CReturned then 0 else 1)" for dec below
proof
  fix w :: "('a, 'b) fwd_watcher" assume *: "wk_inv dec w \<and> closing dec w" "wk_closer w \<noteq> CReturned"
  then have c: "wk_closer w = CWait" "wk_stopc w" "\<not> crashed w" by (cases "wk_closer w"; auto simp: closing_def wk_inv_def crashed_def fwd_free_def)+
  let ?goal = "\<lambda>w'. wk_step dec below False w w' \<and> closing dec w' \<and>
    sum_list (map (f_todo \<circ> f_pc) (wk_fwds w')) + (if wk_closer w' = CReturned then 0 else 1) <
    sum_list (map (f_todo \<circ> f_pc) (wk_fwds w)) + (if wk_closer w = CReturned then 0 else 1)"
  have "\<exists>w'. ?goal w'"
  proof (cases "wk_wg w = 0")
    case True
    from wk_waited [OF c(3,1) True] c * show ?thesis by (intro exI [of _ "w\<lparr>wk_closer := CReturned\<rparr>"]) (simp add: closing_def)
  next
    case False
    with * have "live f_ended (wk_fwds w) \<noteq> 0" by (simp add: wk_inv_def)
    then obtain i where i: "i < length (wk_fwds w)" "\<not> f_ended (wk_fwds w ! i)" by (auto simp: live_0 in_set_conv_nth)
    then have free: "fwd_free dec (wk_fwds w ! i)" using * by (simp add: closing_def)
    have upd: "?goal w'" if "wk_step dec below False w w'" "wk_closer w' = CWait" "wk_fwds w' = (wk_fwds w)[i := f']" "fwd_free dec f'"
        "f_todo (f_pc f') < f_todo (f_pc (wk_fwds w ! i))" for w' f'
      using that c * sum_update_less [OF i(1), of "f_todo \<circ> f_pc" f'] set_update_subset_insert [of "wk_fwds w" i f'] by (auto simp: closing_def)
    show ?thesis
    proof (cases "f_pc (wk_fwds w ! i) = FLeave")
      case True
      from upd [OF wk_leave [OF c(3) i(1) True]] c free True show ?thesis by (fastforce simp: fwd_free_def idle_def)
    next
      case False
      with i(2) obtain f' where "fwd_step dec False True (wk_fwds w ! i) f'" "fwd_free dec f'" "f_todo (f_pc f') < f_todo (f_pc (wk_fwds w ! i))"
        using fwd_advances [OF free] by auto
      with upd [OF wk_forward [OF c(3) i(1)]] c show ?thesis by fastforce
    qed
  qed
  with * show "\<exists>w'. wk_step dec below False w w' \<and> (wk_inv dec w' \<and> closing dec w') \<and>
      sum_list (map (f_todo \<circ> f_pc) (wk_fwds w')) + (if wk_closer w' = CReturned then 0 else 1) <
      sum_list (map (f_todo \<circ> f_pc) (wk_fwds w)) + (if wk_closer w = CReturned then 0 else 1)"
    using wk_step_inv by blast
qed

text \<open>Nothing but a response or the end of its watch moves an idle goroutine, and \<^verbatim>\<open>Close\<close> waits for it.\<close>

lemma idle_stays:
  assumes "wk_step dec below False w w'" "wk_inv dec w" "wk_closer w = CWait" "f \<in> set (wk_fwds w)" "idle f"
  shows "wk_closer w' = CWait \<and> f \<in> set (wk_fwds w')"
proof -
  obtain j where j: "j < length (wk_fwds w)" "wk_fwds w ! j = f" using assms(4) by (auto simp: in_set_conv_nth)
  have stuck: "\<not> fwd_step dec False stop f f'" for stop f' using assms(5) by (auto simp: idle_def elim: fwd_step.cases)
  show ?thesis using assms(1)
  proof cases
    case (wk_forward i f')
    with stuck j have "i \<noteq> j" by auto
    then show ?thesis using wk_forward j assms(3) nth_mem [of j "(wk_fwds w)[i := f']"] by simp
  next
    case (wk_leave i)
    with assms(5) j have "i \<noteq> j" by (auto simp: idle_def)
    then show ?thesis using wk_leave j assms(3) nth_mem [of j "(wk_fwds w)[i := (wk_fwds w ! i)\<lparr>f_pc := FDone\<rparr>]"] by simp
  next
    case wk_waited
    with assms(2) have "f_ended f" using assms(4) by (simp add: wk_inv_def live_0)
    with assms(5) show ?thesis by (simp add: idle_def)
  qed simp_all
qed

lemma dec_responses: "map (traverse dec) ws = map Ok ds \<Longrightarrow> traverse dec (concat ws @ xs) = bind_outcome (traverse dec xs) (\<lambda>ys. Ok (concat ds @ ys))"
proof (induction ws arbitrary: ds)
  case Nil
  then show ?case by (cases "traverse dec xs") simp_all
next
  case (Cons w ws)
  then obtain d es where ds: "ds = d # es" "traverse dec w = Ok d" "map (traverse dec) ws = map Ok es" by (cases ds) auto
  from ds(2) have "traverse dec (w @ zs) = bind_outcome (traverse dec zs) (\<lambda>ys. Ok (d @ ys))" for zs
  proof (induction w arbitrary: d)
    case Nil
    then show ?case by (cases "traverse dec zs") simp_all
  next
    case (Cons e w)
    then show ?case by (cases "dec e"; cases "traverse dec w"; cases "traverse dec zs") auto
  qed
  with Cons.IH [OF ds(3)] ds(1) show ?case by (cases "traverse dec xs") simp_all
qed

section \<open>What the caller receives\<close>

lemma inv_forwarded:
  assumes "fwd_inv dec f" "traverse dec (concat (f_seen f)) = Ok evs"
  shows "prefix (concat (f_out f)) evs" "idle f \<Longrightarrow> concat (f_out f) = evs" "f_closes f \<le> 1"
proof -
  from assms(1) obtain t d where td: "f_seen f = t @ d @ f_wch f" "map (traverse dec) t = map Ok (f_out f @ in_flight (f_pc f))"
    "f_pc f \<in> {FReturn, FLeave, FDone, FPanicked} \<or> d = []" "f_closes f \<le> 1"
    unfolding fwd_inv_def map_append by (metis le_numeral_extra(4) zero_le)
  from dec_responses [OF td(2), of "concat (d @ f_wch f)"] assms(2) td(1)
  obtain ys where ys: "traverse dec (concat (d @ f_wch f)) = Ok ys" "evs = concat (f_out f @ in_flight (f_pc f)) @ ys"
    by (cases "traverse dec (concat (d @ f_wch f))") auto
  then show "prefix (concat (f_out f)) evs" by simp
  show "concat (f_out f) = evs" if "idle f" using ys td(3) that by (auto simp: idle_def)
  show "f_closes f \<le> 1" by (rule td(4))
qed

text \<open>A watch can pass on all its responses: a goroutine that has.\<close>

definition passed :: "'v event list list \<Rightarrow> 'w event list list \<Rightarrow> ('v, 'w) fwd" where
  "passed rs ds = new_fwd\<lparr>f_out := ds, f_seen := rs\<rparr>"

definition one_watch :: "('v, 'w) fwd \<Rightarrow> ('v, 'w) fwd_watcher" where
  "one_watch f = \<lparr> wk_wg = 1, wk_stopc = False, wk_fwds = [f], wk_closer = CIdle \<rparr>"

lemma passed_idle: "idle (passed rs ds)"
  by (simp add: passed_def new_fwd_def idle_def)

lemma one_watch_step:
  assumes "wk_reachable dec below (one_watch f)" "fwd_step dec b False f f'" "f_pc f \<noteq> FPanicked"
  shows "wk_reachable dec below (one_watch f')"
  using wk_next [OF assms(1) wk_forward [of _ 0 dec b f']] assms(2,3) by (simp add: crashed_def one_watch_def)

lemma passed_reachable: "map (traverse dec) rs = map Ok ds \<Longrightarrow> wk_reachable dec below (one_watch (passed rs ds))"
proof (induction rs arbitrary: ds rule: rev_induct)
  case Nil
  then show ?case using wk_next [OF wk_init wk_Watch] by (simp add: NewWatcher_def crashed_def one_watch_def passed_def new_fwd_def)
next
  case (snoc r rs)
  then obtain es d where ds: "ds = es @ [d]" "traverse dec r = Ok d" "map (traverse dec) rs = map Ok es"
    by (cases ds rule: rev_cases) auto
  let ?f = "passed rs es"
  note r0 = one_watch_step [OF snoc.IH [OF ds(3)]]
  have r1: "wk_reachable dec below (one_watch (?f\<lparr>f_wch := [r], f_seen := rs @ [r]\<rparr>))"
    using r0 [OF f_arrive [of _ _ _ r]] by (simp add: passed_def new_fwd_def)
  have r2: "wk_reachable dec below (one_watch (?f\<lparr>f_pc := FSelect d, f_seen := rs @ [r]\<rparr>))"
    using one_watch_step [OF r1 f_range [of _ r "[]", OF _ _ ds(2)]] by (simp add: passed_def new_fwd_def)
  from one_watch_step [OF r2 f_send [of _ d]] show ?case by (simp add: ds(1) passed_def new_fwd_def)
qed

section \<open>Closing\<close>

text \<open>\<^verbatim>\<open>Close\<close> of the watcher gets to its end by its own goroutines once it has been called, when no goroutine waits for a response (the watch below has ended, or
  has delivered one) and what has arrived decodes.\<close>

theorem watch_close_ends:
  assumes "wk_reachable dec below w" "closing dec w"
  shows "\<exists>w'. (wk_step dec below False)\<^sup>*\<^sup>* w w' \<and> wk_closer w' = CReturned"
  using watch_end.ends [of dec w below] reachable_wk_inv [OF assms(1)] assms(2) by blast

text \<open>When \<^verbatim>\<open>Close\<close> closes the watcher below first, no goroutine waits.\<close>

theorem watch_close_below_ends:
  assumes "wk_reachable dec True w" "wk_closer w = CIdle" "\<not> crashed w"
    and "\<And>f wr. f \<in> set (wk_fwds w) \<Longrightarrow> wr \<in> set (f_wch f) \<Longrightarrow> \<exists>dr. traverse dec wr = Ok dr"
  shows "\<exists>w1 w'. wk_step dec True True w w1 \<and> wk_stopc w1 \<and> (wk_step dec True False)\<^sup>*\<^sup>* w1 w' \<and> wk_closer w' = CReturned"
proof -
  let ?w = "w\<lparr>wk_stopc := True, wk_closer := CWait, wk_fwds := map (f_open_update (\<lambda>_. False)) (wk_fwds w)\<rparr>"
  have c: "wk_step dec True True w ?w" using wk_Close [OF assms(3,2), of dec True] by simp
  have "closing dec ?w" using assms(3,4) by (auto simp: closing_def fwd_free_def idle_def crashed_def)
  from watch_close_ends [OF wk_next [OF assms(1) c] this] c show ?thesis by auto
qed

text \<open>While the watch of a goroutine is idle, a \<^verbatim>\<open>Close\<close> that does not close the watcher below waits.\<close>

lemma close_blocked:
  assumes "wk_reachable dec below w" "wk_closer w = CWait" "f \<in> set (wk_fwds w)" "idle f" "(wk_step dec below False)\<^sup>*\<^sup>* w w'"
  shows "wk_closer w' = CWait"
proof -
  from assms(5) have "wk_inv dec w' \<and> wk_closer w' = CWait \<and> f \<in> set (wk_fwds w')"
    by (induction rule: rtranclp_induct) (use assms reachable_wk_inv wk_step_inv idle_stays in blast)+
  then show ?thesis by blast
qed

end
