(* ===== verification/Watch_Stack.thy ===== *)
theory Watch_Stack
  imports Watch_Forward Encoded_Correct
begin

text \<open>
  The three watch layers over each other, as \<^verbatim>\<open>internal/util/client.go\<close> stacks them: the goroutines of one watch of the server in
  the namespace, the value encryption and the key encoding, each reading the unbuffered channel that the one below writes.
  Main result: over a cluster that holds the encrypted form of a store, no goroutine panics, and the server receives the events of that
  store, in the order of each key, without loss or repetition.
\<close>

section \<open>The layers\<close>

definition namespace_watcher :: "string \<Rightarrow> bool \<Rightarrow> ('v, 'v) fwd_watcher \<Rightarrow> ('v, 'v) fwd_watcher \<Rightarrow> bool" where
  "namespace_watcher pfx = wk_step (unprefix_event pfx) True"

definition crypto_watcher :: "('v, 'w) Cipher \<Rightarrow> bool \<Rightarrow> ('w, 'v) fwd_watcher \<Rightarrow> ('w, 'v) fwd_watcher \<Rightarrow> bool" where
  "crypto_watcher c = wk_step (crypto_dec_event c) True"

definition keyencode_watcher :: "KeyEncoder \<Rightarrow> bool \<Rightarrow> ('v, 'v) fwd_watcher \<Rightarrow> ('v, 'v) fwd_watcher \<Rightarrow> bool" where
  "keyencode_watcher ke = wk_step (dec_event ke) False"

section \<open>The goroutines of one watch\<close>

record ('v, 'w) watch_stack =
  ws_ns :: "('w, 'w) fwd"
  ws_crypto :: "('w, 'v) fwd"
  ws_key :: "('v, 'v) fwd"
  ws_stopc :: bool             \<comment> \<open>the watcher of the client is closed, the outermost\<close>

definition new_stack :: "('v, 'w) watch_stack" where
  "new_stack = \<lparr> ws_ns = new_fwd, ws_crypto = new_fwd, ws_key = new_fwd, ws_stopc = False \<rparr>"

text \<open>A channel without buffer: one side leaves its \<^verbatim>\<open>select\<close> with the response as the other takes it in its \<^verbatim>\<open>range\<close>.\<close>

definition hand_over :: "'v event list \<Rightarrow> ('u, 'v) fwd \<Rightarrow> ('u, 'v) fwd" where
  "hand_over dr f = f\<lparr>f_pc := FRange, f_out := f_out f @ [dr]\<rparr>"

definition take_in :: "'v event list \<Rightarrow> ('v, 'w) fwd \<Rightarrow> ('v, 'w) fwd" where
  "take_in wr f = f\<lparr>f_wch := f_wch f @ [wr], f_seen := f_seen f @ [wr]\<rparr>"

abbreviation waits :: "('v, 'w) fwd \<Rightarrow> bool" where
  "waits f \<equiv> f_pc f = FRange \<and> f_wch f = [] \<and> f_open f"

inductive stack_step :: "string \<Rightarrow> ('v, 'w) Cipher \<Rightarrow> KeyEncoder \<Rightarrow> ('v, 'w) watch_stack \<Rightarrow> ('v, 'w) watch_stack \<Rightarrow> bool" for pfx c ke where
  st_response: "f_open (ws_ns s) \<Longrightarrow> stack_step pfx c ke s (s\<lparr>ws_ns := take_in wr (ws_ns s)\<rparr>)"
| st_shut: "f_open (ws_ns s) \<Longrightarrow> stack_step pfx c ke s (s\<lparr>ws_ns := (ws_ns s)\<lparr>f_open := False\<rparr>\<rparr>)"
| st_cancel: "stack_step pfx c ke s (s\<lparr>ws_ns := (ws_ns s)\<lparr>f_ctx := True\<rparr>, ws_crypto := (ws_crypto s)\<lparr>f_ctx := True\<rparr>,
    ws_key := (ws_key s)\<lparr>f_ctx := True\<rparr>\<rparr>)"
| st_Close: "stack_step pfx c ke s (s\<lparr>ws_stopc := True\<rparr>)"
| st_ns: "fwd_step (unprefix_event pfx) False False (ws_ns s) f \<Longrightarrow> stack_step pfx c ke s (s\<lparr>ws_ns := f\<rparr>)"
| st_crypto: "fwd_step (crypto_dec_event c) False False (ws_crypto s) g \<Longrightarrow> stack_step pfx c ke s (s\<lparr>ws_crypto := g\<rparr>)"
| st_key: "fwd_step (dec_event ke) False (ws_stopc s) (ws_key s) h \<Longrightarrow> stack_step pfx c ke s (s\<lparr>ws_key := h\<rparr>)"
| st_ns_crypto: "f_pc (ws_ns s) = FSelect wr \<Longrightarrow> waits (ws_crypto s) \<Longrightarrow>
    stack_step pfx c ke s (s\<lparr>ws_ns := hand_over wr (ws_ns s), ws_crypto := take_in wr (ws_crypto s)\<rparr>)"
| st_crypto_key: "f_pc (ws_crypto s) = FSelect dr \<Longrightarrow> waits (ws_key s) \<Longrightarrow>
    stack_step pfx c ke s (s\<lparr>ws_crypto := hand_over dr (ws_crypto s), ws_key := take_in dr (ws_key s)\<rparr>)"
| st_receive: "f_pc (ws_key s) = FSelect dr \<Longrightarrow> stack_step pfx c ke s (s\<lparr>ws_key := hand_over dr (ws_key s)\<rparr>)"
| st_ns_closed: "0 < f_closes (ws_ns s) \<Longrightarrow> f_open (ws_crypto s) \<Longrightarrow> stack_step pfx c ke s (s\<lparr>ws_crypto := (ws_crypto s)\<lparr>f_open := False\<rparr>\<rparr>)"
| st_crypto_closed: "0 < f_closes (ws_crypto s) \<Longrightarrow> f_open (ws_key s) \<Longrightarrow> stack_step pfx c ke s (s\<lparr>ws_key := (ws_key s)\<lparr>f_open := False\<rparr>\<rparr>)"

abbreviation stack_reaches :: "string \<Rightarrow> ('v, 'w) Cipher \<Rightarrow> KeyEncoder \<Rightarrow> ('v, 'w) watch_stack \<Rightarrow> bool" where
  "stack_reaches pfx c ke \<equiv> (stack_step pfx c ke)\<^sup>*\<^sup>* new_stack"

section \<open>The invariant\<close>

text \<open>Each goroutine is in a state of its own, and every response that one has sent is one that the next has taken.\<close>

definition fwd_good :: "('v event \<Rightarrow> 'w event outcome) \<Rightarrow> ('v, 'w) fwd \<Rightarrow> bool" where
  "fwd_good dec f \<longleftrightarrow> fwd_inv dec f \<and> panic_inv dec f"

lemma fwd_good_step: "fwd_good dec f \<Longrightarrow> fwd_step dec b stop f f' \<Longrightarrow> fwd_good dec f'"
  using fwd_step_inv fwd_step_panic unfolding fwd_good_def by blast

lemma fwd_good_helped:
  assumes "fwd_good dec f"
  shows "f_open f \<Longrightarrow> fwd_good dec (take_in wr f)" "f_open f \<Longrightarrow> fwd_good dec (f\<lparr>f_open := False\<rparr>)"
    "fwd_good dec (f\<lparr>f_ctx := True\<rparr>)" "f_pc f = FSelect dr \<Longrightarrow> fwd_good dec (hand_over dr f)"
  using fwd_good_step [OF assms f_arrive] fwd_good_step [OF assms f_shut] fwd_good_step [OF assms f_cancel] fwd_good_step [OF assms f_send]
  by (simp_all add: take_in_def hand_over_def)

lemma own_step_channels: "fwd_step dec False stop f f' \<Longrightarrow> f_seen f' = f_seen f \<and> f_out f' = f_out f"
  by (erule fwd_step.cases) auto

definition stack_inv :: "string \<Rightarrow> ('v, 'w) Cipher \<Rightarrow> KeyEncoder \<Rightarrow> ('v, 'w) watch_stack \<Rightarrow> bool" where
  "stack_inv pfx c ke s \<longleftrightarrow> fwd_good (unprefix_event pfx) (ws_ns s) \<and> fwd_good (crypto_dec_event c) (ws_crypto s) \<and>
     fwd_good (dec_event ke) (ws_key s) \<and> f_seen (ws_crypto s) = f_out (ws_ns s) \<and> f_seen (ws_key s) = f_out (ws_crypto s)"

lemma stack_step_inv:
  assumes "stack_step pfx c ke s s'" "stack_inv pfx c ke s"
  shows "stack_inv pfx c ke s'"
  using assms
proof (induction rule: stack_step.induct)
  case (st_ns s f)
  then show ?case using fwd_good_step [OF _ st_ns.hyps] own_step_channels [OF st_ns.hyps] by (simp add: stack_inv_def)
next
  case (st_crypto s g)
  then show ?case using fwd_good_step [OF _ st_crypto.hyps] own_step_channels [OF st_crypto.hyps] by (simp add: stack_inv_def)
next
  case (st_key s h)
  then show ?case using fwd_good_step [OF _ st_key.hyps] own_step_channels [OF st_key.hyps] by (simp add: stack_inv_def)
qed (simp_all add: stack_inv_def fwd_good_helped, simp_all add: take_in_def hand_over_def)

lemma stack_reaches_inv: "stack_reaches pfx c ke s \<Longrightarrow> stack_inv pfx c ke s"
proof (induction rule: rtranclp_induct)
  case base
  show ?case by (simp add: stack_inv_def new_stack_def fwd_good_def new_fwd_def fwd_inv_def panic_inv_def)
qed (rule stack_step_inv)

section \<open>What passes through\<close>

lemma traverse_append: "traverse g (xs @ ys) = bind_outcome (traverse g xs) (\<lambda>us. bind_outcome (traverse g ys) (\<lambda>vs. Ok (us @ vs)))"
proof (induction xs)
  case Nil
  show ?case by (cases "traverse g ys") simp_all
next
  case (Cons x xs)
  then show ?case by (cases "g x"; cases "traverse g xs"; cases "traverse g ys") simp_all
qed

lemma traverse_prefix:
  assumes "prefix xs ys" "traverse g ys = Ok zs"
  obtains us where "traverse g xs = Ok us" "prefix us zs"
proof -
  from assms(1) obtain ws where "ys = xs @ ws" by (auto simp: prefix_def)
  with assms(2) that show thesis by (cases "traverse g xs"; cases "traverse g ws") (auto simp: traverse_append)
qed

lemma traverse_concat: "traverse g (concat rs) = Ok zs \<Longrightarrow> r \<in> set rs \<Longrightarrow> \<exists>us. traverse g r = Ok us"
proof (induction rs arbitrary: zs)
  case (Cons r' rs)
  then show ?case by (cases "traverse g r'"; cases "traverse g (concat rs)") (auto simp: traverse_append)
qed simp

lemma layer_passes:
  assumes "fwd_good dec f" "prefix (concat (f_seen f)) xs" "traverse dec xs = Ok ys"
  shows "prefix (concat (f_out f)) ys" "f_pc f \<noteq> FPanicked" "f_closes f \<le> 1" "idle f \<Longrightarrow> concat (f_seen f) = xs \<Longrightarrow> concat (f_out f) = ys"
proof -
  obtain us where us: "traverse dec (concat (f_seen f)) = Ok us" "prefix us ys" by (rule traverse_prefix [OF assms(2,3)])
  note fw = inv_forwarded [OF _ us(1)] assms(1) [unfolded fwd_good_def]
  then show "prefix (concat (f_out f)) ys" "f_closes f \<le> 1" using us(2) prefix_order.trans by blast+
  show "f_pc f \<noteq> FPanicked" using assms(1) traverse_concat [OF us(1)] by (fastforce simp: fwd_good_def panic_inv_def)
  show "concat (f_out f) = ys" if "idle f" "concat (f_seen f) = xs" using fw that us(1) assms(3) by auto
qed

section \<open>Properties\<close>

text \<open>The layers of a client, and what it makes of a watch on its way to the cluster.\<close>

lemma cli_Watch:
  assumes "MustIrcdEtcdClient g rnd etcd_cli pfx (Some (SymmetricKey aeskey)) = Ok cli" "pfx \<noteq> []"
    "NewAESCipher g aeskey = Inr c" "aes_NewCipher g aeskey = Inr b" "cl_Watch cli D key opts r = Ok L"
  obtains e xs ys where "ke_Encode (secure_encoder (NewKeyEncoderHMAC g aeskey b)) key = Ok e"
    "traverse (unprefix_event pfx) (case ns_watch_request pfx e opts of (k, os) \<Rightarrow> watch_events D k os r) = Ok xs"
    "traverse (crypto_dec_event c) xs = Ok ys" "traverse (dec_event (secure_encoder (NewKeyEncoderHMAC g aeskey b))) ys = Ok L"
proof -
  have cli: "cli = keyencode_cli (crypto_cli (namespace_cli etcd_cli pfx) c rnd) (secure_encoder (NewKeyEncoderHMAC g aeskey b))"
    using assms(1-4) by (simp add: MustIrcdEtcdClient_def MustCrypto_def secure_encoder_def)
  show thesis using assms(5) that
    by (auto simp: cli keyencode_cli_def crypto_cli_def namespace_cli_def etcd_cli_def kv_Watch_def crypto_Watch_def ns_Watch_def bind_outcome_Ok_iff split_beta)
qed

text \<open>Nothing stands in the way of a response: it can pass all layers.\<close>

definition passed_stack :: "'w event list list \<Rightarrow> 'w event list list \<Rightarrow> 'v event list list \<Rightarrow> 'v event list list \<Rightarrow> ('v, 'w) watch_stack" where
  "passed_stack rs xs ys zs = \<lparr> ws_ns = passed rs xs, ws_crypto = passed xs ys, ws_key = passed ys zs, ws_stopc = False \<rparr>"

definition taking :: "'v event list list \<Rightarrow> 'w event list list \<Rightarrow> 'v event list \<Rightarrow> ('v, 'w) fwd" where
  "taking rs xs r = (passed rs xs)\<lparr>f_wch := [r], f_seen := rs @ [r]\<rparr>"

definition holding :: "'v event list list \<Rightarrow> 'w event list list \<Rightarrow> 'v event list \<Rightarrow> 'w event list \<Rightarrow> ('v, 'w) fwd" where
  "holding rs xs r x = (passed rs xs)\<lparr>f_pc := FSelect x, f_seen := rs @ [r]\<rparr>"

lemma stages:
  shows "waits (passed rs xs)" "take_in r (passed rs xs) = taking rs xs r" "f_pc (holding rs xs r x) = FSelect x"
    "hand_over x (holding rs xs r x) = passed (rs @ [r]) (xs @ [x])"
    "traverse dec r = Ok x \<Longrightarrow> fwd_step dec False stop (taking rs xs r) (holding rs xs r x)"
  using f_range [of "taking rs xs r" r "[]" dec x stop]
  by (simp_all add: taking_def holding_def passed_def new_fwd_def take_in_def hand_over_def)

lemma stack_passes:
  assumes "traverse (unprefix_event pfx) r = Ok x" "traverse (crypto_dec_event c) x = Ok y" "traverse (dec_event ke) y = Ok z"
  shows "(stack_step pfx c ke)\<^sup>*\<^sup>* (passed_stack rs xs ys zs) (passed_stack (rs @ [r]) (xs @ [x]) (ys @ [y]) (zs @ [z]))"
proof -
  define at where "at n m k = \<lparr> ws_ns = n, ws_crypto = m, ws_key = k, ws_stopc = False \<rparr>"
    for n :: "('a, 'a) fwd" and m :: "('a, 'b) fwd" and k :: "('b, 'b) fwd"
  let ?N = "passed (rs @ [r]) (xs @ [x])" and ?M = "passed (xs @ [x]) (ys @ [y])" and ?K = "passed (ys @ [y]) (zs @ [z])"
    and ?go = "\<lambda>s t. (stack_step pfx c ke)\<^sup>*\<^sup>* s t"
  have "?go (at (passed rs xs) (passed xs ys) (passed ys zs)) (at (taking rs xs r) (passed xs ys) (passed ys zs))"
    using st_response [of "at (passed rs xs) (passed xs ys) (passed ys zs)" pfx c ke r] by (auto simp: at_def stages)
  also have "?go \<dots> (at (holding rs xs r x) (passed xs ys) (passed ys zs))"
    using st_ns [of pfx "at (taking rs xs r) (passed xs ys) (passed ys zs)" "holding rs xs r x" c ke] assms(1) by (auto simp: at_def stages)
  also have "?go \<dots> (at ?N (taking xs ys x) (passed ys zs))"
    using st_ns_crypto [of "at (holding rs xs r x) (passed xs ys) (passed ys zs)" x pfx c ke] by (auto simp: at_def stages)
  also have "?go \<dots> (at ?N (holding xs ys x y) (passed ys zs))"
    using st_crypto [of c "at ?N (taking xs ys x) (passed ys zs)" "holding xs ys x y" pfx ke] assms(2) by (auto simp: at_def stages)
  also have "?go \<dots> (at ?N ?M (taking ys zs y))"
    using st_crypto_key [of "at ?N (holding xs ys x y) (passed ys zs)" y pfx c ke] by (auto simp: at_def stages)
  also have "?go \<dots> (at ?N ?M (holding ys zs y z))"
    using st_key [of ke "at ?N ?M (taking ys zs y)" "holding ys zs y z" pfx c] assms(3) by (auto simp: at_def stages)
  also have "?go \<dots> (at ?N ?M ?K)"
    using st_receive [of "at ?N ?M (holding ys zs y z)" z pfx c ke] by (auto simp: at_def stages)
  finally show ?thesis by (simp add: at_def passed_stack_def)
qed

lemma stack_passed:
  assumes "traverse (unprefix_event pfx) r = Ok x" "traverse (crypto_dec_event c) x = Ok y" "traverse (dec_event ke) y = Ok z"
  shows "stack_reaches pfx c ke (passed_stack [r] [x] [y] [z])"
  using stack_passes [OF assms, of "[]" "[]" "[]" "[]"] by (simp add: new_stack_def passed_stack_def passed_def new_fwd_def)

lemma stack_forwards:
  assumes "crypto_ok g" "ns_prefix pfx" "pfx \<noteq> []" "MustIrcdEtcdClient g rnd etcd_cli pfx (Some (SymmetricKey aeskey)) = Ok cli"
    and "stack_view g aeskey pfx d D" "watch_fits (stack_key g aeskey) (stack_pfx g aeskey) key opts"
    and "NewAESCipher g aeskey = Inr c" "aes_NewCipher g aeskey = Inr b" "ke = secure_encoder (NewKeyEncoderHMAC g aeskey b)"
    and "stack_reaches pfx c ke s" "ke_Encode ke key = Ok e" "ns_watch_request pfx e opts = (k0, opts0)"
    and "prefix (concat (f_seen (ws_ns s))) (watch_events D k0 opts0 r)"
  shows "\<exists>L. (\<forall>k. filter (\<lambda>ev. ev_key ev = k) L = filter (\<lambda>ev. ev_key ev = k) (watch_events d key opts r)) \<and>
    prefix (concat (f_out (ws_key s))) L \<and> f_closes (ws_key s) \<le> 1 \<and>
    (concat (f_seen (ws_ns s)) = watch_events D k0 opts0 r \<and> idle (ws_ns s) \<and> idle (ws_crypto s) \<and> idle (ws_key s) \<longrightarrow> concat (f_out (ws_key s)) = L) \<and>
    f_pc (ws_ns s) \<noteq> FPanicked \<and> f_pc (ws_crypto s) \<noteq> FPanicked \<and> f_pc (ws_key s) \<noteq> FPanicked"
proof -
  obtain L where L: "cl_Watch cli D key opts r = Ok L" "\<forall>k. filter (\<lambda>ev. ev_key ev = k) L = filter (\<lambda>ev. ev_key ev = k) (watch_events d key opts r)"
    using encrypted_Watch [OF assms(1,2,4-6), of r] by blast
  obtain e' xs ys where "ke_Encode ke key = Ok e'" "traverse (unprefix_event pfx) (case ns_watch_request pfx e' opts of (k, os) \<Rightarrow> watch_events D k os r) = Ok xs"
    and t: "traverse (crypto_dec_event c) xs = Ok ys" "traverse (dec_event ke) ys = Ok L"
    by (rule cli_Watch [OF assms(4,3,7,8) L(1), folded assms(9)])
  with assms(11,12) have x: "traverse (unprefix_event pfx) (watch_events D k0 opts0 r) = Ok xs" by simp
  have inv: "fwd_good (unprefix_event pfx) (ws_ns s)" "fwd_good (crypto_dec_event c) (ws_crypto s)" "fwd_good (dec_event ke) (ws_key s)"
    "f_seen (ws_crypto s) = f_out (ws_ns s)" "f_seen (ws_key s) = f_out (ws_crypto s)"
    using stack_reaches_inv [OF assms(10)] by (simp_all add: stack_inv_def)
  note n = layer_passes [OF inv(1) assms(13) x]
  note c = layer_passes [OF inv(2) _ t(1), unfolded inv(4), OF n(1)]
  note k = layer_passes [OF inv(3) _ t(2), unfolded inv(5), OF c(1)]
  show ?thesis using L(2) n c k by blast
qed

text \<open>
  C28.  The watch of a server over the whole client: while the namespace's goroutine has been given the beginning of the events that the cluster logs for the request, no goroutine panics,
  and what the server has received is the beginning of a list with, for every key, the events of the plain store in their order: all of it when
  all events have arrived and the three goroutines wait for more.  The server's channel is closed at most once.
\<close>

theorem stack_forwarded:
  assumes "crypto_ok g" "ns_prefix pfx" "pfx \<noteq> []" "MustIrcdEtcdClient g rnd etcd_cli pfx (Some (SymmetricKey aeskey)) = Ok cli"
    and "stack_view g aeskey pfx d D" "watch_fits (stack_key g aeskey) (stack_pfx g aeskey) key opts"
    and "NewAESCipher g aeskey = Inr c" "aes_NewCipher g aeskey = Inr b" "ke = secure_encoder (NewKeyEncoderHMAC g aeskey b)"
    and "stack_reaches pfx c ke s" "ke_Encode ke key = Ok e" "ns_watch_request pfx e opts = (k0, opts0)"
    and "prefix (concat (f_seen (ws_ns s))) (watch_events D k0 opts0 r)"
  shows "\<exists>L. (\<forall>k. filter (\<lambda>ev. ev_key ev = k) L = filter (\<lambda>ev. ev_key ev = k) (watch_events d key opts r)) \<and>
    prefix (concat (f_out (ws_key s))) L \<and> f_closes (ws_key s) \<le> 1 \<and>
    (concat (f_seen (ws_ns s)) = watch_events D k0 opts0 r \<and> idle (ws_ns s) \<and> idle (ws_crypto s) \<and> idle (ws_key s) \<longrightarrow> concat (f_out (ws_key s)) = L) \<and>
    f_pc (ws_ns s) \<noteq> FPanicked \<and> f_pc (ws_crypto s) \<noteq> FPanicked \<and> f_pc (ws_key s) \<noteq> FPanicked"
  by (rule stack_forwards [OF assms])

theorem stack_forwarded_witness:
  "\<exists>D c b s. NewAESCipher demo_crypto demo_aeskey = Inr c \<and> aes_NewCipher demo_crypto demo_aeskey = Inr b \<and>
     stack_view demo_crypto demo_aeskey ''/irc/'' (fold serve [ReqOp (OpPut (keyUserCtl ''bo'') [1] 0 False False)] init_etcd) D \<and>
     stack_reaches ''/irc/'' c (secure_encoder (NewKeyEncoderHMAC demo_crypto demo_aeskey b)) s \<and>
     (\<exists>kv. filter (\<lambda>ev. ev_key ev = keyUserCtl ''bo'') (concat (f_out (ws_key s))) = [PutEvent (keyUserCtl ''bo'') kv None])"
proof -
  let ?put = "ReqOp (OpPut (keyUserCtl ''bo'') [1] 0 False False) :: byte list request" and ?key = "keyUserCtl ''bo''"
  let ?d = "serve ?put init_etcd"
  have "(case watch_events ?d ?key [] 1 of [PutEvent k kv None] \<Rightarrow> k = ?key | _ \<Rightarrow> False)" by code_simp
  then obtain kv where ev: "watch_events ?d ?key [] 1 = [PutEvent ?key kv None]" by (auto split: list.splits event.splits option.splits)
  obtain cli where cli: "demo_cli = Ok cli" using demo_cli_Ok by blast
  obtain c where c: "NewAESCipher demo_crypto demo_aeskey = Inr c" using demo_cipher(2) by blast
  obtain b where b: "aes_NewCipher demo_crypto demo_aeskey = Inr b" using demo_cipher(1) by blast
  obtain D where D: "stack_view demo_crypto demo_aeskey ''/irc/'' ?d D"
    using stack_serve [OF demo_crypto_ok default_prefix cli [unfolded demo_cli_def] demo_view, of ?put] demo_stack_key by auto
  have w: "watch_fits (stack_key demo_crypto demo_aeskey) (stack_pfx demo_crypto demo_aeskey) ?key []" using demo_stack_key by (simp add: watch_fits_def)
  obtain L where L: "cl_Watch cli D ?key [] 1 = Ok L" using encrypted_Watch [OF demo_crypto_ok default_prefix cli [unfolded demo_cli_def] D w] by blast
  let ?ke = "secure_encoder (NewKeyEncoderHMAC demo_crypto demo_aeskey b)"
  obtain e xs ys where e: "ke_Encode ?ke ?key = Ok e"
    and t: "traverse (unprefix_event ''/irc/'') (case ns_watch_request ''/irc/'' e [] of (k, os) \<Rightarrow> watch_events D k os 1) = Ok xs"
      "traverse (crypto_dec_event c) xs = Ok ys" "traverse (dec_event ?ke) ys = Ok L"
    by (rule cli_Watch [OF cli [unfolded demo_cli_def] _ c b L]) simp_all
  obtain k0 os where q: "ns_watch_request ''/irc/'' e [] = (k0, os)" by fastforce
  let ?s = "passed_stack [watch_events D k0 os 1] [xs] [ys] [L]"
  have s: "stack_reaches ''/irc/'' c ?ke ?s" by (rule stack_passed) (use t q in simp_all)
  from stack_forwarded [OF demo_crypto_ok default_prefix _ cli [unfolded demo_cli_def] D w c b refl s e q, of 1]
  have "filter (\<lambda>ev. ev_key ev = ?key) (concat (f_out (ws_key ?s))) = filter (\<lambda>ev. ev_key ev = ?key) (watch_events ?d ?key [] 1)"
    by (auto simp: passed_stack_def passed_idle) (simp_all add: passed_def)
  with c b D s ev show ?thesis by auto
qed

section \<open>Closing the client\<close>

text \<open>
  \<^verbatim>\<open>Close\<close> of the client's watcher waits while one of its watches is idle: the key encoding's \<^verbatim>\<open>Close\<close> closes \<^verbatim>\<open>stopc\<close>, which a goroutine looks at only
  after a response, and does not close the watcher below, so its goroutines never get to its return by themselves.
\<close>

theorem watch_close_blocked:
  assumes "wk_reachable (dec_event ke) False w" "wk_closer w = CWait" "f \<in> set (wk_fwds w)" "idle f" "(keyencode_watcher ke False)\<^sup>*\<^sup>* w w'"
  shows "wk_closer w' = CWait"
  using close_blocked [OF assms(1-4)] assms(5) unfolding keyencode_watcher_def by blast

theorem watch_close_blocked_witness:
  "\<nexists>w'. (keyencode_watcher nopKeyEncoder False)\<^sup>*\<^sup>* ((one_watch new_fwd :: (nat, nat) fwd_watcher)\<lparr>wk_stopc := True, wk_closer := CWait\<rparr>) w' \<and>
     wk_closer w' = CReturned"
proof
  let ?w = "(one_watch new_fwd :: (nat, nat) fwd_watcher)\<lparr>wk_stopc := True, wk_closer := CWait\<rparr>"
  assume "\<exists>w'. (keyencode_watcher nopKeyEncoder False)\<^sup>*\<^sup>* ?w w' \<and> wk_closer w' = CReturned"
  then obtain w' where w': "(keyencode_watcher nopKeyEncoder False)\<^sup>*\<^sup>* ?w w'" "wk_closer w' = CReturned" by blast
  have "wk_reachable (dec_event nopKeyEncoder) False (one_watch new_fwd :: (nat, nat) fwd_watcher)"
    using passed_reachable [of "dec_event nopKeyEncoder" "[]" "[]" False] by (simp add: passed_def new_fwd_def)
  from wk_next [OF this wk_Close] have "wk_reachable (dec_event nopKeyEncoder) False ?w" by (simp add: one_watch_def crashed_def new_fwd_def)
  from watch_close_blocked [OF this _ _ _ w'(1), of new_fwd] w'(2) show False by (simp add: one_watch_def idle_def new_fwd_def)
qed

text \<open>The namespace and the value encryption close the watcher below first: their \<^verbatim>\<open>Close\<close> returns.\<close>

theorem layer_close_ends:
  assumes "wk_reachable (unprefix_event pfx) True w" "wk_closer w = CIdle" "\<not> crashed w"
    and "\<And>f wr. f \<in> set (wk_fwds w) \<Longrightarrow> wr \<in> set (f_wch f) \<Longrightarrow> \<exists>dr. traverse (unprefix_event pfx) wr = Ok dr"
  shows "\<exists>w1 w'. namespace_watcher pfx True w w1 \<and> wk_stopc w1 \<and> (namespace_watcher pfx False)\<^sup>*\<^sup>* w1 w' \<and> wk_closer w' = CReturned"
  using watch_close_below_ends [OF assms] unfolding namespace_watcher_def .

theorem crypto_close_ends:
  assumes "wk_reachable (crypto_dec_event c) True w" "wk_closer w = CIdle" "\<not> crashed w"
    and "\<And>f wr. f \<in> set (wk_fwds w) \<Longrightarrow> wr \<in> set (f_wch f) \<Longrightarrow> \<exists>dr. traverse (crypto_dec_event c) wr = Ok dr"
  shows "\<exists>w1 w'. crypto_watcher c True w w1 \<and> wk_stopc w1 \<and> (crypto_watcher c False)\<^sup>*\<^sup>* w1 w' \<and> wk_closer w' = CReturned"
  using watch_close_below_ends [OF assms] unfolding crypto_watcher_def .

end
