(* ===== verification/Cluster_Network.thy ===== *)
theory Cluster_Network
  imports Encoded_Correct Network_Correct "HOL-Library.Countable"
begin

text \<open>
  The network in the cluster.  The network is shown correct on stores of typed values, and the client of the server on stores of bytes;
  this theory puts the two together.  The bytes of a value are an argument, of which only the round trip is
  used.  Main result: after any run of the network through encrypting clients, what a client reads from the cluster is a consistent network.
\<close>

section \<open>Values as bytes\<close>

text \<open>What the decoders of users and rosters give on encoded values.\<close>

definition gob_bytes_ok :: "(gob \<Rightarrow> byte list) \<Rightarrow> (byte list \<Rightarrow> error + UserValue) \<Rightarrow> (byte list \<Rightarrow> error + ChannelNicks) \<Rightarrow> bool" where
  "gob_bytes_ok to_bytes of_user of_nicks \<longleftrightarrow>
     (\<forall>uv. of_user (to_bytes (encodeUserValue uv)) = Inr uv) \<and> (\<forall>cns. of_nicks (to_bytes (encodeChannelNicks cns)) = Inr cns)"

definition bytes_store :: "(gob \<Rightarrow> byte list) \<Rightarrow> gob etcd \<Rightarrow> byte list etcd \<Rightarrow> bool" where
  "bytes_store to_bytes = store_rel id (\<lambda>v w. w = to_bytes v)"

lemma op_rel_bytes: "op_key req \<noteq> [] \<Longrightarrow> op_rel id (\<lambda>v w. w = h v) req (map_op h req)"
  by (cases req) (auto simp: range_rel_id option.map_id)

lemma ops_rel_bytes: "\<forall>req \<in> set reqs. op_key req \<noteq> [] \<Longrightarrow> list_all2 (op_rel id (\<lambda>v w. w = h v)) reqs (map (map_op h) reqs)"
  by (induction reqs) (simp_all add: op_rel_bytes)

fun req_keys :: "'v request \<Rightarrow> string list" where
  "req_keys (ReqTxn cmps succ fail) = map cmp_key cmps @ map op_key (succ @ fail)"
| "req_keys (ReqOp req) = [op_key req]"
| "req_keys _ = []"

lemma serve_bytes:
  assumes st: "bytes_store h d D" and k: "[] \<notin> set (req_keys q)"
  shows "bytes_store h (serve q d) (serve (map_request h q) D)"
proof (cases q)
  case (ReqTxn cmps succ fail)
  then have "list_all (\<lambda>c. cmp_key c \<noteq> []) cmps" "\<forall>req \<in> set succ. op_key req \<noteq> []" "\<forall>req \<in> set fail. op_key req \<noteq> []"
    using k by (force simp: list_all_iff)+
  from same.Txn_rel [OF st [unfolded bytes_store_def] this(1) ops_rel_bytes [OF this(2)] ops_rel_bytes [OF this(3)]] st ReqTxn
  show ?thesis by (auto simp: cmp_map_id bytes_store_def split: sum.splits)
next
  case (ReqOp req)
  with k have "op_key req \<noteq> []" by auto
  from same.DoOp_rel [OF st [unfolded bytes_store_def] op_rel_bytes [OF this]] st ReqOp
  show ?thesis by (auto simp: bytes_store_def split: sum.splits)
next
  case (ReqGrant i)
  with same.LeaseGrant_rel [OF st [unfolded bytes_store_def], of i] st show ?thesis by (auto simp: bytes_store_def split: sum.splits)
next
  case (ReqRevoke i)
  with same.LeaseRevoke_rel [OF st [unfolded bytes_store_def], of i] st show ?thesis by (auto simp: bytes_store_def split: sum.splits)
qed

lemma serves_bytes:
  "bytes_store h d D \<Longrightarrow> \<forall>q \<in> set qs. [] \<notin> set (req_keys q) \<Longrightarrow> bytes_store h (fold serve qs d) (fold serve (map (map_request h) qs) D)"
  by (induction qs arbitrary: d D) (simp_all add: serve_bytes)

lemma op_fits_bytes: "op_fits valid pfx (map_op h req) = op_fits valid pfx req"
  by (cases "(valid, pfx, req)" rule: op_fits.cases) simp_all

lemma req_fits_bytes: "req_fits valid pfx foreign (map_request h q) = req_fits valid pfx foreign q"
  by (cases q) (simp_all add: list_all_iff op_fits_bytes)

section \<open>Reading through the client\<close>

definition read_key :: "('s, byte list) Client \<Rightarrow> 's \<Rightarrow> string \<Rightarrow> byte list list outcome" where
  "read_key cli D k = bind_outcome (cl_Do cli D (OpGet k None 0)) (\<lambda>r. Ok (case r of
     Inr (RangeResp rv kvs, D') \<Rightarrow> map (kv_Value \<circ> snd) kvs | _ \<Rightarrow> []))"

definition read_user :: "(byte list \<Rightarrow> error + UserValue) \<Rightarrow> ('s, byte list) Client \<Rightarrow> 's \<Rightarrow> string \<Rightarrow> UserValue option" where
  "read_user of_user cli D n = (case read_key cli D (keyUserCtl n) of
     Ok [b] \<Rightarrow> (case of_user b of Inr uv \<Rightarrow> Some uv | Inl e \<Rightarrow> None) | _ \<Rightarrow> None)"

definition read_nicks :: "(byte list \<Rightarrow> error + ChannelNicks) \<Rightarrow> ('s, byte list) Client \<Rightarrow> 's \<Rightarrow> string \<Rightarrow> int \<Rightarrow> ChannelNicks" where
  "read_nicks of_nicks cli D ch l = (case read_key cli D (keyChanNicks ch l) of
     Ok [b] \<Rightarrow> (case of_nicks b of Inr cns \<Rightarrow> cns | Inl e \<Rightarrow> []) | _ \<Rightarrow> [])"

lemma stack_read:
  assumes g: "crypto_ok g" "ns_prefix pfx" "MustIrcdEtcdClient g rnd etcd_cli pfx (Some (SymmetricKey aeskey)) = Ok cli"
    and v: "stack_view g aeskey pfx d D" and k: "stack_key g aeskey k" and s: "snap_sorted (current d)"
  shows "read_key cli D k = Ok (case lookup d k of None \<Rightarrow> [] | Some kv \<Rightarrow> [kv_Value kv])"
proof (rule stack_client [OF g])
  fix ke valid pf cl R
  assume ec: "encoded_client ke valid pf cl R" and eqs: "cli = keyencode_cli cl ke" "stack_view g aeskey pfx = enc_view R ke valid"
    "stack_key g aeskey = valid" "stack_pfx g aeskey = pf"
  have fit: "op_fits valid pf (OpGet k None 0 :: byte list op)" using k eqs by simp
  have "k \<noteq> []" using kv_encoder.keys_nonempty [OF encoded_client.axioms(1) [OF ec]] k eqs by auto
  then have "DoOp d (OpGet k None 0) = Inr (RangeResp (revision d) (filter (\<lambda>p. fst p = k) (current d)), d)"
    by (simp add: DoOp_def tx_range_def in_range_def tx_revision_def tx_end_def)
  with encoded_client.client_Do [OF ec v [unfolded eqs] fit] obtain r' s' where r: "kv_Do cl ke D (OpGet k None 0) = Ok (Inr (r', s'))"
    "same_response r' (RangeResp (revision d) (filter (\<lambda>p. fst p = k) (current d)))" by auto
  moreover have "filter (\<lambda>p. fst p = k) (current d) = (case lookup d k of None \<Rightarrow> [] | Some kv \<Rightarrow> [(k, kv)])"
    using sorted_key [OF s] by (simp add: lookup_def)
  ultimately show ?thesis
    by (cases r') (auto simp: read_key_def eqs keyencode_cli_def split: option.splits)
qed

text \<open>In a typed store, users and rosters are read as they are.\<close>

lemma read_network:
  assumes g: "crypto_ok g" "ns_prefix pfx" "MustIrcdEtcdClient g rnd etcd_cli pfx (Some (SymmetricKey aeskey)) = Ok cli"
    and gob: "gob_bytes_ok to_bytes of_user of_nicks" and b: "bytes_store to_bytes d d1" "stack_view g aeskey pfx d1 D" and t: "typed d"
  shows "stack_key g aeskey (keyUserCtl n) \<Longrightarrow> read_user of_user cli D n = user_at d n"
    and "stack_key g aeskey (keyChanNicks ch l) \<Longrightarrow> read_nicks of_nicks cli D ch l = nicks_at d ch l"
proof -
  have s: "snap_sorted (current d1)" using same.current_rel b(1) by (auto simp: bytes_store_def snap_rel_def)
  have "(case lookup d1 k of None \<Rightarrow> [] | Some kv \<Rightarrow> [kv_Value kv]) = (case entry d k of None \<Rightarrow> [] | Some p \<Rightarrow> [to_bytes (fst p)])" for k
    using same.lookup_rel [OF b(1) [unfolded bytes_store_def], of k] by (cases "lookup d k"; cases "lookup d1 k") (simp_all add: entry_def kv_rel_def)
  with stack_read [OF g b(2) _ s]
  have rd: "read_key cli D k = Ok (case entry d k of None \<Rightarrow> [] | Some p \<Rightarrow> [to_bytes (fst p)])" if "stack_key g aeskey k" for k
    using that by simp
  show "read_user of_user cli D n = user_at d n" if "stack_key g aeskey (keyUserCtl n)"
    using rd [OF that] typed_user(1) [OF t, of n] gob by (auto simp: read_user_def gob_bytes_ok_def encode_defs split: option.splits)
  show "read_nicks of_nicks cli D ch l = nicks_at d ch l" if "stack_key g aeskey (keyChanNicks ch l)"
  proof (cases "entry d (keyChanNicks ch l)")
    case None
    with rd [OF that] show ?thesis by (simp add: read_nicks_def nicks_at_def)
  next
    case (Some p)
    with rd [OF that] typed_nicks [OF t Some] gob show ?thesis by (simp add: read_nicks_def gob_bytes_ok_def encode_defs)
  qed
qed

lemma fits_keys:
  assumes "req_fits (stack_key g aeskey) (stack_pfx g aeskey) foreign q"
  shows "[] \<notin> set (req_keys q)"
proof -
  have k: "\<not> stack_key g aeskey []" "\<not> stack_pfx g aeskey []"
    by (auto simp: stack_key_def stack_pfx_def secure_key_def netkey_def secure_pfx_def netpfx_def mk_key_def split: sum.splits)
  then have "op_key req \<noteq> []" if "op_fits (stack_key g aeskey) (stack_pfx g aeskey) req" for req :: "'a op"
    using that by (cases "(stack_key g aeskey, stack_pfx g aeskey, req)" rule: op_fits.cases) auto
  with assms k(1) show ?thesis by (cases q) (auto simp: list_all_iff; force)+
qed

text \<open>A run of the network in the cluster, beside the same run on typed values.\<close>

lemma cluster_run:
  assumes g: "crypto_ok g" "ns_prefix pfx" and empty: "stack_view g aeskey pfx init_etcd D"
    and run: "\<forall>(cli, q) \<in> set qs. (\<exists>rnd. MustIrcdEtcdClient g rnd etcd_cli pfx (Some (SymmetricKey aeskey)) = Ok cli) \<and>
      req_fits (stack_key g aeskey) (stack_pfx g aeskey) (foreign_lease pfx D) q"
  shows "\<exists>D'. cli_serves (map (map_prod id (map_request to_bytes)) qs) D = Ok D' \<and>
    stack_view g aeskey pfx (fold serve (map (map_request to_bytes) (map snd qs)) init_etcd) D' \<and>
    bytes_store to_bytes (fold serve (map snd qs) init_etcd) (fold serve (map (map_request to_bytes) (map snd qs)) init_etcd)"
proof -
  let ?qs = "map (map_prod id (map_request to_bytes)) qs"
  have snds: "map snd ?qs = map (map_request to_bytes) (map snd qs)" by simp
  have "\<forall>(cli, q) \<in> set ?qs. (\<exists>rnd. MustIrcdEtcdClient g rnd etcd_cli pfx (Some (SymmetricKey aeskey)) = Ok cli) \<and>
      req_fits (stack_key g aeskey) (stack_pfx g aeskey) (foreign_lease pfx D) q"
    using run by (auto simp: req_fits_bytes)
  from stack_run [OF g empty this] obtain D' where D': "cli_serves ?qs D = Ok D'"
    "stack_view g aeskey pfx (fold serve (map (map_request to_bytes) (map snd qs)) init_etcd) D'" unfolding snds by blast
  have "bytes_store to_bytes init_etcd init_etcd" by (simp add: bytes_store_def store_rel_def init_etcd_def snap_rel_def snap_sorted_def)
  moreover have "\<forall>q \<in> set (map snd qs). [] \<notin> set (req_keys q)" using run fits_keys by fastforce
  ultimately show ?thesis using D' serves_bytes by blast
qed

section \<open>The network in the cluster\<close>


text \<open>A server that granted a lease and registered \<^verbatim>\<open>bo\<close>, with a codec for the values it stores.\<close>

definition demo_user :: UserValue where
  "demo_user = new_user NewConfig \<lparr> cr_nick = ''bo'', cr_user = [''u'', ''u''] \<rparr> 7 0"

definition demo_run :: "gob request list" where
  "demo_run = [ReqGrant 7, ReqTxn [CmpVersion (keyUserCtl ''bo'') CEq 0]
     [OpPut (keyUserCtl ''bo'') (encodeUserValue demo_user) 7 False False, OpPut (keyUserMsg ''bo'') (Raw []) 7 False False] []]"

lemma demo_run_reachable: "reachable (fold serve demo_run init_etcd)"
proof -
  obtain d1 :: "gob etcd" where d1: "LeaseGrant init_etcd 7 = Inr d1" by (simp add: LeaseGrant_def init_etcd_def)
  have r1: "reachable d1" by (rule reach_step [OF reach_init step_grant [OF d1]])
  show ?thesis
  proof (cases "register_txn demo_user 7 d1")
    case (Inl e)
    with d1 r1 show ?thesis by (simp add: demo_run_def demo_user_def new_user_def)
  next
    case (Inr p)
    then obtain resp d2 where d2: "register_txn demo_user 7 d1 = Inr (resp, d2)" by (cases p) auto
    have "net_step d1 d2" by (rule step_register [OF _ _ _ d2]) (simp_all add: demo_user_def new_user_def zeroUser_def)
    with r1 d1 d2 show ?thesis by (auto simp: demo_run_def demo_user_def new_user_def intro: reach_step)
  qed
qed

lemma demo_secure_key:
  assumes "key_head t st" "CHR ''/'' \<notin> set x" "x \<noteq> []" "rest_ok rest" "length (mk_key t st x []) < 2 ^ 31"
    and "case keyEncoder_Encode (hmacEncoder demo_hke) (mk_key t st x rest) of Ok e \<Rightarrow> length e < 1000 | _ \<Rightarrow> False"
  shows "stack_key demo_crypto demo_aeskey (mk_key t st x rest)"
proof -
  have "netkey (hmac_fits demo_hke) (hmacEncoder demo_hke) (mk_key t st x rest)"
    unfolding netkey_def using assms
    by (intro exI [of _ t] exI [of _ st] exI [of _ x] exI [of _ rest]) (auto simp: hmac_fits_def demo_hke_def NewKeyEncoderHMAC_def)
  then show ?thesis by (simp add: stack_key_def demo_cipher(1) demo_hke_def secure_key_def)
qed

lemma demo_net_keys:
  "stack_key demo_crypto demo_aeskey (keyUserMsg ''bo'')" "stack_key demo_crypto demo_aeskey (keyChanNicks ''#c'' 7)"
proof -
  have "(case keyEncoder_Encode (hmacEncoder demo_hke) (mk_key ''user'' ''msg'' ''bo'' []) of Ok e \<Rightarrow> length e < 1000 | _ \<Rightarrow> False)" by code_simp
  then show "stack_key demo_crypto demo_aeskey (keyUserMsg ''bo'')"
    using demo_secure_key [of "''user''" "''msg''" "''bo''" "[]"] by (simp add: key_head_def rest_ok_def mk_key_def keyUserMsg_def)
  have "(case keyEncoder_Encode (hmacEncoder demo_hke) (mk_key ''chan'' ''nicks'' ''#c'' ''/7'') of Ok e \<Rightarrow> length e < 1000 | _ \<Rightarrow> False)" by code_simp
  then have "stack_key demo_crypto demo_aeskey (mk_key ''chan'' ''nicks'' ''#c'' ''/7'')"
    using demo_secure_key [of "''chan''" "''nicks''" "''#c''" "''/7''"] by (simp add: key_head_def rest_ok_def mk_key_def)
  moreover have "mk_key ''chan'' ''nicks'' ''#c'' ''/7'' = keyChanNicks ''#c'' 7" by code_simp
  ultimately show "stack_key demo_crypto demo_aeskey (keyChanNicks ''#c'' 7)" by simp
qed

text \<open>A codec: a value is numbered by its fields.\<close>

definition user_fields :: "UserValue \<Rightarrow> string list \<times> string list \<times> string list \<times> int list" where
  "user_fields uv = ([uNick uv, uServerName uv, uMode uv, uHost uv, uRealName uv, uAwayMsg uv], uUser uv, uChannels uv, [uCreated uv, uLease uv])"

definition user_of_fields :: "string list \<times> string list \<times> string list \<times> int list \<Rightarrow> UserValue" where
  "user_of_fields = (\<lambda>(ss, us, cs, is). \<lparr> uNick = ss ! 0, uUser = us, uServerName = ss ! 1, uMode = ss ! 2, uHost = ss ! 3, uRealName = ss ! 4,
     uCreated = is ! 0, uChannels = cs, uAwayMsg = ss ! 5, uLease = is ! 1 \<rparr>)"

definition demo_bytes :: "gob \<Rightarrow> byte list" where
  "demo_bytes v = (case v of GUser uv \<Rightarrow> replicate (to_nat (user_fields uv)) 0
     | GNicks cns \<Rightarrow> replicate (to_nat (map (\<lambda>n. (nNick n, nMode n)) cns)) 0 | _ \<Rightarrow> [])"

definition demo_of_user :: "byte list \<Rightarrow> error + UserValue" where
  "demo_of_user b = Inr (user_of_fields (from_nat (length b)))"

definition demo_of_nicks :: "byte list \<Rightarrow> error + ChannelNicks" where
  "demo_of_nicks b = Inr (map (\<lambda>(n, m). \<lparr> nNick = n, nMode = m \<rparr>) (from_nat (length b)))"

lemma demo_codec: "gob_bytes_ok demo_bytes demo_of_user demo_of_nicks"
proof -
  have "user_of_fields (user_fields uv) = uv" for uv by (simp add: user_of_fields_def user_fields_def)
  moreover have "map (\<lambda>(n, m). \<lparr> nNick = n, nMode = m \<rparr>) (map (\<lambda>n. (nNick n, nMode n)) cns) = cns" for cns
    by (induction cns) simp_all
  ultimately show ?thesis
    by (simp add: gob_bytes_ok_def demo_bytes_def demo_of_user_def demo_of_nicks_def encode_defs del: map_map)
qed


end
