(* ===== verification/Delivery.thy ===== *)
theory Delivery
  imports Commands_Correct Kv_Client
begin

text \<open>
  A message from its sender to the connections of its readers: the transaction of \<^verbatim>\<open>PRIVMSG\<close>, the one event that it logs, the watch
  of the key of the channel or of the user, and \<^verbatim>\<open>monitorMsg\<close> on the events of that watch.
\<close>

section \<open>The event of a message\<close>

text \<open>Where a message goes: to the channel, to the user, or, for a user who is away, an answer back to the sender.\<close>

definition mailbox :: "etcdClient \<Rightarrow> string \<Rightarrow> string \<Rightarrow> gob etcd \<Rightarrow> string \<times> Message" where
  "mailbox ec target msg d =
     (if isChan target then (keyChanMsg target, privmsg ec target msg)
      else case user_at d target of
             Some tv \<Rightarrow> if CHR ''a'' \<in> set (uMode tv) then (keyUserMsg (ec_nick ec), away_reply ec target (uAwayMsg tv))
               else (keyUserMsg target, privmsg ec target msg)
           | None \<Rightarrow> (keyUserMsg target, privmsg ec target msg))"

definition message_put :: "string \<Rightarrow> Message \<Rightarrow> string \<times> gob \<times> gob op" where
  "message_put k m = (k, GMessage m, OpPut k (GMessage m) 0 True False)"

lemma user_message:
  assumes "wf_etcd d" "typed d" "run_pure (privMsgUser_body ec target msg x) d [] g = ((x', None), ws, g')"
    "\<not> pv_noNick x'" "\<not> pv_bad x'" "\<not> isChan target"
  shows "ws = [case mailbox ec target msg d of (k, m) \<Rightarrow> message_put k m]"
proof (cases "user_at d target")
  case None
  with assms show ?thesis by (auto simp: privMsgUser_body_def user_missing Let_def)
next
  case (Some tv)
  then have c: "entry d (keyUserCtl target) = Some (GUser tv, uLease tv)" using assms(2) by (simp add: typed_user)
  from assms Some c show ?thesis
    by (cases "user_at d (ec_nick ec)")
       (auto simp: privMsgUser_body_def body_simps mailbox_def message_put_def split: if_splits)
qed

lemma chan_message:
  assumes "wf_etcd d" "typed d" "run_pure (privMsgChan_body ec ch msg x) d [] g = ((x', None), ws, g')"
    "\<not> pv_noNick x'" "\<not> pv_bad x'" "isChan ch"
  shows "ws = [case mailbox ec ch msg d of (k, m) \<Rightarrow> message_put k m]"
proof (cases "chan_at d ch")
  case None
  with assms show ?thesis by (auto simp: privMsgChan_body_def chan_missing Let_def)
next
  case (Some c)
  then have c: "entry d (keyChanCtl ch) = Some (GChannel c, 0)" using assms(2) by (simp add: typed_chan)
  show ?thesis
  proof (cases "user_at d (ec_nick ec)")
    case None
    with assms Some c show ?thesis by (simp add: privMsgChan_body_def body_simps)
  next
    case u: (Some uv)
    with assms Some c show ?thesis
      by (cases "entry d (keyChanNicks ch (uLease uv))")
         (auto simp: privMsgChan_body_def body_simps mailbox_def message_put_def split: if_splits option.splits)
  qed
qed

text \<open>The transaction logs one event, at the next revision.\<close>

lemma message_event:
  assumes "apply_writes d [message_put k m] = Inr (resp, d')"
  obtains kv prev where "elog d' = elog d @ [PutEvent k kv prev]" "kv_Value kv = GMessage m" "kv_ModRevision kv = revision d + 1"
proof -
  from assms obtain l where "d' = tx_end d (tx_put (revision d + 1) k (GMessage m) l (current d, []))"
    by (auto simp: apply_writes_def message_put_def puts_def Txn_def compareToOps_def Let_def split: option.splits prod.splits if_splits)
  with that show thesis by (auto simp: tx_end_def tx_put_def Let_def)
qed

section \<open>The command\<close>

definition logged :: "etcdClient \<Rightarrow> string \<Rightarrow> string \<Rightarrow> gob etcd \<Rightarrow> gob etcd \<Rightarrow> bool" where
  "logged ec target msg d d' \<longleftrightarrow> (\<exists>kv prev. case mailbox ec target msg d of (k, m) \<Rightarrow>
     elog d' = elog d @ [PutEvent k kv prev] \<and> kv_Value kv = GMessage m \<and> kv_ModRevision kv = revision d + 1)"

lemma committed_logged:
  assumes "committed n lid body d0 d x1 d'"
    and "\<And>x0 g ws g'. run_pure (body x0) d [] g = ((x1, None), ws, g') \<Longrightarrow> ws = [case mailbox ec target msg d of (k, m) \<Rightarrow> message_put k m]"
  shows "logged ec target msg d d'"
proof -
  from assms(1) obtain x0 g where "atomically (body x0) d g x1 d'" by (rule committed_atomically)
  then obtain ws g' resp where ws: "run_pure (body x0) d [] g = ((x1, None), ws, g')" "apply_writes d ws = Inr (resp, d')"
    by (auto simp: atomically_def)
  obtain k m where km: "mailbox ec target msg d = (k, m)" by fastforce
  from ws(2) assms(2) [OF ws(1)] km have "apply_writes d [message_put k m] = Inr (resp, d')" by simp
  then show ?thesis by (rule message_event) (auto simp: logged_def km)
qed

text \<open>A message that the sender is not told off for has been logged, in a store of the network at one moment of the call.\<close>

lemma PrivMsg_logged:
  assumes sys: "system (ec_nick ec) lid w" and run: "PrivMsg ec target msg w = (Ok (Inr ()), w')" and quiet: "out w' = out w"
  obtains d where "reachable d" "extends (db w) d" "logged ec target msg d (db w')"
proof -
  show thesis
  proof (cases "isChan target")
    case True
    with run have "privMsgChan ec target msg w = (Ok (Inr ()), w')" by (simp add: PrivMsg_def)
    then obtain d x1 r w1 where c: "committed (ec_nick ec) lid (privMsgChan_body ec target msg) (db w) d x1 (db w1)" "out w1 = out w"
      and f: "(if pv_noNick x1 then noSuchNick ec target
        else if pv_bad x1 then sendHostMsg ec ERR_CANNOTSENDTOCHAN [target, ''Cannot send to channel'']
        else ret (Inr ())) w1 = (Ok (Inr ()), w')"
      unfolding privMsgChan_def by (rule run_command [OF sys], simp_all only: prod.case)
    from f quiet c(2) have "w' = w1" "\<not> pv_noNick x1" "\<not> pv_bad x1"
      by (auto simp: reply_defs split: if_splits dest: sendHostMsg_Ok)
    with that committed_reachable [OF c(1)] committed_logged [OF c(1)] chan_message [OF _ _ _ _ _ True] committed_wf [OF c(1)] show thesis by blast
  next
    case False
    with run have "privMsgUser ec target msg w = (Ok (Inr ()), w')" by (simp add: PrivMsg_def)
    then obtain d x1 r w1 where c: "committed (ec_nick ec) lid (privMsgUser_body ec target msg) (db w) d x1 (db w1)" "out w1 = out w"
      and f: "(if pv_noNick x1 then noSuchNick ec target
        else if pv_bad x1 then sendHostMsg ec ERR_NOTEXTTOSEND [target, ''No text to send'']
        else ret (Inr ())) w1 = (Ok (Inr ()), w')"
      unfolding privMsgUser_def by (rule run_command [OF sys], simp_all only: prod.case)
    from f quiet c(2) have "w' = w1" "\<not> pv_noNick x1" "\<not> pv_bad x1"
      by (auto simp: reply_defs split: if_splits dest: sendHostMsg_Ok)
    with that committed_reachable [OF c(1)] committed_logged [OF c(1)] user_message [OF _ _ _ _ _ False] committed_wf [OF c(1)] show thesis by blast
  qed
qed

section \<open>The readers\<close>

lemma watch_logged:
  assumes "elog d' = elog d @ [PutEvent k kv prev]" "r \<le> kv_ModRevision kv"
  shows "watch_events d' k [] r = watch_events d k [] r @ [PutEvent k kv prev]"
  using assms by (simp add: watch_events_def op_range_def in_range_def)

lemma mailbox_stays: "mailbox ec target msg d = (k, m) \<Longrightarrow> stays rc m"
  by (auto simp: mailbox_def stays_def privmsg_def away_reply_def split: if_splits option.splits)

definition heard_before :: "etcdClient \<Rightarrow> gob event list \<Rightarrow> bool" where
  "heard_before rc evs \<longleftrightarrow> list_all (\<lambda>ev. is_put ev \<and> list_all (stays rc) (message_of ev)) evs"

lemma monitorMsg_hears:
  assumes "concat evss = evs @ [PutEvent k kv prev]" "kv_Value kv = GMessage m" "stays rc m" "heard_before rc evs" "ctxs v = []"
  shows "monitorMsg rc (map WatchEvents evss) v =
    (Ok (Inr ()), v\<lparr>out := out v @ deliverable rc evs @ (if own_privmsg rc m then [] else [m])\<rparr>)"
proof -
  have m: "message_of (PutEvent k kv prev) = [m]" using assms(2) by (simp add: decode_defs)
  have "each (monitorMsg_event rc) (concat evss) v = (Ok None, v\<lparr>out := out v @ deliverable rc (concat evss)\<rparr>)"
    using assms m by (intro monitorMsg_events_stay) (auto simp: heard_before_def list_all_iff)
  with assms(1,5) m show ?thesis unfolding monitorMsg_flat by (simp add: bnd_def ctx_Err_def)
qed

text \<open>
  C13.  A message reaches its readers: when \<^verbatim>\<open>PRIVMSG\<close> returns without an error and without a refusal, there is a store of the network at one moment of the call
  to which it added the message, for the channel, for the user, or as the answer of a user who is away, as one event.  Whoever watches that key since before the
  call, in whatever pieces the events arrive, has its connection given the earlier messages and then this one,
  exactly once; the sender does not get its own.
\<close>

theorem PrivMsg_delivered:
  assumes "system (ec_nick ec) lid w" "PrivMsg ec target msg w = (Ok (Inr ()), w')" "out w' = out w"
  shows "\<exists>d k m kv prev. reachable d \<and> extends (db w) d \<and> mailbox ec target msg d = (k, m) \<and>
    elog (db w') = elog d @ [PutEvent k kv prev] \<and> kv_Value kv = GMessage m \<and> revision (db w) < kv_ModRevision kv \<and>
    (\<forall>rc v r evss. r \<le> revision (db w) + 1 \<and> concat evss = watch_events (db w') k [] r \<and> heard_before rc (watch_events d k [] r) \<and> ctxs v = [] \<longrightarrow>
       monitorMsg rc (map WatchEvents evss) v =
         (Ok (Inr ()), v\<lparr>out := out v @ deliverable rc (watch_events d k [] r) @ (if own_privmsg rc m then [] else [m])\<rparr>))"
proof -
  obtain d where d: "reachable d" "extends (db w) d" "logged ec target msg d (db w')" by (rule PrivMsg_logged [OF assms])
  obtain k m where km: "mailbox ec target msg d = (k, m)" by fastforce
  with d(3) obtain kv prev where ev: "elog (db w') = elog d @ [PutEvent k kv prev]" "kv_Value kv = GMessage m" "kv_ModRevision kv = revision d + 1"
    by (auto simp: logged_def)
  with etcd_versions.ext_now [OF d(2)] have rev: "revision (db w) < kv_ModRevision kv" by simp
  have "monitorMsg rc (map WatchEvents evss) v =
      (Ok (Inr ()), v\<lparr>out := out v @ deliverable rc (watch_events d k [] r) @ (if own_privmsg rc m then [] else [m])\<rparr>)"
    if "r \<le> revision (db w) + 1" "concat evss = watch_events (db w') k [] r" "heard_before rc (watch_events d k [] r)" "ctxs v = []"
    for rc v r evss
    using that watch_logged [OF ev(1), of r] rev ev(2) mailbox_stays [OF km] by (intro monitorMsg_hears) simp_all
  with d km ev rev show ?thesis by blast
qed

theorem PrivMsg_delivered_witness:
  "out (snd (monitorMsg (client ''al'')
     [WatchEvents (watch_events (db (snd (PrivMsg (client ''bo'') ''#c'' ''hey'' (world_of net5 7)))) (keyChanMsg ''#c'') [] (revision net5 + 1))]
     (world_of net5 7))) = [privmsg (client ''bo'') ''#c'' ''hey'']"
proof -
  let ?w = "world_of net5 7" and ?bo = "client ''bo''" and ?k = "keyChanMsg ''#c''" and ?r = "revision net5 + 1"
  let ?P = "PrivMsg ?bo ''#c'' ''hey'' ?w"
  let ?evs = "watch_events (db (snd ?P)) ?k [] ?r"
  have ok: "fst ?P = Ok (Inr ())" "out (snd ?P) = out ?w" "length ?evs = 1" by code_simp+
  have al: "\<not> own_privmsg (client ''al'') (privmsg ?bo ''#c'' ''hey'')" by code_simp
  have box: "mailbox ?bo ''#c'' ''hey'' d = (?k, privmsg ?bo ''#c'' ''hey'')" for d by (simp add: mailbox_def)
  from PrivMsg_delivered [OF _ with_result [OF ok(1)] ok(2), of 7] demo_systems(5)
  obtain d kv prev where d: "elog (db (snd ?P)) = elog d @ [PutEvent ?k kv prev]" "revision net5 < kv_ModRevision kv"
    and h: "\<forall>rc v r evss. r \<le> ?r \<and> concat evss = watch_events (db (snd ?P)) ?k [] r \<and> heard_before rc (watch_events d ?k [] r) \<and> ctxs v = [] \<longrightarrow>
       monitorMsg rc (map WatchEvents evss) v = (Ok (Inr ()), v\<lparr>out := out v @ deliverable rc (watch_events d ?k [] r) @
         (if own_privmsg rc (privmsg ?bo ''#c'' ''hey'') then [] else [privmsg ?bo ''#c'' ''hey''])\<rparr>)"
    unfolding box by auto
  have "watch_events d ?k [] ?r = []" using ok(3) watch_logged [OF d(1), of ?r] d(2) by simp
  with h [THEN spec [of _ "client ''al''"], THEN spec [of _ ?w], THEN spec [of _ ?r], THEN spec [of _ "[?evs]"]] al
  show ?thesis by (simp add: heard_before_def)
qed

end
