(* ===== verification/Etcd_Log.thy ===== *)
theory Etcd_Log
  imports Kv_Client
begin

text \<open>
  What a watch tells: the log of events accounts for every change of the store.  A client that has read a key at some revision, as
  \<^verbatim>\<open>Join\<close> and the handshake do, and watches it from the next one on, misses nothing.
\<close>

section \<open>Events as changes\<close>

fun ev_apply :: "'v event \<Rightarrow> 'v KeyValue option \<Rightarrow> 'v KeyValue option" where
  "ev_apply (PutEvent k kv prev) x = Some kv"
| "ev_apply (DeleteEvent k r prev) x = None"

abbreviation on_key :: "string \<Rightarrow> 'v event list \<Rightarrow> 'v event list" where
  "on_key k \<equiv> filter (\<lambda>ev. ev_key ev = k)"

text \<open>The log of a history: the events of each revision lead from the snapshot before it to its own.\<close>

inductive hist_log :: "'v snapshot list \<Rightarrow> 'v event list \<Rightarrow> bool" where
  hl_init: "hist_log [[]] []"
| hl_next: "hist_log ss evs \<Longrightarrow> \<forall>ev \<in> set es. event_revision ev = Suc (length ss) \<Longrightarrow>
    \<forall>k. fold ev_apply (on_key k es) (map_of (hd ss) k) = map_of s k \<Longrightarrow> hist_log (s # ss) (evs @ es)"

inductive_cases hist_logE: "hist_log (s # ss) evs"

lemma hist_log_bound: "hist_log ss evs \<Longrightarrow> ss \<noteq> [] \<and> list_all (\<lambda>ev. event_revision ev \<le> length ss) evs \<and> sorted (map event_revision evs)"
proof (induction rule: hist_log.induct)
  case (hl_next ss evs es s)
  have "sorted (map event_revision es)" using hl_next(2) by (simp add: sorted_iff_nth_mono)
  with hl_next show ?case by (fastforce simp: list_all_iff sorted_append)
qed simp

lemma hist_log_later:
  "hist_log (xs @ ss) evs \<Longrightarrow> ss \<noteq> [] \<Longrightarrow>
    fold ev_apply (filter (\<lambda>ev. ev_key ev = k \<and> length ss < event_revision ev) evs) (map_of (hd ss) k) = map_of (hd (xs @ ss)) k"
proof (induction xs arbitrary: evs)
  case Nil
  then have "filter (\<lambda>ev. ev_key ev = k \<and> length ss < event_revision ev) evs = []"
    using hist_log_bound [of ss evs] by (auto simp: filter_empty_conv list_all_iff)
  then show ?case by (simp only:) simp
next
  case (Cons s xs)
  from Cons.prems have "xs @ ss \<noteq> []" by simp
  with Cons.prems(1) obtain evs' es where e: "evs = evs' @ es" "hist_log (xs @ ss) evs'" "\<forall>ev \<in> set es. event_revision ev = Suc (length (xs @ ss))"
    "\<forall>k. fold ev_apply (on_key k es) (map_of (hd (xs @ ss)) k) = map_of s k"
    unfolding append_Cons by (elim hist_logE) simp_all
  then have "filter (\<lambda>ev. ev_key ev = k \<and> length ss < event_revision ev) es = on_key k es" by (auto intro!: filter_cong)
  with e Cons.IH [OF e(2) Cons.prems(2)] show ?case by simp
qed

section \<open>Requests keep the log\<close>

definition log_ok :: "'v etcd \<Rightarrow> bool" where
  "log_ok d \<longleftrightarrow> hist_log (hist d) (elog d)"

definition tx_log :: "'v etcd \<Rightarrow> 'v txn_state \<Rightarrow> bool" where
  "tx_log d tx \<longleftrightarrow> (\<forall>ev \<in> set (snd tx). event_revision ev = revision d + 1) \<and>
     (\<forall>k. fold ev_apply (on_key k (snd tx)) (lookup d k) = map_of (fst tx) k)"

lemma tx_log_start: "tx_log d (current d, [])"
  by (simp add: tx_log_def lookup_def)

lemma tx_log_put: "tx_log d tx \<Longrightarrow> tx_log d (tx_put (revision d + 1) key v l tx)"
  by (cases tx) (auto simp: tx_log_def tx_put_def store_simps Let_def)

lemma tx_log_delete: "tx_log d tx \<Longrightarrow> tx_log d (tx_delete (revision d + 1) key tx)"
  by (cases tx) (auto simp: tx_log_def tx_delete_def store_simps)

lemma tx_log_deletes: "tx_log d tx \<Longrightarrow> tx_log d (fold (\<lambda>p. tx_delete (revision d + 1) (fst p)) ps tx)"
  by (induction ps arbitrary: tx) (simp_all add: tx_log_delete [simplified])

lemma tx_log_applyUnion: "tx_log d tx \<Longrightarrow> tx_log d (fst (applyUnion d tx req))"
  using tx_log_put [of d tx] tx_log_deletes [of d tx] by (cases req) (simp_all add: Let_def)

lemma tx_log_applyUnions: "tx_log d tx \<Longrightarrow> tx_log d (fst (applyUnions d tx reqs))"
  by (induction reqs arbitrary: tx)
     (simp_all only: fst_applyUnions_Cons applyUnions.simps(1) fst_conv tx_log_applyUnion)

lemma log_ok_tx_end:
  assumes "log_ok d" "tx_log d tx"
  shows "log_ok (tx_end d tx)"
proof -
  have "current d = hd (hist d)" using hist_log_bound [of "hist d" "elog d"] assms(1) by (cases "hist d") (simp_all add: log_ok_def current_def)
  then have "hist_log (fst tx # hist d) (elog d @ snd tx)"
    using assms by (intro hl_next) (simp_all add: log_ok_def tx_log_def revision_def lookup_def)
  with assms(1) show ?thesis by (simp add: log_ok_def tx_end_def)
qed

lemma log_ok_serve: "log_ok d \<Longrightarrow> log_ok (serve q d)"
proof (cases q)
  case (ReqTxn cmps succ fail)
  assume "log_ok d"
  with log_ok_tx_end [OF this tx_log_applyUnions [OF tx_log_start]] ReqTxn show ?thesis
    by (auto simp: Txn_def Let_def split: option.splits prod.splits sum.splits) (metis fst_conv)+
next
  case (ReqOp req)
  assume "log_ok d"
  with log_ok_tx_end [OF this tx_log_applyUnion [OF tx_log_start, of d req]] ReqOp show ?thesis
    by (auto simp: DoOp_def Let_def split: option.splits prod.splits sum.splits)
next
  case (ReqGrant i)
  assume "log_ok d"
  with ReqGrant show ?thesis by (auto simp: LeaseGrant_def log_ok_def)
next
  case (ReqRevoke i)
  assume "log_ok d"
  with log_ok_tx_end [OF this tx_log_deletes [OF tx_log_start]] ReqRevoke show ?thesis
    by (auto simp: LeaseRevoke_def Let_def log_ok_def)
qed

lemma log_ok_serves: "log_ok (fold serve qs init_etcd)"
proof -
  have "log_ok d \<Longrightarrow> log_ok (fold serve qs d)" for d by (induction qs arbitrary: d) (simp_all add: log_ok_serve)
  moreover have "log_ok init_etcd" by (simp add: log_ok_def init_etcd_def hl_init)
  ultimately show ?thesis by blast
qed

section \<open>Reading and watching\<close>

text \<open>
  C30.  Nothing is missed between a read and a watch: whatever requests the cluster has served, a client that has read a key at a revision and then gets the events of
  a watch of that key from the next revision on holds the present value of the key; the events come in the order of their revisions.
\<close>

theorem watch_catches_up:
  assumes "d = fold serve qs init_etcd" "0 < r" "r \<le> revision d"
  shows "fold ev_apply (watch_events d k [] (r + 1)) (get_at d r k) = lookup d k \<and>
    sorted (map event_revision (watch_events d k [] (r + 1)))"
proof -
  have wf: "wf_etcd d" using serves_extends [OF wf_init, of qs] by (simp add: assms(1) extends_def)
  have l: "hist_log (hist d) (elog d)" using log_ok_serves [of qs] by (simp add: assms(1) log_ok_def)
  obtain xs ss where h: "hist d = xs @ ss" "length ss = r" "snapshot_at d r = hd ss" "ss \<noteq> []"
    by (rule snapshot_at_drop [OF wf assms(2,3)])
  have w: "watch_events d k [] (r + 1) = filter (\<lambda>ev. ev_key ev = k \<and> length ss < event_revision ev) (elog d)"
    by (auto simp: watch_events_def op_range_def in_range_def h(2) intro!: filter_cong)
  have "fold ev_apply (watch_events d k [] (r + 1)) (get_at d r k) = lookup d k"
    using hist_log_later [of xs ss "elog d" k] l h current_hd [OF wf] unfolding w by (simp add: get_at_def lookup_def)
  moreover have "sorted (map event_revision (watch_events d k [] (r + 1)))"
    unfolding w using hist_log_bound [OF l] by (simp add: sorted_filter)
  ultimately show ?thesis by blast
qed

definition demo_serves :: "nat etcd" where
  "demo_serves = fold serve [ReqOp (OpPut ''k'' 1 0 False False), ReqTxn [] [OpDelete ''k'' None False, OpPut ''m'' 5 0 False False] [],
     ReqOp (OpPut ''k'' 2 0 False False)] init_etcd"

theorem watch_catches_up_witness:
  "length (watch_events demo_serves ''k'' [] 3) = 2 \<and> fold ev_apply (watch_events demo_serves ''k'' [] 3) (get_at demo_serves 2 ''k'') = lookup demo_serves ''k''"
proof -
  have "length (watch_events demo_serves ''k'' [] 3) = 2" "2 \<le> revision demo_serves" by code_simp+
  with watch_catches_up [OF demo_serves_def, of 2 "''k''"] show ?thesis by simp
qed

end
