(* ===== verification/Leaving.thy ===== *)
theory Leaving
  imports Delivery Etcd_Log
begin

text \<open>
  The end of a membership as the one who leaves sees it: the transaction of \<^verbatim>\<open>PART\<close> or \<^verbatim>\<open>KICK\<close> logs its message for the channel among its other writes, and the
  watcher of the user who left, or was kicked, delivers it and ends there.
\<close>

section \<open>The events of a write set\<close>

definition posts :: "gob etcd \<Rightarrow> gob etcd \<Rightarrow> string \<Rightarrow> Message \<Rightarrow> bool" where
  "posts d d' k m \<longleftrightarrow> (\<exists>kv prev. on_key k (elog d') = on_key k (elog d) @ [PutEvent k kv prev] \<and>
     kv_Value kv = GMessage m \<and> kv_ModRevision kv = revision d + 1)"

lemma tx_deletes_events:
  "(\<And>p. p \<in> set ps \<Longrightarrow> fst p \<noteq> k) \<Longrightarrow> on_key k (snd (fold (\<lambda>p. tx_delete rv (fst p)) ps tx)) = on_key k (snd tx)"
  by (induction ps arbitrary: tx) (auto simp: tx_delete_def split: prod.split)

lemma applyUnion_other:
  assumes "write_op (k0, v, wop)" "k \<noteq> k0"
  shows "on_key k (snd (fst (applyUnion d tx wop))) = on_key k (snd tx)"
proof -
  from assms(1) consider l ign where "wop = OpPut k0 v l ign False" | "wop = OpDelete k0 None False"
    by (auto simp: write_op_def)
  then show ?thesis
  proof cases
    case 1
    with assms(2) show ?thesis by (simp add: Let_def tx_put_def split: prod.split)
  next
    case 2
    with assms(2) tx_deletes_events [of "filter (\<lambda>p. in_range k0 None (fst p)) (fst tx)" k "Suc (revision d)" tx] show ?thesis
      by (auto simp: Let_def in_range_def)
  qed
qed

lemma applyUnions_other:
  assumes "\<forall>p \<in> set ws. write_op p" "k \<notin> fst ` set ws"
  shows "on_key k (snd (fst (applyUnions d tx (puts ws)))) = on_key k (snd tx)"
  using assms
proof (induction ws arbitrary: tx)
  case (Cons p ws)
  obtain k0 v wop where p: "p = (k0, v, wop)" by (metis surj_pair)
  have "fst (applyUnions d tx (puts (p # ws))) = fst (applyUnions d (fst (applyUnion d tx wop)) (puts ws))"
    by (simp add: puts_def p fst_applyUnions_Cons del: applyUnions.simps)
  with Cons p applyUnion_other [of k0 v wop k d tx] show ?case by simp
qed (simp add: puts_def)

lemma applyUnions_put:
  assumes "\<forall>p \<in> set ws. write_op p" "distinct (map fst ws)" "map_of ws k = Some (v, OpPut k v l ign False)"
  shows "\<exists>kv prev. on_key k (snd (fst (applyUnions d tx (puts ws)))) = on_key k (snd tx) @ [PutEvent k kv prev] \<and>
    kv_Value kv = v \<and> kv_ModRevision kv = revision d + 1"
  using assms
proof (induction ws arbitrary: tx)
  case (Cons p ws)
  obtain k0 v0 wop where p: "p = (k0, v0, wop)" by (metis surj_pair)
  let ?tx = "fst (applyUnion d tx wop)"
  have step: "fst (applyUnions d tx (puts (p # ws))) = fst (applyUnions d ?tx (puts ws))"
    by (simp add: puts_def p fst_applyUnions_Cons del: applyUnions.simps)
  show ?case
  proof (cases "k = k0")
    case True
    with Cons.prems p have "wop = OpPut k v l ign False" "k \<notin> fst ` set ws" by auto
    then show ?thesis using Cons.prems(1) step applyUnions_other [of ws k d ?tx]
      by (auto simp: tx_put_def Let_def split: prod.split)
  next
    case False
    then show ?thesis using Cons.prems Cons.IH [of ?tx] step p applyUnion_other [of k0 v0 wop k d tx] by auto
  qed
qed simp

lemma apply_writes_posts:
  assumes "apply_writes d ws = Inr (resp, d')" "good_ws ws" "map_of ws k = Some (GMessage m, OpPut k (GMessage m) l ign False)"
  shows "posts d d' k m"
proof -
  let ?tx = "fst (applyUnions d (current d, []) (puts ws))"
  from assms(1) have d': "d' = tx_end d ?tx"
    by (auto simp: apply_writes_def Txn_def compareToOps_def Let_def split: option.splits prod.splits)
  from applyUnions_put [OF _ _ assms(3), of d "(current d, [])"] assms(2) obtain kv prev where
    "on_key k (snd ?tx) = [PutEvent k kv prev]" "kv_Value kv = GMessage m" "kv_ModRevision kv = revision d + 1"
    by (auto simp: good_ws_def snap_sorted_distinct)
  then show ?thesis by (auto simp: posts_def d' tx_end_def)
qed

section \<open>The messages of PART and KICK\<close>

lemma part_puts:
  assumes "wf_etcd d" "typed d" "run_pure (part_body ec ch msg lid x) d [] g = ((x', None), ws, g')" x'
  shows "map_of ws (keyChanMsg ch) = Some (GMessage (part_msg ec ch msg), OpPut (keyChanMsg ch) (GMessage (part_msg ec ch msg)) 0 False False)"
  using assms
  by (cases "user_at d (ec_nick ec)"; cases "entry d (keyChanNicks ch lid)")
     (auto simp: part_body_def body_simps part_eq typed_user typed_nicks split: if_splits dest: typed_nicks)

lemma kick_target_puts:
  assumes "wf_etcd d" "typed d" "run_pure (kick_target ec ch nick msg x) d [] g = ((x', None), ws, g')" "\<not> k_userNotOnChan x'"
  shows "map_of ws (keyChanMsg ch) = Some (GMessage (kick_msg ec ch nick msg), OpPut (keyChanMsg ch) (GMessage (kick_msg ec ch nick msg)) 0 False False)"
proof (cases "user_at d nick")
  case None
  with assms show ?thesis by (auto simp: kick_target_def user_missing)
next
  case (Some uv)
  then have "entry d (keyUserCtl nick) = Some (GUser uv, uLease uv)" using assms(2) by (simp add: typed_user)
  with Some assms show ?thesis
    by (cases "entry d (keyChanNicks ch (uLease uv))"; cases "ch \<in> set (uChannels uv)")
       (auto simp: kick_target_def body_simps part_eq dest: typed_nicks)
qed

lemma kick_puts:
  assumes "wf_etcd d" "typed d" "run_pure (kick_body ec ch nick msg lid x) d [] g = ((x', None), ws, g')"
    "\<not> k_notOnChan x'" "\<not> k_notOp x'" "\<not> k_userNotOnChan x'"
  shows "map_of ws (keyChanMsg ch) = Some (GMessage (kick_msg ec ch nick msg), OpPut (keyChanMsg ch) (GMessage (kick_msg ec ch nick msg)) 0 False False)"
proof (cases "entry d (keyChanNicks ch lid)")
  case None
  with assms show ?thesis by (auto simp: kick_body_def body_simps nicks_at_missing)
next
  case (Some p)
  show ?thesis
  proof (cases "find_nick (nicks_at d ch lid) (ec_nick ec)")
    case None
    with Some assms show ?thesis by (auto simp: kick_body_def body_simps)
  next
    case n: (Some n)
    then have "is_op n" using Some assms by (cases "is_op n") (auto simp: kick_body_def body_simps)
    then have "run_pure (kick_target ec ch nick msg (x\<lparr>k_notOnChan := False, k_notOp := False\<rparr>)) d [] g = ((x', None), ws, g')"
      using Some n assms by (simp add: kick_body_def body_simps)
    from kick_target_puts [OF assms(1,2) this assms(6)] show ?thesis .
  qed
qed

lemma committed_posts:
  assumes "committed n lid body d0 d x1 d'"
    and "\<And>x0 g ws g'. run_pure (body x0) d [] g = ((x1, None), ws, g') \<Longrightarrow> map_of ws k = Some (GMessage m, OpPut k (GMessage m) l ign False)"
  shows "posts d d' k m"
proof -
  from assms(1) obtain x0 g where "atomically (body x0) d g x1 d'" by (rule committed_atomically)
  then obtain ws g' resp where ws: "run_pure (body x0) d [] g = ((x1, None), ws, g')" "apply_writes d ws = Inr (resp, d')"
    by (auto simp: atomically_def)
  have "good_ws ws" by (rule run_pure_good [OF ws(1)]) simp
  then show ?thesis by (rule apply_writes_posts [OF ws(2) _ assms(2) [OF ws(1)]])
qed

text \<open>A call without a refusal has posted its message, in a store of the network at one moment of the call.\<close>

lemma Part_posts:
  assumes sys: "system (ec_nick ec) lid w" and run: "Part ec ch msg w = (Ok (Inr ()), w')" and quiet: "out w' = out w"
  obtains d where "reachable d" "extends (db w) d" "posts d (db w') (keyChanMsg ch) (part_msg ec ch msg)"
proof -
  obtain d x1 r w1 where c: "committed (ec_nick ec) lid (part_body ec ch msg lid) (db w) d x1 (db w1)" "out w1 = out w"
    and f: "(if \<not> x1 then sendHostMsg ec ERR_NOTONCHANNEL [ch, ''You'' @ [CHR 0x27] @ ''re not on that channel'']
      else ret (Inr ())) w1 = (Ok (Inr ()), w')"
    by (rule run_session_command [OF sys run [unfolded Part_def]], rule that, simp_all only: prod.case)
  from f quiet c(2) have "w' = w1" x1 by (auto split: if_splits dest: sendHostMsg_Ok)
  with committed_posts [OF c(1)] part_puts committed_wf [OF c(1)] have "posts d (db w') (keyChanMsg ch) (part_msg ec ch msg)" by blast
  with that committed_reachable [OF c(1)] show thesis by blast
qed

lemma kick_posts:
  assumes sys: "system (ec_nick ec) lid w" and run: "kick ec ch nick msg w = (Ok (Inr ()), w')" and quiet: "out w' = out w"
  obtains d where "reachable d" "extends (db w) d" "posts d (db w') (keyChanMsg ch) (kick_msg ec ch nick msg)"
proof -
  obtain d x1 r w1 where c: "committed (ec_nick ec) lid (kick_body ec ch nick msg lid) (db w) d x1 (db w1)" "out w1 = out w"
    and f: "(if k_notOnChan x1 then not_on_channel ec ch
      else if k_userNotOnChan x1 then sendHostMsg ec ERR_USERNOTINCHANNEL [nick, ch, ''User not in channel'']
      else if k_notOp x1 then not_chan_op ec ch else ret (Inr ())) w1 = (Ok (Inr ()), w')"
    by (rule run_session_command [OF sys run [unfolded kick_def]], rule that, simp_all only: prod.case)
  from f quiet c(2) have "w' = w1" "\<not> k_notOnChan x1" "\<not> k_notOp x1" "\<not> k_userNotOnChan x1"
    by (auto simp: reply_defs split: if_splits dest: sendHostMsg_Ok)
  with committed_posts [OF c(1)] kick_puts committed_wf [OF c(1)] have "posts d (db w') (keyChanMsg ch) (kick_msg ec ch nick msg)" by blast
  with that committed_reachable [OF c(1)] show thesis by blast
qed

section \<open>The end of the watch\<close>

lemma watch_on_key: "watch_events d k [] r = filter (\<lambda>ev. r \<le> event_revision ev) (on_key k (elog d))"
  by (auto simp: watch_events_def op_range_def in_range_def intro!: filter_cong)

lemma watch_posts:
  assumes "posts d d' k m" "r \<le> revision d + 1"
  obtains kv prev where "watch_events d' k [] r = watch_events d k [] r @ [PutEvent k kv prev]" "kv_Value kv = GMessage m"
proof -
  from assms(1) obtain kv prev where ev: "on_key k (elog d') = on_key k (elog d) @ [PutEvent k kv prev]"
    "kv_Value kv = GMessage m" "kv_ModRevision kv = revision d + 1" by (auto simp: posts_def)
  have "watch_events d' k [] r = watch_events d k [] r @ [PutEvent k kv prev]"
    unfolding watch_on_key ev(1) using ev(3) assms(2) by (simp del: filter_filter)
  with ev(2) that show thesis by blast
qed

lemma monitorMsg_last:
  assumes "posts d d' k m" "r \<le> revision d + 1" "ends rc ch m"
    "concat evss = watch_events d' k [] r @ later" "heard_before rc (watch_events d k [] r)" "ctxs v = []"
  shows "monitorMsg rc (map WatchEvents evss) v =
    (Ok (Inr ()), snd (chan_cancel ch (v\<lparr>out := out v @ deliverable rc (watch_events d k [] r) @ [m]\<rparr>)))"
proof -
  obtain kv prev where ev: "watch_events d' k [] r = watch_events d k [] r @ [PutEvent k kv prev]" "kv_Value kv = GMessage m"
    by (rule watch_posts [OF assms(1,2)])
  have "message_of (PutEvent k kv prev) = [m]" using ev(2) by (simp add: decode_defs)
  from monitorMsg_event_ends [OF _ this assms(3)] assms ev(1) show ?thesis
    by (intro monitorMsg_stop_at [of evss "watch_events d k [] r" "PutEvent k kv prev" later]) (auto simp: heard_before_def list_all_iff)
qed

text \<open>
  C22.  Leaving ends the watch: when \<^verbatim>\<open>PART\<close> or \<^verbatim>\<open>KICK\<close> returns without an error and without a refusal, the connection of the user who left, or was kicked, is given the messages posted to the channel before, then the
  \<^verbatim>\<open>PART\<close> or \<^verbatim>\<open>KICK\<close> itself, and nothing that is posted to the channel later; the watch of the channel is cancelled.
\<close>

theorem leaving_ends_watch:
  assumes "system (ec_nick ec) lid w" "out w' = out w"
    and "kick ec ch n msg w = (Ok (Inr ()), w') \<and> m = kick_msg ec ch n msg \<or>
      Part ec ch msg w = (Ok (Inr ()), w') \<and> m = part_msg ec ch msg \<and> n = pName (ec_prefix ec)"
    and "ec_nick rc = n" "r \<le> revision (db w) + 1" "ctxs v = []"
  shows "\<exists>d. reachable d \<and> extends (db w) d \<and> posts d (db w') (keyChanMsg ch) m \<and>
    (\<forall>evss later. concat evss = watch_events (db w') (keyChanMsg ch) [] r @ later \<and> heard_before rc (watch_events d (keyChanMsg ch) [] r) \<longrightarrow>
       monitorMsg rc (map WatchEvents evss) v =
         (Ok (Inr ()), snd (chan_cancel ch (v\<lparr>out := out v @ deliverable rc (watch_events d (keyChanMsg ch) [] r) @ [m]\<rparr>))))"
proof -
  obtain d where d: "reachable d" "extends (db w) d" "posts d (db w') (keyChanMsg ch) m"
    using kick_posts [OF assms(1) _ assms(2)] Part_posts [OF assms(1) _ assms(2)] assms(3) by metis
  have "ends rc ch m" using assms(3,4) by (auto simp: Client_Monitor.ends_def kick_msg_def part_msg_def)
  moreover have "r \<le> revision d + 1" using assms(5) etcd_versions.ext_now [OF d(2)] by simp
  ultimately show ?thesis using d monitorMsg_last [OF d(3) _ _ _ _ assms(6)] by blast
qed

definition late_event :: "gob event" where
  "late_event = PutEvent (keyChanMsg ''#c'') \<lparr> kv_Value = encodeMessage (privmsg (client ''al'') ''#c'' ''gone''), kv_CreateRevision = 2,
     kv_ModRevision = 99, kv_Version = 9, kv_Lease = 0 \<rparr> None"

theorem leaving_ends_watch_witness:
  "out (snd (monitorMsg (client ''bo'')
     [WatchEvents (watch_events (db (snd (kick (client ''al'') ''#c'' ''bo'' ''go'' (world_of net5 7)))) (keyChanMsg ''#c'') [] (revision net5 + 1)),
      WatchEvents [late_event]] (world_of net5 7))) = [kick_msg (client ''al'') ''#c'' ''bo'' ''go'']"
proof -
  let ?w = "world_of net5 7" and ?k = "keyChanMsg ''#c''" and ?r = "revision net5 + 1"
  let ?P = "kick (client ''al'') ''#c'' ''bo'' ''go'' ?w"
  let ?evs = "watch_events (db (snd ?P)) ?k [] ?r"
  have ok: "fst ?P = Ok (Inr ())" "out (snd ?P) = out ?w" "length ?evs = 1" by code_simp+
  from leaving_ends_watch [of "client ''al''" 7 ?w "snd ?P" "''#c''" "''bo''" "''go''" "kick_msg (client ''al'') ''#c'' ''bo'' ''go''" "client ''bo''" ?r ?w]
    ok(2) with_result [OF ok(1)] demo_systems(4)
  obtain d where d: "extends net5 d" "posts d (db (snd ?P)) ?k (kick_msg (client ''al'') ''#c'' ''bo'' ''go'')"
    and h: "\<forall>evss later. concat evss = ?evs @ later \<and> heard_before (client ''bo'') (watch_events d ?k [] ?r) \<longrightarrow>
       monitorMsg (client ''bo'') (map WatchEvents evss) ?w = (Ok (Inr ()), snd (chan_cancel ''#c''
         (?w\<lparr>out := out ?w @ deliverable (client ''bo'') (watch_events d ?k [] ?r) @ [kick_msg (client ''al'') ''#c'' ''bo'' ''go'']\<rparr>)))"
    by auto
  have "watch_events d ?k [] ?r = []"
    using watch_posts [OF d(2), of ?r] ok(3) etcd_versions.ext_now [OF d(1)] by fastforce
  with h [THEN spec [of _ "[?evs, [late_event]]"], THEN spec [of _ "[late_event]"]] show ?thesis
    by (simp add: heard_before_def chan_cancel_def world_of_def)
qed

end
