(* ===== verification/Cluster_Watch.thy ===== *)
theory Cluster_Watch
  imports Watch_Stack Cluster_Network Leaving
begin

text \<open>
  The messages of the network through the encrypted cluster: the requests of all servers go through their clients into the cluster, and a watch of one key, as
  the watchers of a client have it, brings the events back through the goroutines of the three layers.  Main result: the server is given the messages
  of the plain network.
\<close>

section \<open>A watch of one key\<close>

text \<open>A list with the same events of every key as a list of one key is that list.\<close>

lemma same_by_key:
  assumes "\<forall>k. on_key k L = on_key k W" "\<forall>ev \<in> set W. ev_key ev = k0"
  shows "L = W"
proof -
  have "ev_key ev = k0" if "ev \<in> set L" for ev
  proof (rule ccontr)
    assume "ev_key ev \<noteq> k0"
    then have "on_key (ev_key ev) W = []" using assms(2) by (auto simp: filter_empty_conv)
    with assms(1) that show False by (metis (mono_tags, lifting) filter_empty_conv)
  qed
  then have "on_key k0 L = L" by (simp add: filter_id_conv)
  moreover have "on_key k0 W = W" using assms(2) by (simp add: filter_id_conv)
  ultimately show ?thesis using assms(1) by metis
qed

lemma watch_one_key: "ev \<in> set (watch_events d k [] r) \<Longrightarrow> ev_key ev = k"
  by (simp add: watch_events_def op_range_def in_range_def)

lemma stack_one_key:
  assumes "crypto_ok g" "ns_prefix pfx" "pfx \<noteq> []" "MustIrcdEtcdClient g rnd etcd_cli pfx (Some (SymmetricKey aeskey)) = Ok cli"
    and "stack_view g aeskey pfx d D" "stack_key g aeskey k"
    and "NewAESCipher g aeskey = Inr c" "aes_NewCipher g aeskey = Inr b" "ke = secure_encoder (NewKeyEncoderHMAC g aeskey b)"
    and "stack_reaches pfx c ke s" "ke_Encode ke k = Ok e" "ns_watch_request pfx e [] = (k0, opts0)"
    and "prefix (concat (f_seen (ws_ns s))) (watch_events D k0 opts0 r)"
  shows "prefix (concat (f_out (ws_key s))) (watch_events d k [] r)"
    and "concat (f_seen (ws_ns s)) = watch_events D k0 opts0 r \<Longrightarrow> idle (ws_ns s) \<Longrightarrow> idle (ws_crypto s) \<Longrightarrow> idle (ws_key s) \<Longrightarrow>
      concat (f_out (ws_key s)) = watch_events d k [] r"
    and "f_pc (ws_ns s) \<noteq> FPanicked" "f_pc (ws_crypto s) \<noteq> FPanicked" "f_pc (ws_key s) \<noteq> FPanicked"
proof -
  have w: "watch_fits (stack_key g aeskey) (stack_pfx g aeskey) k []" using assms(6) by (simp add: watch_fits_def)
  obtain L where L: "\<forall>k'. on_key k' L = on_key k' (watch_events d k [] r)" "prefix (concat (f_out (ws_key s))) L"
    "concat (f_seen (ws_ns s)) = watch_events D k0 opts0 r \<and> idle (ws_ns s) \<and> idle (ws_crypto s) \<and> idle (ws_key s) \<longrightarrow> concat (f_out (ws_key s)) = L"
    and p: "f_pc (ws_ns s) \<noteq> FPanicked" "f_pc (ws_crypto s) \<noteq> FPanicked" "f_pc (ws_key s) \<noteq> FPanicked"
    using stack_forwards [OF assms(1-5) w assms(7-13)] by blast
  have "L = watch_events d k [] r" by (rule same_by_key [OF L(1), of k]) (simp add: watch_one_key)
  with L p show "prefix (concat (f_out (ws_key s))) (watch_events d k [] r)"
    "concat (f_seen (ws_ns s)) = watch_events D k0 opts0 r \<Longrightarrow> idle (ws_ns s) \<Longrightarrow> idle (ws_crypto s) \<Longrightarrow> idle (ws_key s) \<Longrightarrow>
      concat (f_out (ws_key s)) = watch_events d k [] r"
    "f_pc (ws_ns s) \<noteq> FPanicked" "f_pc (ws_crypto s) \<noteq> FPanicked" "f_pc (ws_key s) \<noteq> FPanicked" by auto
qed

section \<open>Messages in bytes\<close>

text \<open>\<^verbatim>\<open>decodeMessage\<close> on bytes; what \<^verbatim>\<open>monitorMsg\<close> makes of the events it is given.\<close>

definition message_bytes_ok :: "(gob \<Rightarrow> byte list) \<Rightarrow> (byte list \<Rightarrow> error + Message) \<Rightarrow> bool" where
  "message_bytes_ok to_bytes of_msg \<longleftrightarrow> (\<forall>v m. of_msg (to_bytes v) = Inr m \<longleftrightarrow> decodeMessage v = Inr m)"

fun received :: "(byte list \<Rightarrow> error + Message) \<Rightarrow> byte list event \<Rightarrow> Message list" where
  "received of_msg (PutEvent k kv prev) = (case of_msg (kv_Value kv) of Inl e \<Rightarrow> [] | Inr m \<Rightarrow> [m])"
| "received of_msg (DeleteEvent k r prev) = []"

lemma received_rel:
  assumes "message_bytes_ok h of_msg" "list_all2 (ev_rel id (\<lambda>v w. w = h v)) evs EVS"
  shows "concat (map (received of_msg) EVS) = concat (map message_of evs)"
  using assms(2)
proof (induction rule: list_all2_induct)
  case (Cons ev evs EV EVS)
  have "(case of_msg (h v) of Inl e \<Rightarrow> [] | Inr m \<Rightarrow> [m]) = (case decodeMessage v of Inl e \<Rightarrow> [] | Inr m \<Rightarrow> [m])" for v
  proof (cases "decodeMessage v")
    case (Inl e)
    then have "of_msg (h v) \<noteq> Inr m" for m using assms(1) by (simp add: message_bytes_ok_def)
    with Inl show ?thesis by (cases "of_msg (h v)") auto
  next
    case (Inr m)
    then have "of_msg (h v) = Inr m" using assms(1) by (simp add: message_bytes_ok_def)
    with Inr show ?thesis by simp
  qed
  then have "received of_msg EV = message_of ev" using Cons.hyps(1) by (cases ev; cases EV) (auto simp: kv_rel_def)
  with Cons show ?case by simp
qed simp

lemma watch_bytes:
  assumes "bytes_store h d d1" "k \<noteq> []"
  shows "list_all2 (ev_rel id (\<lambda>v w. w = h v)) (watch_events d k [] r) (watch_events d1 k [] r)"
  using same.events_rel [OF assms(1) [unfolded bytes_store_def], of k None None r] assms(2)
  by (simp add: watch_events_def op_range_def range_rel_def in_range_def)

lemma prefix_concat_map: "prefix xs ys \<Longrightarrow> prefix (concat (map f xs)) (concat (map f ys))"
  by (auto simp: prefix_def)

section \<open>The messages of the network\<close>

text \<open>
  C29.  Messages through the encrypted cluster: whatever requests the servers of a network have sent, with their values as bytes, through clients that put keys under the prefix, encrypt
  them and seal the values, no goroutine of a watch of a message key panics, and the messages that a server decodes from what the watch has given it are the beginning
  of the messages of the plain network on that key, in order, without loss or repetition: all of them once all have arrived.
\<close>

theorem cluster_messages:
  assumes gob: "message_bytes_ok to_bytes of_msg" and g: "crypto_ok g" "ns_prefix pfx" "pfx \<noteq> []" and empty: "stack_view g aeskey pfx init_etcd D"
    and run: "\<forall>(cli, q) \<in> set qs. (\<exists>rnd. MustIrcdEtcdClient g rnd etcd_cli pfx (Some (SymmetricKey aeskey)) = Ok cli) \<and>
      req_fits (stack_key g aeskey) (stack_pfx g aeskey) (foreign_lease pfx D) q"
    and net: "d = fold serve (map snd qs) init_etcd" "cli_serves (map (map_prod id (map_request to_bytes)) qs) D = Ok D'"
    and layers: "NewAESCipher g aeskey = Inr c" "aes_NewCipher g aeskey = Inr b" "ke = secure_encoder (NewKeyEncoderHMAC g aeskey b)"
    and reader: "stack_key g aeskey k" "stack_reaches pfx c ke s" "ke_Encode ke k = Ok e" "ns_watch_request pfx e [] = (k0, opts0)"
      "prefix (concat (f_seen (ws_ns s))) (watch_events D' k0 opts0 r)"
  shows "prefix (concat (map (received of_msg) (concat (f_out (ws_key s))))) (concat (map message_of (watch_events d k [] r))) \<and>
    (concat (f_seen (ws_ns s)) = watch_events D' k0 opts0 r \<and> idle (ws_ns s) \<and> idle (ws_crypto s) \<and> idle (ws_key s) \<longrightarrow>
      concat (map (received of_msg) (concat (f_out (ws_key s)))) = concat (map message_of (watch_events d k [] r))) \<and>
    f_pc (ws_ns s) \<noteq> FPanicked \<and> f_pc (ws_crypto s) \<noteq> FPanicked \<and> f_pc (ws_key s) \<noteq> FPanicked"
proof -
  let ?d = "fold serve (map (map_request to_bytes) (map snd qs)) init_etcd"
  have D': "stack_view g aeskey pfx ?d D'" and b: "bytes_store to_bytes d ?d"
    using cluster_run [OF g(1,2) empty run, of to_bytes] net by auto
  obtain cli where cli: "MustIrcdEtcdClient g (\<lambda>i j. 0) etcd_cli pfx (Some (SymmetricKey aeskey)) = Ok cli"
    using layers(1,2) by (simp add: MustIrcdEtcdClient_def MustCrypto_def)
  note st = stack_one_key [OF g cli D' reader(1) layers reader(2-5)]
  have "k \<noteq> []" using reader(1) by (auto simp: stack_key_def secure_key_def netkey_def mk_key_def split: sum.splits)
  from received_rel [OF gob watch_bytes [OF b this, of r]]
  have "concat (map (received of_msg) (watch_events ?d k [] r)) = concat (map message_of (watch_events d k [] r))" .
  with prefix_concat_map [OF st(1), of "received of_msg"] st(2-5) show ?thesis by auto
qed

text \<open>A codec for messages, and a network in which \<^verbatim>\<open>bo\<close> is registered and gets a message.\<close>

definition message_fields :: "Message \<Rightarrow> (string \<times> string \<times> string) option \<times> string \<times> string list" where
  "message_fields m = (map_option (\<lambda>p. (pName p, pUser p, pHost p)) (mPrefix m), mCommand m, mParams m)"

definition message_of_fields :: "(string \<times> string \<times> string) option \<times> string \<times> string list \<Rightarrow> Message" where
  "message_of_fields = (\<lambda>(p, c, ps). \<lparr> mPrefix = map_option (\<lambda>(n, u, h). \<lparr> pName = n, pUser = u, pHost = h \<rparr>) p, mCommand = c, mParams = ps \<rparr>)"

definition demo_msg_bytes :: "gob \<Rightarrow> byte list" where
  "demo_msg_bytes v = (case v of GMessage m \<Rightarrow> replicate (Suc (to_nat (message_fields m))) 0 | _ \<Rightarrow> [])"

definition demo_of_msg :: "byte list \<Rightarrow> error + Message" where
  "demo_of_msg b = (case length b of 0 \<Rightarrow> Inl (ErrRpc ''gob'') | Suc n \<Rightarrow> Inr (message_of_fields (from_nat n)))"

lemma demo_msg_codec: "message_bytes_ok demo_msg_bytes demo_of_msg"
proof -
  have "message_of_fields (message_fields m) = m" for m
    by (cases "mPrefix m") (simp_all add: message_of_fields_def message_fields_def)
  then show ?thesis
    by (auto simp: message_bytes_ok_def demo_msg_bytes_def demo_of_msg_def decode_defs split: gob.splits)
qed

definition demo_msg :: Message where
  "demo_msg = privmsg (client ''al'') ''bo'' ''hey''"

definition demo_msg_run :: "gob request list" where
  "demo_msg_run = demo_run @ [ReqTxn [] [OpPut (keyUserMsg ''bo'') (encodeMessage demo_msg) 0 True False] []]"

theorem cluster_messages_witness:
  "\<exists>cli D' (c :: (byte list, byte list) Cipher) b s. demo_cli = Ok cli \<and> cli_serves (map (\<lambda>q. (cli, map_request demo_msg_bytes q)) demo_msg_run) init_etcd = Ok D' \<and>
     stack_reaches ''/irc/'' c (secure_encoder (NewKeyEncoderHMAC demo_crypto demo_aeskey b)) s \<and>
     concat (map (received demo_of_msg) (concat (f_out (ws_key s)))) = [demo_msg]"
proof -
  let ?k = "keyUserMsg ''bo''" and ?h = demo_msg_bytes
  obtain cli where cli: "demo_cli = Ok cli" using demo_cli_Ok by blast
  obtain c where c: "NewAESCipher demo_crypto demo_aeskey = Inr c" using demo_cipher(2) by blast
  obtain b where b: "aes_NewCipher demo_crypto demo_aeskey = Inr b" using demo_cipher(1) by blast
  let ?ke = "secure_encoder (NewKeyEncoderHMAC demo_crypto demo_aeskey b)" and ?qs = "map (Pair cli) demo_msg_run"
  have "\<not> foreign_lease ''/irc/'' (init_etcd :: byte list etcd) 7" by (simp add: foreign_lease_def lookup_def current_def init_etcd_def)
  then have fit: "\<forall>(c, q) \<in> set ?qs. (\<exists>rnd. MustIrcdEtcdClient demo_crypto rnd etcd_cli ''/irc/'' (Some (SymmetricKey demo_aeskey)) = Ok c) \<and>
      req_fits (stack_key demo_crypto demo_aeskey) (stack_pfx demo_crypto demo_aeskey) (foreign_lease ''/irc/'' (init_etcd :: byte list etcd)) q"
    using cli demo_stack_key demo_net_keys by (auto simp: demo_run_def demo_msg_run_def demo_cli_def)
  have qs: "map snd ?qs = demo_msg_run" by (simp add: comp_def)
  obtain D' where D': "cli_serves (map (map_prod id (map_request ?h)) ?qs) init_etcd = Ok D'"
    "stack_view demo_crypto demo_aeskey ''/irc/'' (fold serve (map (map_request ?h) (map snd ?qs)) init_etcd) D'"
    using cluster_run [OF demo_crypto_ok default_prefix demo_view fit, of ?h] by blast
  have w: "watch_fits (stack_key demo_crypto demo_aeskey) (stack_pfx demo_crypto demo_aeskey) ?k []" using demo_net_keys(1) by (simp add: watch_fits_def)
  obtain L where L: "cl_Watch cli D' ?k [] 1 = Ok L"
    using encrypted_Watch [OF demo_crypto_ok default_prefix cli [unfolded demo_cli_def] D'(2) w] by blast
  obtain e xs ys where e: "ke_Encode ?ke ?k = Ok e"
    and t: "traverse (unprefix_event ''/irc/'') (case ns_watch_request ''/irc/'' e [] of (k, os) \<Rightarrow> watch_events D' k os 1) = Ok xs"
      "traverse (crypto_dec_event c) xs = Ok ys" "traverse (dec_event ?ke) ys = Ok L"
    by (rule cli_Watch [OF cli [unfolded demo_cli_def] _ c b L]) simp_all
  obtain k0 os where q: "ns_watch_request ''/irc/'' e [] = (k0, os)" by fastforce
  let ?s = "passed_stack [watch_events D' k0 os 1] [xs] [ys] [L]"
  have s: "stack_reaches ''/irc/'' c ?ke ?s" by (rule stack_passed) (use t q in simp_all)
  have m: "concat (map message_of (watch_events (fold serve (map snd ?qs) init_etcd) ?k [] 1)) = [demo_msg]" unfolding qs by code_simp
  from cluster_messages [OF demo_msg_codec demo_crypto_ok default_prefix _ demo_view fit refl D'(1) c b refl demo_net_keys(1) s e q, of 1] m
  have "concat (map (received demo_of_msg) (concat (f_out (ws_key ?s)))) = [demo_msg]"
    by (auto simp: passed_stack_def passed_idle) (simp_all add: passed_def)
  moreover have "cli_serves (map (\<lambda>q. (cli, map_request demo_msg_bytes q)) demo_msg_run) init_etcd = Ok D'" using D'(1) by (simp add: comp_def)
  ultimately show ?thesis using cli s by blast
qed

end
