(* ===== verification/Spec2Isabelle.thy ===== *)
theory Spec2Isabelle
  imports Network_Correct Commands_Correct Client_Correct List_Correct Client_Returns Encoded_Correct
    Etcd_Session Irc_Conn Main_Correct Irc_Serve Irc_Wire Irc_Tee Cluster_Watch
begin

text \<open>
  \<^bold>\<open>etcdircd\<close> is an IRC server that keeps the whole IRC network in etcd: users, channels, rosters and the last
  message of every user and channel are keys, several servers share one store, commands are
  optimistic transactions, and messages travel by watching keys.  This development models the program in the order of its layers
  and shows that the layers keep what they promise to each other.

  \<^bold>\<open>Parts of the program and their theories.\<close>

  \<^item> \<^emph>\<open>Base.\<close>  \<open>Irc_Prelude\<close> has the outcome of a Go call (a value, a panic, the end of the process, or fuel that ran
    out), the errors, and shared list lemmas; \<open>Go_Strings\<close> the functions of Go's string packages that the
    program calls (\<^verbatim>\<open>Split\<close>, \<^verbatim>\<open>Join\<close>, \<^verbatim>\<open>%d\<close>, \<^verbatim>\<open>%x\<close>, \<^verbatim>\<open>Sscanf\<close>).
  \<^item> \<^emph>\<open>Data.\<close>  \<open>Irc_Modes\<close> (\<^verbatim>\<open>mode.go\<close>, also at the level of shared byte slices), \<open>Irc_Values\<close> (\<^verbatim>\<open>user.go\<close>, \<^verbatim>\<open>channel.go\<close>,
    \<^verbatim>\<open>oper.go\<close>, \<^verbatim>\<open>msg.go\<close>, \<^verbatim>\<open>config.go\<close>), \<open>Irc_Keys\<close> (\<^verbatim>\<open>key.go\<close>).  Stored bytes are the type \<open>gob\<close>: a value of one of
    the stored types, or raw bytes; the contract of an encoder and decoder pair is the locale \<open>gob_codec\<close>.
  \<^item> \<^emph>\<open>The client of etcd\<close> is a stack of layers, which \<open>Client_Stack\<close> (\<^verbatim>\<open>internal/util/client.go\<close>) puts together.  \<open>Kv_Client\<close> is the interface: a record of the requests and
    watches of a client, and the locale \<open>client_view\<close>, that a client serves requests as etcd does on a store that its state represents.  From the bottom, each a function from clients to clients:
    \<open>Namespace_KV\<close> (the vendored \<^verbatim>\<open>clientv3/namespace\<close>), \<open>Crypto_KV\<close> (the vendored \<^verbatim>\<open>etcdcrypto\<close>: sealed values), \<open>Encoded_KV\<close> (\<^verbatim>\<open>keyencode/kv.go\<close>, \<^verbatim>\<open>keyencode/watch.go\<close>: encrypted keys).
    \<open>Key_Encode\<close> is \<^verbatim>\<open>keyencode/encode.go\<close> (HMAC, CTR mode, padding, with the hash and the block cipher as fields of the encoder).
    \<open>Store_Sim\<close> shows once, in the locale \<open>key_renaming\<close>, that an order-preserving renaming of keys with a relation on values
    is respected by every request of etcd; the namespace (\<open>ns\<close>) and the encryption of values (\<open>same\<close>) interpret it.  The locale \<open>key_encoder\<close> is what an encoder of keys
    promises, \<open>kv_encoder\<close> extends it by what the wrapped client needs, and \<open>encoded_client\<close> joins it with \<open>client_view\<close>; \<open>bare\<close>, \<open>irc_ns\<close>, \<open>nop_encoder\<close>, \<open>plain_encoder\<close>, \<open>plain_kv\<close> and \<open>plain_client\<close> interpret them on the
    definitions of the code, and \<open>secure_contract\<close> and \<open>stack_client\<close> instantiate them for every hash and cipher of the right sizes.
    \<open>Watch_Forward\<close> has the goroutines behind a watch and \<^verbatim>\<open>Close\<close>, a step relation with the translation of an event as its argument; \<open>Watch_Stack\<close> takes it three times, for the \<^verbatim>\<open>watch.go\<close> of the namespace,
    of \<^verbatim>\<open>etcdcrypto\<close> and of \<^verbatim>\<open>keyencode\<close>, and connects them by the unbuffered channels between them.
  \<^item> \<^emph>\<open>etcd.\<close>  \<open>Etcd_Store\<close> follows the vendored server (checks and application of requests, revisions, leases); the locale
    \<open>versioned_store\<close> is the law that optimistic transactions rest on.  \<open>Etcd_Stm\<close> follows the vendored \<^verbatim>\<open>concurrency/stm.go\<close>;
    a transaction body is a term of the type \<open>prog\<close>, whose variables captured across retries are explicit.  \<open>Stm_Serial\<close> and \<open>Stm_Effects\<close>
    have the facts about committed transactions, \<open>Etcd_Log\<close> that the log of events which watches deliver accounts for every change.
  \<^item> \<^emph>\<open>The session\<close> of the server: \<open>Etcd_Session\<close> (\<^verbatim>\<open>session.go\<close>), a step relation for the goroutine that keeps the session, its callers and \<^verbatim>\<open>Close\<close>.
  \<^item> \<^emph>\<open>Connections.\<close>  \<open>Irc_Conn\<close> (\<^verbatim>\<open>conn.go\<close>), a step relation for the reader, the writer, the users of a connection and \<^verbatim>\<open>Close\<close>; \<open>Irc_Wire\<close>, the lines on the wire
    (the vendored \<^verbatim>\<open>irc.v2\<close>: parsing and printing of messages, encoder and decoder); \<open>Irc_Tee\<close> (\<^verbatim>\<open>internal/util/tee.go\<close>), the debugging listener that logs what clients send.
  \<^item> \<^emph>\<open>Clients.\<close>  \<open>Client_World\<close> is what one client acts on; a call is a function of the type \<open>io\<close> on it.  \<open>Irc_Client\<close>, \<open>Client_Queries\<close>,
    \<open>Client_Channels\<close>, \<open>Client_Users\<close> are the commands of \<^verbatim>\<open>etcd_client.go\<close>, each with its transaction body (\<open>part_body\<close> for
    \<^verbatim>\<open>Part\<close>, and so on) and its replies; \<open>Client_Monitor\<close> its watchers; \<open>Client_Do\<close> the dispatch of \<^verbatim>\<open>client.go\<close>.
  \<^item> \<^emph>\<open>Server and tool.\<close>  \<open>Irc_Server\<close> (\<^verbatim>\<open>server.go\<close>: connection request, handshake, message of the day, loop of a connection); \<open>Irc_Serve\<close>, the goroutines of a server (\<^verbatim>\<open>Serve\<close>, the life of a connection and of its watchers, \<^verbatim>\<open>Close\<close> of the server and of a client), a step relation;
    \<open>Ircdctl\<close> (the commands of \<^verbatim>\<open>cmd/ircdctl\<close>); \<open>Irc_Main\<close> (\<^verbatim>\<open>main\<close> of both programs, flags, \<^verbatim>\<open>internal/util/config.go\<close>), with files, sockets, TLS and the key exchange as fields of an environment.

  \<^bold>\<open>How the parts interact.\<close>  A world has a schedule of turns, one per request of the client: the requests that other parties (other
  servers, other connections, the tool, expiring leases) have served just before it, and whether the request fails before or after the store
  applied it.  So a theorem about one command quantifies over all interleavings with everybody else.  The other side is \<open>Net_System\<close>: \<open>net_step\<close> is one atomic step of any party, and
  \<open>reachable\<close> are the stores that such steps make from the empty one; \<open>system n lid w\<close> says that all parties of the schedule act by such steps and that the client acts under its nick and lease.

  \<^bold>\<open>What is shown.\<close>

  \<^item> \<^emph>\<open>The network\<close> (\<open>Net_Spec\<close>, \<open>Net_Invariant\<close>, \<open>Net_System\<close>, \<open>Preservation\<close>, \<open>Server_System\<close>, \<open>Admin_System\<close>, \<open>Network_Correct\<close>): in every reachable store users and rosters agree and
    every value has the type and lease of its key; every command, every connection and the tool keep it so; what the loss of a session removes.
  \<^item> \<^emph>\<open>Commands\<close> (\<open>Command_Specs\<close>, \<open>Commands_Correct\<close>, \<open>Join_Correct\<close>, \<open>Register_Correct\<close>, \<open>List_Correct\<close>, \<open>Client_Correct\<close>): each command that returns without an error had, at one
    moment, exactly the effect of its specification on the view of the network, with the replies that belong to it; watchers deliver what was posted, in order; \<^verbatim>\<open>LIST\<close> and the
    visibility filter hide what they should; transactions are serializable.
  \<^item> \<^emph>\<open>Delivery\<close> (\<open>Delivery\<close>, \<open>Leaving\<close>, \<open>Etcd_Log\<close>): a message that \<^verbatim>\<open>PRIVMSG\<close> accepts is one event, which every connection that watches its channel or user is given exactly once; a \<^verbatim>\<open>PART\<close> or \<^verbatim>\<open>KICK\<close> is the last thing
    of its channel that the user who left is given; a client that reads at a revision and watches from the next misses nothing.
  \<^item> \<^emph>\<open>Termination\<close> (\<open>Client_Returns\<close>): no command and no connection runs out of fuel.
  \<^item> \<^emph>\<open>Encryption\<close> (\<open>Encoded_Correct\<close>): transactions, watches and whole runs through the client of the server are those on a store in the clear, whatever the random bytes; nothing outside
    the namespace is written; keys round trip.  \<open>Cluster_Network\<close> joins this with the network: what a client reads from the encrypted cluster is a consistent network.  \<open>Watch_Stack\<close> joins it with the goroutines: what a server receives from a watch
    of the encrypted cluster are the events of the store in the clear, and no goroutine panics.  \<open>Cluster_Watch\<close> puts all of it together: the messages that a server decodes from such a watch are those of the plain network.
  \<^item> \<^emph>\<open>Starting up\<close> (\<open>Main_Correct\<close>): a server that starts has the security its flags ask for; the tool gets the client of the server, and only at the default endpoint.
  \<^item> \<^emph>\<open>The wire\<close> (\<open>Irc_Wire\<close>, \<open>Irc_Tee\<close>): messages round trip; a received message is sent on as one bounded line; the log of a connection is what the server was given.
  \<^item> \<^emph>\<open>Concurrency\<close> (\<open>Etcd_Session\<close>, \<open>Irc_Conn\<close>, \<open>Irc_Serve\<close>, \<open>Watch_Forward\<close>, \<open>Watch_Stack\<close>): no channel is closed twice or used after it was closed, no wakeup, no message and no event is lost, \<^verbatim>\<open>Close\<close> and \<^verbatim>\<open>Serve\<close>
    get to their end by the goroutines of the program, and where they do not (\<open>shutdown_blocked\<close>, \<open>watch_close_blocked\<close>).  The locale \<open>progress\<close> of the base carries these proofs;
    \<open>conn_close\<close>, \<open>go_end\<close>, \<open>serve_end\<close> and \<open>watch_end\<close> interpret it.
  \<^item> \<^emph>\<open>Failures\<close>: inputs that panic the server (\<open>short_commands_panic\<close>, \<open>unknown_nick_panics\<close>, \<open>slash_nick_panics\<close>), and behaviour that is not what
    the code or its documentation means (\<open>updateSlice_swap_unreported\<close>, \<open>oper_stale_success\<close>, \<open>session_close_keeps_lease\<close>, \<open>pinned_mode_removable\<close>, \<open>roster_prefix_overlap\<close>).

  \<open>Demo_Net\<close> builds a small network by the model itself, on which the theorems are instantiated.

  \<^bold>\<open>Fuel and bounds.\<close>  The only fuel is that of the retry loop of a transaction, one more than the turns left in the schedule.  It is enough: an attempt
  that meets no interference commits (\<open>doSTM_ends\<close>), so every retry uses up a turn.  All other recursion is structural.  Leases are integers and revisions natural numbers, without
  the bounds of \<^verbatim>\<open>int64\<close>; the length prefix of an encoded key is checked against \<^verbatim>\<open>int\<close>; bytes of keys, hashes and ciphertexts are words of 8 bits.

  \<^bold>\<open>Not modelled.\<close>  The bytes of gob encodings: the commands work on stores of typed values, the layers of the client on stores of byte strings, and the encoding between them is an argument of which the round trip is used (\<open>gob_bytes_ok\<close>, \<open>message_bytes_ok\<close>; on typed values it is the locale \<open>gob_codec\<close>).
  The primitives of Go's crypto packages, TLS, the negotiation of the session key and YAML, which are arguments with their documented behaviour as hypotheses; command line parsing beyond the
  flags and the variables they set; replication, compaction, quotas and authentication of etcd.
  The goroutines of one \<^verbatim>\<open>JOIN\<close> of several channels and of one notice to all users run one after the other in the model; what they do to each other is in the turns of the schedule.  Logging is left out.
\<close>

end
